(* ===== verification/OS_Prelude.thy ===== *)
theory OS_Prelude
  imports Main "HOL-Library.Word" "HOL-Library.Monad_Syntax"
begin

unbundle bit_operations_syntax

text \<open>
  Shared vocabulary of the development: machine types, error codes
  (\<^verbatim>\<open>kern/include/kern/errno.h\<close>), the convention for assertions and panics, checked C
  integer arithmetic, and generic list and word lemmas.

  Conventions used by every component theory:
  \<^item> a kernel \<^verbatim>\<open>assert\<close> that fails, a call to \<^verbatim>\<open>panic\<close> and an access outside an
    object all stop the kernel: the value of the operation is \<open>None\<close>;
  \<^item> an operation that returns an error number is of type \<open>errno + 'a\<close>, with
    \<open>Inl\<close> for the error and \<open>Inr\<close> for the value handed back;
  \<^item> whether \<^verbatim>\<open>kmalloc\<close> can satisfy a request of so many bytes at the moment of the
    call is an argument of the operations that allocate.
\<close>

section \<open>Machine types and error codes\<close>

type_synonym u8 = "8 word"
type_synonym u16 = "16 word"
type_synonym u32 = "32 word"

datatype errno =
    EINVAL | EFAULT | ENAMETOOLONG | ENOMEM | EIO | ENOENT | ENOTDIR | EISDIR
  | EEXIST | EXDEV | EAGAIN | ESPIPE | EUNIMP | ENXIO | ENODEV | EBUSY | EIOCTL
  | ENOTEMPTY | ERANGE | ENOSPC | EMFILE | ENFILE | ENOSYS | ENOEXEC | E2BIG | EBADF

fun errno_code :: "errno \<Rightarrow> u32" where
  "errno_code EINVAL = 1"
| "errno_code EFAULT = 2"
| "errno_code ENAMETOOLONG = 3"
| "errno_code ENOMEM = 4"
| "errno_code EIO = 5"
| "errno_code ENOENT = 6"
| "errno_code ENOTDIR = 7"
| "errno_code EISDIR = 8"
| "errno_code EEXIST = 9"
| "errno_code EXDEV = 10"
| "errno_code EAGAIN = 11"
| "errno_code ESPIPE = 12"
| "errno_code EUNIMP = 13"
| "errno_code ENXIO = 14"
| "errno_code ENODEV = 15"
| "errno_code EBUSY = 16"
| "errno_code EIOCTL = 17"
| "errno_code ENOTEMPTY = 18"
| "errno_code ERANGE = 19"
| "errno_code ENOSPC = 20"
| "errno_code EMFILE = 21"
| "errno_code ENFILE = 22"
| "errno_code ENOSYS = 23"
| "errno_code ENOEXEC = 24"
| "errno_code E2BIG = 25"
| "errno_code EBADF = 26"

lemma errno_code_nonzero [simp]: "errno_code e \<noteq> 0"
  by (cases e) simp_all

lemma errno_code_inject [simp]: "errno_code a = errno_code b \<longleftrightarrow> a = b"
  by (cases a; cases b) simp_all

section \<open>Assertions, undefined accesses and C integers\<close>

definition kassert :: "bool \<Rightarrow> unit option" where
  "kassert b = (if b then Some () else None)"

text \<open>A signed 32-bit result: overflow is undefined behaviour, hence \<open>None\<close>.\<close>

definition cint :: "int \<Rightarrow> int option" where
  "cint x = (if - (2 ^ 31) \<le> x \<and> x < 2 ^ 31 then Some x else None)"

text \<open>Access to a C array object of known extent.\<close>

definition slot_get :: "'a list \<Rightarrow> int \<Rightarrow> 'a option" where
  "slot_get xs i = (if 0 \<le> i \<and> i < int (length xs) then Some (xs ! nat i) else None)"

definition slot_set :: "'a list \<Rightarrow> int \<Rightarrow> 'a \<Rightarrow> 'a list option" where
  "slot_set xs i x = (if 0 \<le> i \<and> i < int (length xs) then Some (xs[nat i := x]) else None)"

text \<open>
  No request for 512 MB or more can be granted, whatever the state of the heap: that is
  all of the directly mapped segment \<^verbatim>\<open>kmalloc\<close> takes its pages from.
\<close>

definition kgrant :: "(u32 \<Rightarrow> bool) \<Rightarrow> u32 \<Rightarrow> bool" where
  "kgrant kmalloc_ok n \<longleftrightarrow> kmalloc_ok n \<and> n < 0x20000000"

text \<open>The interrupt priority level that keeps every interrupt out.\<close>

definition SPL_HIGH :: int where
  "SPL_HIGH = 15"

named_theorems ksimps "rules that unfold assertions and checked accesses"

lemma kassert_Some [ksimps]: "kassert b = Some u \<longleftrightarrow> b"
  by (simp add: kassert_def)

lemma kassert_True [simp]: "kassert True = Some ()"
  by (simp add: kassert_def)

lemma kassert_False [simp]: "kassert False = None"
  by (simp add: kassert_def)

lemma kassert_bind [ksimps]: "Option.bind (kassert b) f = (if b then f () else None)"
  by (simp add: kassert_def)

lemma cint_Some [ksimps]: "cint x = Some y \<longleftrightarrow> y = x \<and> - (2 ^ 31) \<le> x \<and> x < 2 ^ 31"
  by (auto simp: cint_def)

lemma cint_bind [ksimps]:
  "Option.bind (cint x) f = (if - (2 ^ 31) \<le> x \<and> x < 2 ^ 31 then f x else None)"
  by (simp add: cint_def)

lemma slot_get_Some [ksimps]:
  "slot_get xs i = Some x \<longleftrightarrow> 0 \<le> i \<and> i < int (length xs) \<and> x = xs ! nat i"
  by (auto simp: slot_get_def)

lemma slot_set_Some [ksimps]:
  "slot_set xs i x = Some ys \<longleftrightarrow> 0 \<le> i \<and> i < int (length xs) \<and> ys = xs[nat i := x]"
  by (auto simp: slot_set_def)

lemma slot_get_int [simp]: "i < length xs \<Longrightarrow> slot_get xs (int i) = Some (xs ! i)"
  by (simp add: slot_get_def)

lemma slot_set_int [simp]: "i < length xs \<Longrightarrow> slot_set xs (int i) x = Some (xs[i := x])"
  by (simp add: slot_set_def)

section \<open>Generic list lemmas\<close>

lemma take_list_update_eq:
  "i < n \<Longrightarrow> take n (xs[i := x]) = (take n xs)[i := x]"
  by (simp add: take_update_swap)

lemma take_Suc_update:
  "n < length xs \<Longrightarrow> take (Suc n) (xs[n := x]) = take n xs @ [x]"
  by (simp add: take_Suc_conv_app_nth)

text \<open>Indices into a circular buffer of \<open>s\<close> slots.\<close>

lemma ring_index_inj:
  fixes s n a b :: int
  assumes "(n + a) mod s = (n + b) mod s" "0 \<le> a" "a < s" "0 \<le> b" "b < s"
  shows "a = b"
proof -
  have "((n + a) - n) mod s = ((n + b) - n) mod s"
    using assms(1) by (metis mod_diff_left_eq)
  then show ?thesis using assms by simp
qed

lemma distinct_remove_nth:
  "distinct xs \<Longrightarrow> i < length xs \<Longrightarrow>
     set (take i xs @ drop (Suc i) xs) = set xs - {xs ! i}"
  by (induction xs arbitrary: i) (auto simp: nth_Cons split: nat.splits)

text \<open>Allocating \<open>n\<close> pointers asks for \<open>4 * n\<close> bytes; below \<open>2 ^ 30\<close> nothing wraps.\<close>

lemma uint_slot_bytes: "0 \<le> n \<Longrightarrow> n < 2 ^ 30 \<Longrightarrow> uint (word_of_int (n * 4) :: u32) = n * 4"
  by (simp only: uint_word_of_int_eq) (simp add: take_bit_int_eq_self_iff)

lemma slot_bytes:
  assumes "0 \<le> n" "n < 2 ^ 30"
  shows "unat (word_of_int (n * 4) :: u32) div 4 = nat n"
proof -
  have "int (unat (word_of_int (n * 4) :: u32) div 4) = n"
    using uint_slot_bytes [OF assms] by (simp only: zdiv_int uint_nat [symmetric]) simp
  then show ?thesis by linarith
qed

lemma kgrant_slots:
  assumes "kgrant kmalloc_ok (word_of_int (n * 4))" "0 \<le> n" "n < 2 ^ 30"
  shows "n < 2 ^ 27"
proof -
  have "uint (word_of_int (n * 4) :: u32) < uint (0x20000000 :: u32)"
    using assms(1) by (simp add: kgrant_def word_less_def)
  then show ?thesis using uint_slot_bytes [OF assms(2,3)] by simp
qed

text \<open>Natural numbers and 32-bit words.\<close>

lemma unat_of_nat_small: "n < 2 ^ 32 \<Longrightarrow> unat (word_of_nat n :: u32) = n"
  by (simp add: unat_of_nat)

lemma unat_add_small: "unat a + n < 2 ^ 32 \<Longrightarrow> unat (a + word_of_nat n :: u32) = unat a + n"
  by (simp add: unat_word_ariths unat_of_nat mod_simps)

lemma unat_less_2p32: "unat (w :: u32) < 2 ^ 32"
  using unsigned_less [of w, where ?'a = nat] by simp

lemma word_of_nat_of_unat: "word_of_nat (unat (w :: u32)) = w"
  by simp

end
