(* ===== verification/Kern_Coremap.thy ===== *)
theory Kern_Coremap
  imports OS_Prelude
begin

unbundle bit_operations_syntax

text \<open>
  Physical memory: the early allocator of \<^verbatim>\<open>arch/mips/mips/ram.c\<close> and the coremap of
  \<^verbatim>\<open>vm/vm.c\<close> (\<^verbatim>\<open>vm_bootstrap\<close>, \<^verbatim>\<open>getppages\<close>, \<^verbatim>\<open>alloc_kpages\<close>, \<^verbatim>\<open>free_kpages\<close>). The coremap is an
  array of entries, one per page, placed at the bottom of free memory; a block of
  pages is found first-fit and its length is kept in the entry of its first page.

  The theory relates the coremap to a map from the first page of each allocated block
  to its length, and shows that allocation and release change exactly that map
  (locale \<open>page_pool\<close>, interpreted on the model).

  The record is extensible: the kernel heap and the address spaces add their own fields.
\<close>

section \<open>Machine constants and state\<close>

definition PAGE_SIZE :: u32 where
  "PAGE_SIZE = 4096"

definition PAGE_FRAME :: u32 where
  "PAGE_FRAME = 0xfffff000"

definition MIPS_KSEG0 :: u32 where
  "MIPS_KSEG0 = 0x80000000"

definition PADDR_TO_KVADDR :: "u32 \<Rightarrow> u32" where
  "PADDR_TO_KVADDR paddr = paddr + MIPS_KSEG0"

record coremap_entry =
  cm_pid :: int
  cm_viraddr :: u32
  cm_phyaddr :: u32
  cm_taken :: bool
  cm_npage :: u32

text \<open>
  \<open>vm_curpid\<close> is \<^verbatim>\<open>curthread->pid\<close>, with \<open>None\<close> when \<^verbatim>\<open>curthread\<close> is NULL, as it is inside
  \<^verbatim>\<open>mi_switch\<close>.
\<close>

record pmem =
  ram_firstpaddr :: u32
  ram_lastpaddr :: u32
  vm_toppage_ptr :: u32
  vm_indicator :: bool
  vm_pagenumber :: u32
  vm_pageleft :: u32
  vm_coremap_ptr :: u32
  vm_coremap :: "coremap_entry list"
  vm_spl :: int
  vm_curpid :: "int option"

section \<open>Memory before the VM system is up\<close>

definition ram_bootstrap :: "u32 \<Rightarrow> u32 \<Rightarrow> 'a pmem_scheme \<Rightarrow> 'a pmem_scheme" where
  "ram_bootstrap mips_ramsize firstfree s =
     s\<lparr> ram_lastpaddr := (if mips_ramsize > 508 * 1024 * 1024 then 508 * 1024 * 1024 else mips_ramsize),
        ram_firstpaddr := firstfree - MIPS_KSEG0 \<rparr>"

definition ram_stealmem :: "u32 \<Rightarrow> 'a pmem_scheme \<Rightarrow> u32 \<times> 'a pmem_scheme" where
  "ram_stealmem npages s =
     (let size = npages * PAGE_SIZE in
      if ram_firstpaddr s + size > ram_lastpaddr s then (0, s)
      else (ram_firstpaddr s, s\<lparr> ram_firstpaddr := ram_firstpaddr s + size \<rparr>))"

definition ram_getsize :: "'a pmem_scheme \<Rightarrow> u32 \<times> u32 \<times> 'a pmem_scheme" where
  "ram_getsize s =
     (ram_firstpaddr s, ram_lastpaddr s, s\<lparr> ram_firstpaddr := 0, ram_lastpaddr := 0 \<rparr>)"

section \<open>The coremap\<close>

text \<open>
  An entry takes 20 bytes. \<open>ram i\<close> is what memory holds at the place of entry \<open>i\<close>: the loop
  does not set \<^verbatim>\<open>pid\<close> and \<^verbatim>\<open>npage\<close>.
\<close>

definition vm_bootstrap :: "(nat \<Rightarrow> coremap_entry) \<Rightarrow> 'a pmem_scheme \<Rightarrow> 'a pmem_scheme" where
  "vm_bootstrap ram s =
     (let (lowest, highest, s1) = ram_getsize s;
          pagenumber = (highest - lowest) div PAGE_SIZE - 1;
          top = ((lowest + pagenumber * 20 + 20) AND PAGE_FRAME) + 0x1000
      in s1\<lparr> vm_pagenumber := pagenumber,
             vm_coremap_ptr := PADDR_TO_KVADDR lowest,
             vm_toppage_ptr := top,
             vm_coremap := map (\<lambda>i. (ram i)\<lparr> cm_taken := False, cm_viraddr := 0,
                                    cm_phyaddr := top + 4096 * word_of_nat i \<rparr>) [0..<unat pagenumber],
             vm_pageleft := pagenumber,
             vm_indicator := True \<rparr>)"

text \<open>The search for \<open>n\<close> free entries in a row: the index of the last of them.\<close>

fun find_run :: "coremap_entry list \<Rightarrow> nat \<Rightarrow> nat \<Rightarrow> nat \<Rightarrow> nat option" where
  "find_run [] i count n = None"
| "find_run (e # es) i count n =
     (if \<not> cm_taken e
      then if count + 1 = n then Some i else find_run es (i + 1) (count + 1) n
      else find_run es (i + 1) 0 n)"

text \<open>Entries \<open>i\<close>, \<open>i - 1\<close>, and so on, \<open>n\<close> of them, become taken.\<close>

fun mark_back :: "nat \<Rightarrow> nat \<Rightarrow> coremap_entry list \<Rightarrow> coremap_entry list" where
  "mark_back 0 i c = c"
| "mark_back (Suc n) i c = mark_back n (i - 1) (c[i := (c ! i)\<lparr> cm_taken := True \<rparr>])"

definition getppages :: "u32 \<Rightarrow> 'a pmem_scheme \<Rightarrow> (u32 \<times> 'a pmem_scheme) option" where
  "getppages npages s =
     (let interrupt = vm_spl s; s1 = s\<lparr> vm_spl := SPL_HIGH \<rparr> in
      if \<not> vm_indicator s1
      then let (phyaddr, s2) = ram_stealmem npages s1 in Some (phyaddr, s2\<lparr> vm_spl := interrupt \<rparr>)
      else if npages > vm_pageleft s1 then Some (0, s1)
      else case find_run (take (unat (vm_pagenumber s1)) (vm_coremap s1)) 0 0 (unat npages) of
        None \<Rightarrow> Some (0, s1\<lparr> vm_spl := interrupt \<rparr>)
      | Some i \<Rightarrow> do {
          let n = unat npages;
          let c = mark_back n i (vm_coremap s1);
          let k = i + 1 - n;
          e \<leftarrow> slot_get c (int k);
          pid \<leftarrow> vm_curpid s1;
          let phyaddr = cm_phyaddr e;
          kassert (phyaddr > vm_coremap_ptr s1 - 0x80000000);
          Some (phyaddr, s1\<lparr> vm_coremap := c[k := e\<lparr> cm_pid := pid, cm_npage := npages \<rparr>],
                             vm_pageleft := vm_pageleft s1 - npages,
                             vm_spl := interrupt \<rparr>)
        })"

definition alloc_kpages :: "u32 \<Rightarrow> 'a pmem_scheme \<Rightarrow> (u32 \<times> 'a pmem_scheme) option" where
  "alloc_kpages npages s = do {
     (paddr, s1) \<leftarrow> getppages npages s;
     if paddr = 0 then Some (0, s1) else Some (PADDR_TO_KVADDR paddr, s1)
   }"

text \<open>
  The search of \<^verbatim>\<open>free_kpages\<close> has no bound: an address of no entry makes it run off the end
  of the array, which is \<open>None\<close>.
\<close>

fun find_page :: "coremap_entry list \<Rightarrow> nat \<Rightarrow> u32 \<Rightarrow> nat option" where
  "find_page [] i addr = None"
| "find_page (e # es) i addr =
     (if PADDR_TO_KVADDR (cm_phyaddr e) = addr then Some i else find_page es (i + 1) addr)"

fun release_run :: "nat \<Rightarrow> nat \<Rightarrow> 'a pmem_scheme \<Rightarrow> 'a pmem_scheme option" where
  "release_run 0 i s = Some s"
| "release_run (Suc n) i s = do {
     e \<leftarrow> slot_get (vm_coremap s) (int i);
     release_run n (i + 1)
       (s\<lparr> vm_coremap := (vm_coremap s)[i := e\<lparr> cm_taken := False \<rparr>],
          vm_pageleft := vm_pageleft s + 1 \<rparr>)
   }"

definition free_kpages :: "u32 \<Rightarrow> 'a pmem_scheme \<Rightarrow> 'a pmem_scheme option" where
  "free_kpages addr s = do {
     kassert (addr \<ge> MIPS_KSEG0);
     let spl = vm_spl s;
     let s1 = s\<lparr> vm_spl := SPL_HIGH \<rparr>;
     i \<leftarrow> find_page (vm_coremap s1) 0 addr;
     s2 \<leftarrow> release_run (unat (cm_npage (vm_coremap s1 ! i))) i s1;
     Some (s2\<lparr> vm_spl := spl \<rparr>)
   }"

section \<open>Runs of entries\<close>

definition free_run :: "coremap_entry list \<Rightarrow> nat \<Rightarrow> nat \<Rightarrow> bool" where
  "free_run c k n \<longleftrightarrow> k + n \<le> length c \<and> (\<forall>m. k \<le> m \<and> m < k + n \<longrightarrow> \<not> cm_taken (c ! m))"

definition set_range :: "bool \<Rightarrow> nat \<Rightarrow> nat \<Rightarrow> coremap_entry list \<Rightarrow> coremap_entry list" where
  "set_range b k n c =
     map (\<lambda>m. if k \<le> m \<and> m < k + n then (c ! m)\<lparr> cm_taken := b \<rparr> else c ! m) [0..<length c]"

lemma length_set_range [simp]: "length (set_range b k n c) = length c"
  by (simp add: set_range_def)

lemma nth_set_range [simp]:
  "m < length c \<Longrightarrow> set_range b k n c ! m =
     (if k \<le> m \<and> m < k + n then (c ! m)\<lparr> cm_taken := b \<rparr> else c ! m)"
  by (simp add: set_range_def)

lemma set_range_none: "set_range b k 0 c = c"
  by (rule nth_equalityI) auto

lemma find_run_first_fit:
  assumes "0 < n" "count < n" "count \<le> i" "i \<le> length c"
    "\<forall>m<i. i - count \<le> m \<longrightarrow> \<not> cm_taken (c ! m)"
    "count < i \<longrightarrow> cm_taken (c ! (i - count - 1))"
    "\<forall>k. k + n \<le> i \<longrightarrow> \<not> free_run c k n"
  shows "case find_run (drop i c) i count n of
      None \<Rightarrow> \<forall>k. \<not> free_run c k n
    | Some j \<Rightarrow> \<exists>k. j + 1 = k + n \<and> free_run c k n \<and> (\<forall>k'<k. \<not> free_run c k' n)"
  using assms
proof (induction "length c - i" arbitrary: i count)
  case 0
  then have "drop i c = []" by simp
  moreover have "\<not> free_run c k n" for k
    using 0 by (cases "k + n \<le> i") (auto simp: free_run_def)
  ultimately show ?case by simp
next
  case (Suc d)
  then have i: "i < length c" by simp
  then have dr: "drop i c = c ! i # drop (Suc i) c" by (simp add: Cons_nth_drop_Suc)
  have "d = length c - Suc i" using Suc.hyps(2) by simp
  note IH = Suc.hyps(1) [OF this]
  show ?case
  proof (cases "cm_taken (c ! i)")
    case True
    have "\<not> free_run c k n" if "k + n \<le> i + 1" for k
      using that True Suc.prems(1,7) i unfolding free_run_def
      by (metis Suc_eq_plus1 add_lessD1 add_less_cancel_left le_SucE lessI less_Suc_eq_le
          linorder_not_le nat_less_le trans_le_add1)
    with IH [of 0] True i Suc.prems(1) show ?thesis unfolding dr by simp
  next
    case False
    then have fr: "\<forall>m<i + 1. i + 1 - (count + 1) \<le> m \<longrightarrow> \<not> cm_taken (c ! m)"
      using Suc.prems(5) by (auto simp: less_Suc_eq)
    show ?thesis
    proof (cases "count + 1 = n")
      case True
      have "free_run c (i - count) n"
        using fr True i Suc.prems(3) by (auto simp: free_run_def)
      moreover have "\<not> free_run c k' n" if "k' < i - count" for k'
        using that Suc.prems(3,7) True by auto
      ultimately show ?thesis
        using False True Suc.prems(3) unfolding dr by (auto intro!: exI [of _ "i - count"])
    next
      case no: False
      have "\<not> free_run c k n" if k: "k + n \<le> i + 1" for k
      proof (cases "k + n \<le> i")
        case True then show ?thesis using Suc.prems(7) by blast
      next
        case F: False
        with k no Suc.prems(2) have "k < i - count" "i - count - 1 < k + n" "k \<le> i - count - 1" by auto
        then show ?thesis using Suc.prems(6) by (auto simp: free_run_def)
      qed
      with IH [of "count + 1"] False no Suc.prems fr i show ?thesis unfolding dr by simp
    qed
  qed
qed

lemma find_run_from_start:
  assumes "0 < n"
  obtains "find_run c 0 0 n = None" "\<And>k. \<not> free_run c k n"
  | k where "find_run c 0 0 n = Some (k + n - 1)" "free_run c k n" "\<And>k'. k' < k \<Longrightarrow> \<not> free_run c k' n"
proof -
  have "\<forall>k. k + n \<le> 0 \<longrightarrow> \<not> free_run c k n" using assms by simp
  from find_run_first_fit [of n 0 0 c] assms this show thesis
    by (cases "find_run c 0 0 n") (auto intro: that, metis add_diff_cancel_right' Suc_eq_plus1 that(2))
qed

lemma mark_back_range:
  "n \<le> i + 1 \<Longrightarrow> i < length c \<Longrightarrow> mark_back n i c = set_range True (i + 1 - n) n c"
proof (induction n arbitrary: i c)
  case 0
  then show ?case by (simp add: set_range_none)
next
  case (Suc n)
  show ?case
  proof (cases n)
    case 0
    then show ?thesis using Suc.prems by (auto intro!: nth_equalityI simp: nth_list_update)
  next
    case (Suc n')
    with Suc.IH [of "i - 1" "c[i := (c ! i)\<lparr> cm_taken := True \<rparr>]"] \<open>Suc n \<le> i + 1\<close> \<open>i < length c\<close>
    show ?thesis by (auto intro!: nth_equalityI simp: nth_list_update)
  qed
qed

lemma release_run_range:
  "i + n \<le> length (vm_coremap s) \<Longrightarrow> release_run n i s =
     Some (s\<lparr> vm_coremap := set_range False i n (vm_coremap s),
              vm_pageleft := vm_pageleft s + word_of_nat n \<rparr>)"
proof (induction n arbitrary: i s)
  case 0
  then show ?case by (simp add: set_range_none)
next
  case (Suc n)
  have "set_range False (Suc i) n ((vm_coremap s)[i := (vm_coremap s ! i)\<lparr> cm_taken := False \<rparr>]) =
      set_range False i (Suc n) (vm_coremap s)"
    using Suc.prems by (auto intro!: nth_equalityI simp: nth_list_update)
  then show ?case using Suc.prems by (simp add: Suc.IH ac_simps)
qed

section \<open>The blocks a coremap stands for\<close>

text \<open>\<open>own\<close> maps the first page of each allocated block to the number of its pages.\<close>

definition blocks_ok :: "coremap_entry list \<Rightarrow> (nat \<Rightarrow> nat option) \<Rightarrow> bool" where
  "blocks_ok c own \<longleftrightarrow>
     (\<forall>k n. own k = Some n \<longrightarrow> 0 < n \<and> k + n \<le> length c \<and> unat (cm_npage (c ! k)) = n) \<and>
     (\<forall>k n k'. own k = Some n \<and> own k' \<noteq> None \<and> k < k' \<longrightarrow> k + n \<le> k') \<and>
     (\<forall>i<length c. cm_taken (c ! i) \<longleftrightarrow> (\<exists>k n. own k = Some n \<and> k \<le> i \<and> i < k + n))"

definition free_pages :: "coremap_entry list \<Rightarrow> nat set" where
  "free_pages c = {i. i < length c \<and> \<not> cm_taken (c ! i)}"

definition cm_wf :: "'a pmem_scheme \<Rightarrow> bool" where
  "cm_wf s \<longleftrightarrow> vm_indicator s \<and> length (vm_coremap s) = unat (vm_pagenumber s) \<and>
     (\<forall>i<length (vm_coremap s). cm_phyaddr (vm_coremap s ! i) = vm_toppage_ptr s + 4096 * word_of_nat i) \<and>
     unat (vm_toppage_ptr s) + 4096 * length (vm_coremap s) \<le> 2 ^ 29 \<and>
     4096 dvd unat (vm_toppage_ptr s) \<and>
     vm_coremap_ptr s - 0x80000000 < vm_toppage_ptr s \<and>
     unat (vm_pageleft s) = card (free_pages (vm_coremap s))"

definition cm_rep :: "'a pmem_scheme \<Rightarrow> (nat \<Rightarrow> nat option) \<Rightarrow> bool" where
  "cm_rep s own \<longleftrightarrow> cm_wf s \<and> blocks_ok (vm_coremap s) own"

text \<open>The kernel address of page number \<open>k\<close>.\<close>

definition kpage :: "'a pmem_scheme \<Rightarrow> nat \<Rightarrow> u32" where
  "kpage s k = PADDR_TO_KVADDR (vm_toppage_ptr s + 4096 * word_of_nat k)"

lemma unat_page_addr:
  assumes "unat (base :: u32) + 4096 * n \<le> 2 ^ 29" "k \<le> n"
  shows "unat (base + 4096 * word_of_nat k) = unat base + 4096 * k"
    and "unat (PADDR_TO_KVADDR (base + 4096 * word_of_nat k)) = unat base + 4096 * k + 2 ^ 31"
proof -
  have "base + 4096 * word_of_nat k = (word_of_nat (unat base + 4096 * k) :: u32)" by simp
  then show *: "unat (base + 4096 * word_of_nat k) = unat base + 4096 * k"
    using assms by (simp only: unat_of_nat) simp
  have "PADDR_TO_KVADDR (base + 4096 * word_of_nat k) = (word_of_nat (unat base + 4096 * k + 2 ^ 31) :: u32)"
    by (simp add: PADDR_TO_KVADDR_def MIPS_KSEG0_def)
  then show "unat (PADDR_TO_KVADDR (base + 4096 * word_of_nat k)) = unat base + 4096 * k + 2 ^ 31"
    using assms by (simp only: unat_of_nat) simp
qed

lemma unat_kpage:
  assumes "cm_wf s" "k < length (vm_coremap s)"
  shows "unat (kpage s k) = unat (vm_toppage_ptr s) + 4096 * k + 2 ^ 31"
  using unat_page_addr(2) [where base = "vm_toppage_ptr s" and n = "length (vm_coremap s)" and k = k] assms
  by (simp add: cm_wf_def kpage_def)

lemma kpage_inj:
  assumes "cm_wf s" "k < length (vm_coremap s)" "k' < length (vm_coremap s)"
  shows "kpage s k = kpage s k' \<longleftrightarrow> k = k'"
proof
  assume "kpage s k = kpage s k'"
  then have "unat (kpage s k) = unat (kpage s k')" by simp
  then show "k = k'" by (simp add: unat_kpage [OF assms(1)] assms(2,3))
qed simp

lemma find_page_from:
  assumes "\<And>i. i < length c \<Longrightarrow> PADDR_TO_KVADDR (cm_phyaddr (c ! i)) = addr \<longleftrightarrow> i = k"
  shows "find_page c j addr = (if k < length c then Some (j + k) else None)"
  using assms
proof (induction c arbitrary: j k)
  case (Cons e es)
  show ?case
  proof (cases k)
    case 0
    then show ?thesis using Cons.prems [of 0] by simp
  next
    case (Suc k')
    have "PADDR_TO_KVADDR (cm_phyaddr (es ! i)) = addr \<longleftrightarrow> i = k'" if "i < length es" for i
      using Cons.prems [of "Suc i"] that Suc by simp
    from Cons.IH [OF this, of "j + 1"] Cons.prems [of 0] Suc show ?thesis by simp
  qed
qed simp

lemma find_page_kpage:
  assumes "cm_wf s" "k < length (vm_coremap s)"
  shows "find_page (vm_coremap s) 0 (kpage s k) = Some k"
proof -
  have "PADDR_TO_KVADDR (cm_phyaddr (vm_coremap s ! i)) = kpage s i" if "i < length (vm_coremap s)" for i
    using assms(1) that by (simp add: cm_wf_def kpage_def)
  then show ?thesis
    using find_page_from [of "vm_coremap s" "kpage s k" k 0] kpage_inj [OF assms(1)] assms(2) by simp
qed

section \<open>Blocks and free pages after a change\<close>

lemma free_pages_set_range:
  assumes "k + n \<le> length c"
  shows "free_pages (set_range True k n c) = free_pages c - {k..<k + n}"
    and "free_pages (set_range False k n c) = free_pages c \<union> {k..<k + n}"
  using assms by (auto simp: free_pages_def split: if_splits)

lemma free_pages_cong:
  assumes "length c' = length c" "\<And>i. i < length c \<Longrightarrow> cm_taken (c' ! i) = cm_taken (c ! i)"
  shows "free_pages c' = free_pages c"
  using assms by (auto simp: free_pages_def)

lemma free_pages_finite [simp]: "finite (free_pages c)"
  by (simp add: free_pages_def)

lemma blocks_ok_D:
  assumes "blocks_ok c own" "own k = Some n"
  shows "0 < n" "k + n \<le> length c" "unat (cm_npage (c ! k)) = n"
    "\<And>i. k \<le> i \<Longrightarrow> i < k + n \<Longrightarrow> cm_taken (c ! i)"
  using assms unfolding blocks_ok_def by (blast, blast, blast, meson less_le_trans)

lemma blocks_ok_disjoint:
  assumes "blocks_ok c own" "own k = Some n" "own k' = Some n'" "k \<noteq> k'"
  shows "{k..<k + n} \<inter> {k'..<k' + n'} = {}"
proof (cases "k < k'")
  case True
  then have "k + n \<le> k'" using assms unfolding blocks_ok_def by blast
  then show ?thesis by auto
next
  case False
  then have "k' + n' \<le> k" using assms unfolding blocks_ok_def by (metis linorder_neqE_nat option.distinct(1))
  then show ?thesis by auto
qed

lemma blocks_ok_alloc:
  assumes ok: "blocks_ok c own" and fr: "free_run c k n" and n: "0 < n" "unat npages = n"
  shows "blocks_ok ((set_range True k n c)[k := (set_range True k n c ! k)\<lparr> cm_pid := pid, cm_npage := npages \<rparr>])
    (own(k \<mapsto> n))" (is "blocks_ok ?c ?own")
proof -
  have len: "k + n \<le> length c" using fr by (simp add: free_run_def)
  have apart: "k' + n' \<le> k \<or> k + n \<le> k'" if "own k' = Some n'" for k' n'
  proof (rule ccontr)
    assume "\<not> ?thesis"
    then have "max k k' < k + n" "max k k' < k' + n'" "k \<le> max k k'" "k' \<le> max k k'"
      using n blocks_ok_D(1) [OF ok that] by auto
    then show False
      using blocks_ok_D(4) [OF ok that, of "max k k'"] fr by (auto simp: free_run_def)
  qed
  have A: "0 < m \<and> j + m \<le> length ?c \<and> unat (cm_npage (?c ! j)) = m" if "?own j = Some m" for j m
    using that n len blocks_ok_D(1-3) [OF ok, of j m]
    by (auto simp: nth_list_update split: if_splits)
  have B: "j + m \<le> j'" if "?own j = Some m" "?own j' \<noteq> None" "j < j'" for j m j'
  proof (cases "j = k \<or> j' = k")
    case True
    then show ?thesis using that apart by (fastforce split: if_splits)
  next
    case False
    then show ?thesis using that ok by (auto simp: blocks_ok_def)
  qed
  have C: "cm_taken (?c ! i) \<longleftrightarrow> (\<exists>j m. ?own j = Some m \<and> j \<le> i \<and> i < j + m)" if "i < length c" for i
  proof (cases "k \<le> i \<and> i < k + n")
    case True
    then have "cm_taken (?c ! i)" using that len by (auto simp: nth_list_update)
    moreover have "?own k = Some n" by simp
    ultimately show ?thesis using True by blast
  next
    case False
    then have "cm_taken (?c ! i) = cm_taken (c ! i)" using that n len by (auto simp: nth_list_update)
    also have "\<dots> \<longleftrightarrow> (\<exists>j m. own j = Some m \<and> j \<le> i \<and> i < j + m)"
      using ok that by (simp add: blocks_ok_def)
    also have "\<dots> \<longleftrightarrow> (\<exists>j m. ?own j = Some m \<and> j \<le> i \<and> i < j + m)"
    proof -
      have "own k = None"
      proof (rule ccontr)
        assume "own k \<noteq> None"
        then obtain m where "own k = Some m" by auto
        from apart [OF this] n blocks_ok_D(1) [OF ok this] show False by simp
      qed
      then show ?thesis using False by auto
    qed
    finally show ?thesis .
  qed
  show ?thesis using A B C unfolding blocks_ok_def by simp
qed

lemma blocks_ok_free:
  assumes ok: "blocks_ok c own" and own: "own k = Some n"
  shows "blocks_ok (set_range False k n c) (own(k := None))" (is "blocks_ok ?c ?own")
proof -
  have len: "k + n \<le> length c" by (rule blocks_ok_D(2) [OF ok own])
  have A: "0 < m \<and> j + m \<le> length ?c \<and> unat (cm_npage (?c ! j)) = m" if "?own j = Some m" for j m
    using that blocks_ok_D(1-3) [OF ok, of j m] by (auto split: if_splits)
  have B: "j + m \<le> j'" if "?own j = Some m" "?own j' \<noteq> None" "j < j'" for j m j'
    using that ok by (auto simp: blocks_ok_def split: if_splits)
  have C: "cm_taken (?c ! i) \<longleftrightarrow> (\<exists>j m. ?own j = Some m \<and> j \<le> i \<and> i < j + m)" if "i < length c" for i
  proof (cases "k \<le> i \<and> i < k + n")
    case True
    have "\<not> (j \<le> i \<and> i < j + m)" if "?own j = Some m" for j m
      using blocks_ok_disjoint [OF ok own, of j m] that True by (auto split: if_splits)
    then show ?thesis using True that by auto
  next
    case False
    then have "cm_taken (?c ! i) = cm_taken (c ! i)" using that by auto
    also have "\<dots> \<longleftrightarrow> (\<exists>j m. own j = Some m \<and> j \<le> i \<and> i < j + m)"
      using ok that by (simp add: blocks_ok_def)
    also have "\<dots> \<longleftrightarrow> (\<exists>j m. ?own j = Some m \<and> j \<le> i \<and> i < j + m)"
    proof -
      have "j \<noteq> k" if "own j = Some m" "j \<le> i" "i < j + m" for j m using that False own by auto
      then show ?thesis by (metis fun_upd_apply option.distinct(1))
    qed
    finally show ?thesis .
  qed
  show ?thesis using A B C unfolding blocks_ok_def by simp
qed

section \<open>Allocation and release\<close>

text \<open>What allocation and release may change.\<close>

definition pm_frame :: "'a pmem_scheme \<Rightarrow> 'a pmem_scheme \<Rightarrow> bool" where
  "pm_frame s s' \<longleftrightarrow> (\<exists>c l sp. s' = s\<lparr> vm_coremap := c, vm_pageleft := l, vm_spl := sp \<rparr>) \<and>
     length (vm_coremap s') = length (vm_coremap s)"

lemma pm_frameI:
  "length c = length (vm_coremap s) \<Longrightarrow> pm_frame s (s\<lparr> vm_coremap := c, vm_pageleft := l, vm_spl := sp \<rparr>)"
  unfolding pm_frame_def by auto

lemma cm_wf_update:
  assumes "cm_wf s" "length c = length (vm_coremap s)"
    "\<And>i. i < length c \<Longrightarrow> cm_phyaddr (c ! i) = cm_phyaddr (vm_coremap s ! i)"
    "unat l = card (free_pages c)"
  shows "cm_wf (s\<lparr> vm_coremap := c, vm_pageleft := l, vm_spl := sp \<rparr>)"
  using assms by (simp add: cm_wf_def)

lemma run_within_free: "free_run c k n \<Longrightarrow> {k..<k + n} \<subseteq> free_pages c"
  by (auto simp: free_run_def free_pages_def)

lemma pages_left_bound:
  assumes "cm_wf s" "free_run (vm_coremap s) k (unat n)"
  shows "n \<le> vm_pageleft s"
proof -
  have "card {k..<k + unat n} \<le> card (free_pages (vm_coremap s))"
    by (rule card_mono [OF free_pages_finite run_within_free [OF assms(2)]])
  then show ?thesis using assms(1) by (simp add: cm_wf_def word_le_nat_alt)
qed

lemma getppages_full:
  assumes "cm_wf s" "0 < n" "\<And>k. \<not> free_run (vm_coremap s) k (unat n)"
  shows "getppages n s = Some (0, s\<lparr> vm_spl := (if n > vm_pageleft s then SPL_HIGH else vm_spl s) \<rparr>)"
proof (cases "n > vm_pageleft s")
  case True
  then show ?thesis using assms(1) by (simp add: getppages_def cm_wf_def)
next
  case False
  have "0 < unat n" using assms(2) by (simp add: word_less_nat_alt)
  then have "find_run (vm_coremap s) 0 0 (unat n) = None"
    using assms(3) by (auto elim: find_run_from_start)
  then show ?thesis using assms(1) False by (simp add: getppages_def cm_wf_def)
qed

lemma getppages_found:
  assumes rep: "cm_rep s own" and n: "0 < n" and pid: "vm_curpid s = Some pid"
    and fr: "free_run (vm_coremap s) k (unat n)" "\<And>k'. k' < k \<Longrightarrow> \<not> free_run (vm_coremap s) k' (unat n)"
  shows "\<exists>s'. getppages n s = Some (vm_toppage_ptr s + 4096 * word_of_nat k, s') \<and>
    pm_frame s s' \<and> vm_spl s' = vm_spl s \<and> cm_rep s' (own(k \<mapsto> unat n))"
proof -
  have wf: "cm_wf s" and ok: "blocks_ok (vm_coremap s) own" using rep by (simp_all add: cm_rep_def)
  let ?c = "vm_coremap s" and ?n = "unat n"
  have n0: "0 < ?n" using n by (simp add: word_less_nat_alt)
  have len: "k + ?n \<le> length ?c" using fr(1) by (simp add: free_run_def)
  have left: "n \<le> vm_pageleft s" by (rule pages_left_bound [OF wf fr(1)])
  have found: "find_run ?c 0 0 ?n = Some (k + ?n - 1)"
    using n0
  proof (cases rule: find_run_from_start [of _ ?c])
    case 1
    then show ?thesis using fr(1) by blast
  next
    case (2 k0)
    have "k0 = k" using 2(2,3) fr by (metis linorder_neqE_nat)
    then show ?thesis using 2(1) by simp
  qed
  have mark: "mark_back ?n (k + ?n - 1) ?c = set_range True k ?n ?c"
    using mark_back_range [of ?n "k + ?n - 1" ?c] n0 len by simp
  let ?e = "set_range True k ?n ?c ! k"
  let ?c' = "(set_range True k ?n ?c)[k := ?e\<lparr> cm_pid := pid, cm_npage := n \<rparr>]"
  let ?s' = "s\<lparr> vm_coremap := ?c', vm_pageleft := vm_pageleft s - n, vm_spl := vm_spl s \<rparr>"
  have phy: "cm_phyaddr ?e = vm_toppage_ptr s + 4096 * word_of_nat k"
    using wf len n0 by (simp add: cm_wf_def)
  have "unat (vm_toppage_ptr s + 4096 * word_of_nat k) = unat (vm_toppage_ptr s) + 4096 * k"
    using unat_page_addr(1) [where base = "vm_toppage_ptr s" and n = "length ?c" and k = k] wf len
    by (simp add: cm_wf_def)
  then have "vm_toppage_ptr s \<le> vm_toppage_ptr s + 4096 * word_of_nat k" by (simp add: word_le_nat_alt)
  then have chk: "vm_coremap_ptr s - 0x80000000 < vm_toppage_ptr s + 4096 * word_of_nat k"
    using wf unfolding cm_wf_def by (meson order_less_le_trans)
  have "getppages n s = Some (vm_toppage_ptr s + 4096 * word_of_nat k, ?s')"
    using wf left [unfolded linorder_not_less [symmetric]] len n0 found mark phy chk pid
    by (simp add: getppages_def cm_wf_def Let_def ksimps)
  moreover have "pm_frame s ?s'" by (rule pm_frameI) simp
  moreover have "cm_wf ?s'"
  proof (rule cm_wf_update [OF wf])
    show "cm_phyaddr (?c' ! i) = cm_phyaddr (?c ! i)" if "i < length ?c'" for i
      using that len n0 by (auto simp: nth_list_update)
    have fp: "free_pages ?c' = free_pages ?c - {k..<k + ?n}"
      unfolding free_pages_set_range(1) [OF len, symmetric]
      by (rule free_pages_cong) (auto simp: nth_list_update)
    have "card (free_pages ?c') = card (free_pages ?c) - ?n"
      unfolding fp using card_Diff_subset [OF _ run_within_free [OF fr(1)]] by simp
    then show "unat (vm_pageleft s - n) = card (free_pages ?c')"
      using wf left by (simp add: cm_wf_def unat_sub)
  qed simp
  moreover have "blocks_ok ?c' (own(k \<mapsto> ?n))" by (rule blocks_ok_alloc [OF ok fr(1) n0 refl])
  ultimately show ?thesis by (auto simp: cm_rep_def)
qed

lemma free_kpages_block:
  assumes rep: "cm_rep s own" and own: "own k = Some n"
  shows "\<exists>s'. free_kpages (kpage s k) s = Some s' \<and> pm_frame s s' \<and> vm_spl s' = vm_spl s \<and>
    cm_rep s' (own(k := None)) \<and> vm_coremap s' = set_range False k n (vm_coremap s) \<and>
    vm_pageleft s' = vm_pageleft s + word_of_nat n"
proof -
  have wf: "cm_wf s" and ok: "blocks_ok (vm_coremap s) own" using rep by (simp_all add: cm_rep_def)
  let ?c = "vm_coremap s"
  note D = blocks_ok_D [OF ok own]
  have k: "k < length ?c" using D(1,2) by simp
  have hi: "MIPS_KSEG0 \<le> kpage s k"
    by (simp add: word_le_nat_alt unat_kpage [OF wf k] MIPS_KSEG0_def)
  let ?s' = "s\<lparr> vm_coremap := set_range False k n ?c, vm_pageleft := vm_pageleft s + word_of_nat n,
               vm_spl := vm_spl s \<rparr>"
  have "free_kpages (kpage s k) s = Some ?s'"
    using hi find_page_kpage [OF wf k] D(2,3)
    by (simp add: free_kpages_def ksimps release_run_range)
  moreover have "pm_frame s ?s'" by (rule pm_frameI) simp
  moreover have "cm_wf ?s'"
  proof (rule cm_wf_update [OF wf])
    have disj: "free_pages ?c \<inter> {k..<k + n} = {}" using D(4) by (auto simp: free_pages_def)
    have "card (free_pages (set_range False k n ?c)) = card (free_pages ?c) + n"
      using card_Un_disjoint [OF _ _ disj] by (simp add: free_pages_set_range(2) [OF D(2)])
    moreover have "\<dots> \<le> length ?c"
      unfolding calculation [symmetric]
      using card_mono [of "{..<length ?c}" "free_pages (set_range False k n ?c)"]
      by (simp add: free_pages_def subset_iff)
    moreover have "length ?c < 2 ^ 32" using wf unat_less_2p32 [of "vm_pagenumber s"] by (simp add: cm_wf_def)
    ultimately show "unat (vm_pageleft s + word_of_nat n) = card (free_pages (set_range False k n ?c))"
      using wf by (simp add: cm_wf_def unat_add_small)
  qed auto
  moreover have "blocks_ok (set_range False k n ?c) (own(k := None))" by (rule blocks_ok_free [OF ok own])
  ultimately show ?thesis by (auto simp: cm_rep_def)
qed

section \<open>The interface of the page allocator\<close>

definition block_pages :: "u32 \<Rightarrow> nat \<Rightarrow> u32 set" where
  "block_pages a n = (\<lambda>j. a + 4096 * word_of_nat j) ` {..<n}"

text \<open>
  A pool of pages hands out blocks of pages, named by the kernel address of their first
  byte. \<open>rep s own\<close>: in state \<open>s\<close> the blocks that are out are those of the map \<open>own\<close>.
\<close>

locale page_pool =
  fixes rep :: "'s \<Rightarrow> (u32 \<Rightarrow> nat option) \<Rightarrow> bool"
    and alloc :: "u32 \<Rightarrow> 's \<Rightarrow> (u32 \<times> 's) option"
    and release :: "u32 \<Rightarrow> 's \<Rightarrow> 's option"
    and room :: "'s \<Rightarrow> nat \<Rightarrow> bool"
    and frame :: "'s \<Rightarrow> 's \<Rightarrow> bool"
  assumes alloc_room: "rep s own \<Longrightarrow> 0 < np \<Longrightarrow> room s (unat np) \<Longrightarrow>
      \<exists>a s'. alloc np s = Some (a, s') \<and> a \<noteq> 0 \<and> own a = None \<and> rep s' (own(a \<mapsto> unat np)) \<and> frame s s'"
    and alloc_full: "rep s own \<Longrightarrow> 0 < np \<Longrightarrow> \<not> room s (unat np) \<Longrightarrow>
      \<exists>s'. alloc np s = Some (0, s') \<and> rep s' own \<and> frame s s'"
    and release_block: "rep s own \<Longrightarrow> own a = Some n \<Longrightarrow>
      \<exists>s'. release a s = Some s' \<and> rep s' (own(a := None)) \<and> frame s s'"
    and blocks_apart: "rep s own \<Longrightarrow> own a = Some n \<Longrightarrow> own b = Some m \<Longrightarrow> a \<noteq> b \<Longrightarrow>
      block_pages a n \<inter> block_pages b m = {}"
    and block_bounds: "rep s own \<Longrightarrow> own a = Some n \<Longrightarrow>
      0 < n \<and> 4096 dvd unat a \<and> 2 ^ 31 \<le> unat a \<and> unat a + 4096 * n \<le> 0xa0000000"
begin

lemma alloc_returns: "rep s own \<Longrightarrow> 0 < n \<Longrightarrow> \<exists>r. alloc n s = Some r"
  using alloc_room alloc_full by (cases "room s (unat n)") blast+

lemma alloc_cases:
  assumes "rep s own" "0 < n" "alloc n s = Some (a, s')"
  obtains "a = 0" "rep s' own" "\<not> room s (unat n)" "frame s s'"
  | "a \<noteq> 0" "own a = None" "rep s' (own(a \<mapsto> unat n))" "room s (unat n)" "frame s s'"
proof (cases "room s (unat n)")
  case True
  with alloc_room [OF assms(1,2)] assms(3) that(2) show thesis by force
next
  case False
  with alloc_full [OF assms(1,2)] assms(3) that(1) show thesis by force
qed

lemma alloc_fresh:
  assumes "rep s own" "0 < n" "alloc n s = Some (a, s')" "a \<noteq> 0" "own b = Some m"
  shows "block_pages a (unat n) \<inter> block_pages b m = {}"
proof (cases rule: alloc_cases [OF assms(1-3)])
  case 2
  then have "b \<noteq> a" using assms(5) by auto
  then show ?thesis using blocks_apart [OF 2(3), of a "unat n" b m] assms(5) by simp
qed (use assms in simp)

lemma alloc_release:
  assumes "rep s own" "0 < n" "alloc n s = Some (a, s')" "a \<noteq> 0"
  shows "\<exists>s''. release a s' = Some s'' \<and> rep s'' own"
proof (cases rule: alloc_cases [OF assms(1-3)])
  case 2
  then have "(own(a \<mapsto> unat n))(a := None) = own" by (simp add: fun_upd_idem)
  then show ?thesis using release_block [OF 2(3), of a "unat n"] by auto
qed (use assms in simp)

lemma release_other:
  assumes "rep s own" "own a = Some n" "own b = Some m" "a \<noteq> b"
  shows "\<exists>s'. release a s = Some s' \<and> rep s' (own(a := None)) \<and> (own(a := None)) b = Some m"
  using release_block [OF assms(1,2)] assms(3,4) by auto

end

section \<open>The coremap as a pool of pages\<close>

definition pm_own :: "'a pmem_scheme \<Rightarrow> (u32 \<Rightarrow> nat option) \<Rightarrow> nat \<Rightarrow> nat option" where
  "pm_own s own = (\<lambda>k. if k < length (vm_coremap s) then own (kpage s k) else None)"

definition pm_rep :: "'a pmem_scheme \<Rightarrow> (u32 \<Rightarrow> nat option) \<Rightarrow> bool" where
  "pm_rep s own \<longleftrightarrow> cm_rep s (pm_own s own) \<and> dom own \<subseteq> kpage s ` {..<length (vm_coremap s)} \<and>
     vm_curpid s \<noteq> None"

definition pm_room :: "'a pmem_scheme \<Rightarrow> nat \<Rightarrow> bool" where
  "pm_room s n \<longleftrightarrow> (\<exists>k. free_run (vm_coremap s) k n)"

lemma pm_repD:
  assumes "pm_rep s own"
  shows "cm_wf s" "cm_rep s (pm_own s own)" "blocks_ok (vm_coremap s) (pm_own s own)" "vm_curpid s \<noteq> None"
    "\<And>a n. own a = Some n \<Longrightarrow> \<exists>k<length (vm_coremap s). a = kpage s k \<and> pm_own s own k = Some n"
  using assms by (auto simp: pm_rep_def cm_rep_def pm_own_def)

lemma pm_frameD:
  assumes "pm_frame s s'"
  shows "kpage s' = kpage s" "length (vm_coremap s') = length (vm_coremap s)" "vm_curpid s' = vm_curpid s"
    "vm_toppage_ptr s' = vm_toppage_ptr s" "vm_coremap_ptr s' = vm_coremap_ptr s"
    "pmem.more s' = pmem.more s"
  using assms by (auto simp: pm_frame_def kpage_def fun_eq_iff)

lemma pm_own_update:
  assumes "cm_wf s" "k < length (vm_coremap s)" "pm_frame s s'"
  shows "pm_own s' (own(kpage s k := v)) = (pm_own s own)(k := v)"
  using kpage_inj [OF assms(1) _ assms(2)] assms(2)
  by (auto simp: pm_own_def pm_frameD [OF assms(3)] fun_eq_iff)

lemma pm_rep_update:
  assumes "pm_rep s own" "k < length (vm_coremap s)" "pm_frame s s'" "cm_rep s' ((pm_own s own)(k := v))"
  shows "pm_rep s' (own(kpage s k := v))"
proof -
  have "pm_own s' (own(kpage s k := v)) = (pm_own s own)(k := v)"
    by (rule pm_own_update [OF pm_repD(1) [OF assms(1)] assms(2,3)])
  moreover have "dom (own(kpage s k := v)) \<subseteq> kpage s ` {..<length (vm_coremap s)}"
    using assms(1,2) by (auto simp: pm_rep_def)
  ultimately show ?thesis
    using assms(1,4) by (simp add: pm_rep_def pm_frameD [OF assms(3)])
qed

lemma kpage_nonzero: "cm_wf s \<Longrightarrow> k < length (vm_coremap s) \<Longrightarrow> kpage s k \<noteq> 0"
  using unat_kpage [of s k] by (metis add_is_0 unat_0 zero_neq_numeral power_not_zero)

lemma block_pages_unat:
  assumes "unat a + 4096 * n \<le> 2 ^ 32" "x \<in> block_pages a n"
  shows "unat a \<le> unat x \<and> unat x < unat a + 4096 * n \<and> 4096 dvd (unat x - unat a)"
proof -
  obtain j where j: "j < n" "x = a + word_of_nat (4096 * j)"
    using assms(2) by (auto simp: block_pages_def)
  then have "unat x = unat a + 4096 * j" using assms(1) by (simp only: j(2)) (rule unat_add_small, simp)
  then show ?thesis using j(1) by simp
qed

lemma block_pages_disjoint:
  assumes "unat a + 4096 * n \<le> unat b" "unat b + 4096 * m \<le> 2 ^ 32"
  shows "block_pages a n \<inter> block_pages b m = {}"
proof -
  have "unat a + 4096 * n \<le> 2 ^ 32" using assms by simp
  then show ?thesis
    using block_pages_unat [of a n] block_pages_unat [OF assms(2)] assms(1)
    by (meson disjoint_iff linorder_not_le order_less_le_trans)
qed

lemma alloc_kpages_full:
  assumes "pm_rep s own" "0 < n" "\<not> pm_room s (unat n)"
  shows "alloc_kpages n s = Some (0, s\<lparr> vm_spl := (if n > vm_pageleft s then SPL_HIGH else vm_spl s) \<rparr>)"
  using getppages_full [OF pm_repD(1) [OF assms(1)] assms(2)] assms(3)
  by (simp add: alloc_kpages_def pm_room_def)

lemma pm_frame_spl: "pm_frame s (s\<lparr> vm_spl := i \<rparr>)"
  using pm_frameI [where c = "vm_coremap s" and s = s and l = "vm_pageleft s" and sp = i] by simp

lemma pm_frame_refl [simp]: "pm_frame s s"
  using pm_frame_spl [of s "vm_spl s"] by simp

lemma pm_rep_spl [simp]: "pm_rep (s\<lparr> vm_spl := i \<rparr>) own \<longleftrightarrow> pm_rep s own"
  by (simp add: pm_rep_def cm_rep_def cm_wf_def pm_own_def kpage_def cong: if_cong)

lemma alloc_kpages_room:
  assumes "pm_rep s own" "0 < n" "pm_room s (unat n)"
  shows "\<exists>k s'. alloc_kpages n s = Some (kpage s k, s') \<and> k + unat n \<le> length (vm_coremap s) \<and>
    own (kpage s k) = None \<and> pm_rep s' (own(kpage s k \<mapsto> unat n)) \<and> pm_frame s s' \<and>
    vm_spl s' = vm_spl s \<and> free_run (vm_coremap s) k (unat n) \<and>
    (\<forall>k'<k. \<not> free_run (vm_coremap s) k' (unat n))"
proof -
  define k where "k = (LEAST k. free_run (vm_coremap s) k (unat n))"
  have fr: "free_run (vm_coremap s) k (unat n)"
    using assms(3) unfolding k_def pm_room_def by (rule LeastI_ex)
  have least: "\<not> free_run (vm_coremap s) k' (unat n)" if "k' < k" for k'
    using that unfolding k_def by (rule not_less_Least)
  have wf: "cm_wf s" and ok: "blocks_ok (vm_coremap s) (pm_own s own)" by (rule pm_repD [OF assms(1)])+
  have "0 < unat n" using assms(2) by (simp add: word_less_nat_alt)
  then have len: "k + unat n \<le> length (vm_coremap s)" "k < length (vm_coremap s)"
    using fr by (auto simp: free_run_def)
  obtain pid where "vm_curpid s = Some pid" using pm_repD(4) [OF assms(1)] by auto
  from getppages_found [OF pm_repD(2) [OF assms(1)] assms(2) this fr least]
  obtain s' where s': "getppages n s = Some (vm_toppage_ptr s + 4096 * word_of_nat k, s')"
    "pm_frame s s'" "vm_spl s' = vm_spl s" "cm_rep s' ((pm_own s own)(k \<mapsto> unat n))" by blast
  have "unat (vm_toppage_ptr s + 4096 * word_of_nat k) = unat (vm_toppage_ptr s) + 4096 * k"
    using unat_page_addr(1) [where base = "vm_toppage_ptr s" and n = "length (vm_coremap s)" and k = k] wf len
    by (simp add: cm_wf_def)
  moreover have "vm_toppage_ptr s \<noteq> 0" using wf by (auto simp: cm_wf_def)
  then have "0 < unat (vm_toppage_ptr s)" by (simp add: unat_gt_0)
  ultimately have "vm_toppage_ptr s + 4096 * word_of_nat k \<noteq> 0" by (metis add_is_0 not_gr_zero unat_0)
  then have "alloc_kpages n s = Some (kpage s k, s')" using s'(1) by (simp add: alloc_kpages_def kpage_def)
  moreover have "own (kpage s k) = None"
  proof (rule ccontr)
    assume "own (kpage s k) \<noteq> None"
    then obtain m where m: "pm_own s own k = Some m" using len(2) by (auto simp: pm_own_def)
    have "cm_taken (vm_coremap s ! k)" using blocks_ok_D(4) [OF ok m, of k] blocks_ok_D(1) [OF ok m] by simp
    then show False using fr \<open>0 < unat n\<close> by (simp add: free_run_def)
  qed
  moreover have "pm_rep s' (own(kpage s k \<mapsto> unat n))" by (rule pm_rep_update [OF assms(1) len(2) s'(2,4)])
  ultimately show ?thesis using s' len fr least by blast
qed

lemma free_kpages_owned:
  assumes "pm_rep s own" "own a = Some n"
  shows "\<exists>s'. free_kpages a s = Some s' \<and> pm_rep s' (own(a := None)) \<and> pm_frame s s' \<and> vm_spl s' = vm_spl s"
proof -
  obtain k where k: "k < length (vm_coremap s)" "a = kpage s k" "pm_own s own k = Some n"
    using pm_repD(5) [OF assms] by blast
  from free_kpages_block [OF pm_repD(2) [OF assms(1)] k(3)] obtain s' where
    s': "free_kpages a s = Some s'" "pm_frame s s'" "vm_spl s' = vm_spl s"
    "cm_rep s' ((pm_own s own)(k := None))" unfolding k(2) by blast
  with pm_rep_update [OF assms(1) k(1) s'(2,4)] show ?thesis unfolding k(2) by blast
qed

lemma pm_block_bounds:
  assumes "pm_rep s own" "own a = Some n"
  shows "0 < n" "4096 dvd unat a" "2 ^ 31 \<le> unat a" "unat a + 4096 * n \<le> 0xa0000000"
proof -
  obtain k where k: "k < length (vm_coremap s)" "a = kpage s k" "pm_own s own k = Some n"
    using pm_repD(5) [OF assms] by blast
  note wf = pm_repD(1) [OF assms(1)] and ok = pm_repD(3) [OF assms(1)]
  have ua: "unat a = unat (vm_toppage_ptr s) + 4096 * k + 2 ^ 31" using unat_kpage [OF wf k(1)] k(2) by simp
  have kn: "k + n \<le> length (vm_coremap s)" "0 < n" using blocks_ok_D [OF ok k(3)] by auto
  then show "0 < n" "4096 dvd unat a" "2 ^ 31 \<le> unat a" "unat a + 4096 * n \<le> 0xa0000000"
    using wf unfolding ua cm_wf_def by auto
qed

lemma pm_blocks_apart:
  assumes "pm_rep s own" "own a = Some n" "own b = Some m" "a \<noteq> b"
  shows "unat a + 4096 * n \<le> unat b \<or> unat b + 4096 * m \<le> unat a"
proof -
  obtain k where k: "k < length (vm_coremap s)" "a = kpage s k" "pm_own s own k = Some n"
    using pm_repD(5) [OF assms(1,2)] by blast
  obtain j where j: "j < length (vm_coremap s)" "b = kpage s j" "pm_own s own j = Some m"
    using pm_repD(5) [OF assms(1,3)] by blast
  note wf = pm_repD(1) [OF assms(1)] and ok = pm_repD(3) [OF assms(1)]
  have u: "unat a = unat (vm_toppage_ptr s) + 4096 * k + 2 ^ 31" "unat b = unat (vm_toppage_ptr s) + 4096 * j + 2 ^ 31"
    using unat_kpage [OF wf k(1)] unat_kpage [OF wf j(1)] k(2) j(2) by simp_all
  have "j \<noteq> k" using assms(4) k(2) j(2) by auto
  then have "k + n \<le> j \<or> j + m \<le> k"
    using blocks_ok_disjoint [OF ok k(3) j(3)] blocks_ok_D(1) [OF ok k(3)] blocks_ok_D(1) [OF ok j(3)]
    by (metis atLeastLessThan_iff disjoint_iff le_add1 less_add_same_cancel1 linorder_not_le nle_le)
  then show ?thesis unfolding u by auto
qed

interpretation kpages: page_pool pm_rep alloc_kpages free_kpages pm_room pm_frame
proof
  fix s :: "'a pmem_scheme" and own and np :: u32
  assume rep: "pm_rep s own" and n: "0 < np"
  show "\<exists>a s'. alloc_kpages np s = Some (a, s') \<and> a \<noteq> 0 \<and> own a = None \<and>
      pm_rep s' (own(a \<mapsto> unat np)) \<and> pm_frame s s'" if "pm_room s (unat np)"
  proof -
    from alloc_kpages_room [OF rep n that] obtain k s' where r:
      "alloc_kpages np s = Some (kpage s k, s')" "k + unat np \<le> length (vm_coremap s)"
      "own (kpage s k) = None" "pm_rep s' (own(kpage s k \<mapsto> unat np))" "pm_frame s s'" by blast
    have "0 < unat np" using n by (simp add: word_less_nat_alt)
    then have "kpage s k \<noteq> 0" using kpage_nonzero [OF pm_repD(1) [OF rep], of k] r(2) by simp
    with r show ?thesis by blast
  qed
  show "\<exists>s'. alloc_kpages np s = Some (0, s') \<and> pm_rep s' own \<and> pm_frame s s'" if "\<not> pm_room s (unat np)"
    using alloc_kpages_full [OF rep n that] pm_frame_spl rep by fastforce
next
  fix s :: "'a pmem_scheme" and own a n
  assume rep: "pm_rep s own" and own: "own a = Some n"
  show "\<exists>s'. free_kpages a s = Some s' \<and> pm_rep s' (own(a := None)) \<and> pm_frame s s'"
    using free_kpages_owned [OF rep own] by blast
  note B = pm_block_bounds [OF rep own]
  then show "0 < n \<and> 4096 dvd unat a \<and> 2 ^ 31 \<le> unat a \<and> unat a + 4096 * n \<le> 0xa0000000" by simp
  fix b m
  assume own': "own b = Some m" and ne: "a \<noteq> b"
  note B' = pm_block_bounds [OF rep own']
  from pm_blocks_apart [OF rep own own' ne] show "block_pages a n \<inter> block_pages b m = {}"
  proof
    assume "unat a + 4096 * n \<le> unat b"
    then show ?thesis using B' by (intro block_pages_disjoint) auto
  next
    assume "unat b + 4096 * m \<le> unat a"
    then have "block_pages b m \<inter> block_pages a n = {}" using B by (intro block_pages_disjoint) auto
    then show ?thesis by blast
  qed
qed

section \<open>Sequences of calls\<close>

text \<open>
  The kernel's use of the page allocator: blocks of at least one page are asked for, and
  only addresses that were handed out and not yet given back are freed.
\<close>

inductive page_trace ::
  "'a pmem_scheme \<Rightarrow> (u32 \<Rightarrow> nat option) \<Rightarrow> 'a pmem_scheme \<Rightarrow> (u32 \<Rightarrow> nat option) \<Rightarrow> bool" where
  start: "page_trace s own s own"
| got: "page_trace s own s1 own1 \<Longrightarrow> 0 < n \<Longrightarrow> alloc_kpages n s1 = Some (a, s2) \<Longrightarrow> a \<noteq> 0 \<Longrightarrow>
    page_trace s own s2 (own1(a \<mapsto> unat n))"
| nomem: "page_trace s own s1 own1 \<Longrightarrow> 0 < n \<Longrightarrow> alloc_kpages n s1 = Some (0, s2) \<Longrightarrow>
    page_trace s own s2 own1"
| freed: "page_trace s own s1 own1 \<Longrightarrow> own1 a \<noteq> None \<Longrightarrow> free_kpages a s1 = Some s2 \<Longrightarrow>
    page_trace s own s2 (own1(a := None))"

lemma page_trace_rep:
  "page_trace s own s' own' \<Longrightarrow> pm_rep s own \<Longrightarrow> pm_rep s' own' \<and> length (vm_coremap s') = length (vm_coremap s)"
proof (induction rule: page_trace.induct)
  case (got s own s1 own1 n a s2)
  then have rep: "pm_rep s1 own1" by simp
  show ?case
  proof (cases rule: kpages.alloc_cases [OF rep got.hyps(2,3)])
    case 2
    from this(3) pm_frameD(2) [OF this(5)] got.IH [OF got.prems] show ?thesis by metis
  qed (use got.hyps in simp)
next
  case (nomem s own s1 own1 n s2)
  then have rep: "pm_rep s1 own1" by simp
  show ?case
  proof (cases rule: kpages.alloc_cases [OF rep nomem.hyps(2,3)])
    case 1
    from this(2) pm_frameD(2) [OF this(4)] nomem.IH [OF nomem.prems] show ?thesis by metis
  qed (use nomem.hyps in simp)
next
  case (freed s own s1 own1 a s2)
  then obtain n where n: "own1 a = Some n" by auto
  have "pm_rep s1 own1" using freed by simp
  from kpages.release_block [OF this n] freed.hyps(3) freed.IH [OF freed.prems] pm_frameD(2) [of s1 s2]
  show ?case by (metis option.inject)
qed simp

lemma free_and_owned:
  assumes "pm_rep s own"
  shows "unat (vm_pageleft s) + (\<Sum>a\<in>dom own. the (own a)) = length (vm_coremap s)"
proof -
  let ?c = "vm_coremap s" and ?own = "pm_own s own"
  note wf = pm_repD(1) [OF assms] and ok = pm_repD(3) [OF assms]
  have lt: "k < length ?c" if "?own k = Some n" for k n using that by (auto simp: pm_own_def split: if_splits)
  then have fin: "finite (dom ?own)" by (intro finite_subset [of "dom ?own" "{..<length ?c}"]) auto
  have inj: "inj_on (kpage s) (dom ?own)"
    using kpage_inj [OF wf] lt by (auto simp: inj_on_def)
  have own_k: "own (kpage s k) = ?own k" if "k \<in> dom ?own" for k
    using that by (auto simp: pm_own_def split: if_splits)
  have "dom own = kpage s ` dom ?own"
  proof
    show "dom own \<subseteq> kpage s ` dom ?own" using pm_repD(5) [OF assms] by blast
    show "kpage s ` dom ?own \<subseteq> dom own" using own_k by (auto simp: dom_def)
  qed
  then have sum: "(\<Sum>a\<in>dom own. the (own a)) = (\<Sum>k\<in>dom ?own. the (?own k))"
    by (simp add: sum.reindex [OF inj] own_k)
  let ?B = "\<lambda>k. {k..<k + the (?own k)}"
  have "{i. i < length ?c \<and> cm_taken (?c ! i)} = (\<Union>k\<in>dom ?own. ?B k)"
  proof (rule set_eqI)
    fix i
    show "i \<in> {i. i < length ?c \<and> cm_taken (?c ! i)} \<longleftrightarrow> i \<in> (\<Union>k\<in>dom ?own. ?B k)"
    proof (cases "i < length ?c")
      case True
      then have "cm_taken (?c ! i) \<longleftrightarrow> (\<exists>k n. ?own k = Some n \<and> k \<le> i \<and> i < k + n)"
        using ok by (simp add: blocks_ok_def)
      with True show ?thesis by (auto simp: dom_def)
    next
      case False
      have "\<not> i < k + n" if "?own k = Some n" for k n using blocks_ok_D(2) [OF ok that] False by simp
      with False show ?thesis by (auto simp: dom_def)
    qed
  qed
  moreover have "card (\<Union>k\<in>dom ?own. ?B k) = (\<Sum>k\<in>dom ?own. card (?B k))"
  proof (rule card_UN_disjoint [OF fin])
    show "\<forall>k\<in>dom ?own. \<forall>j\<in>dom ?own. k \<noteq> j \<longrightarrow> ?B k \<inter> ?B j = {}"
    proof (intro ballI impI)
      fix k j
      assume "k \<in> dom ?own" "j \<in> dom ?own" "k \<noteq> j"
      then show "?B k \<inter> ?B j = {}"
        using blocks_ok_disjoint [OF ok, of k "the (?own k)" j "the (?own j)"] by (simp add: dom_def)
    qed
  qed simp
  ultimately have taken: "card {i. i < length ?c \<and> cm_taken (?c ! i)} = (\<Sum>k\<in>dom ?own. the (?own k))"
    by simp
  have "card ({..<length ?c} - free_pages ?c) = length ?c - card (free_pages ?c)"
    by (subst card_Diff_subset) (auto simp: free_pages_def)
  moreover have "{i. i < length ?c \<and> cm_taken (?c ! i)} = {..<length ?c} - free_pages ?c"
    by (auto simp: free_pages_def)
  moreover have "card (free_pages ?c) \<le> length ?c"
    using card_mono [of "{..<length ?c}" "free_pages ?c"] by (auto simp: free_pages_def)
  ultimately show ?thesis using wf taken sum by (simp add: cm_wf_def)
qed

section \<open>Bootstrap\<close>

lemma unat_page_frame: "unat (w AND PAGE_FRAME) = unat w div 4096 * 4096"
proof -
  have "PAGE_FRAME = NOT (mask 12)" by (simp add: PAGE_FRAME_def mask_eq_exp_minus_1)
  then have "w AND PAGE_FRAME = w AND NOT (mask 12)" by (rule arg_cong)
  also have "\<dots> = push_bit 12 (drop_bit 12 w)" by (rule bit_word_eqI) (auto simp: bit_simps)
  finally have "w AND PAGE_FRAME = push_bit 12 (drop_bit 12 w)" .
  moreover have "unat (drop_bit 12 w) = unat w div 4096"
    by (simp add: drop_bit_eq_div unat_div)
  moreover have "unat w div 4096 * 4096 < 2 ^ 32"
    using unat_less_2p32 [of w] by (metis div_times_less_eq_dividend order_le_less_trans)
  ultimately show ?thesis
    by (simp add: push_bit_eq_mult unat_word_ariths)
qed

text \<open>The first page the coremap manages, and the end of the last one, for page-aligned memory.\<close>

lemma vm_bootstrap_layout:
  assumes "ram_firstpaddr s = lo" "ram_lastpaddr s = hi" "4096 dvd unat lo" "4096 dvd unat hi" "lo < hi"
    "hi \<le> 508 * 1024 * 1024"
  defines "N \<equiv> (unat hi - unat lo) div 4096"
  shows "0 < N" "unat hi = unat lo + 4096 * N"
    "unat (vm_pagenumber (vm_bootstrap ram s)) = N - 1"
    "unat (vm_toppage_ptr (vm_bootstrap ram s)) = unat lo + 4096 * (20 * N div 4096 + 1)"
proof -
  have lt: "unat lo < unat hi" and le: "unat hi \<le> 508 * 1024 * 1024"
    using assms(5,6) by (simp_all add: word_less_nat_alt word_le_nat_alt)
  obtain a b where ab: "unat lo = 4096 * a" "unat hi = 4096 * b" using assms(3,4) unfolding dvd_def by blast
  have N: "N = b - a" "a < b" using lt by (simp_all add: N_def ab diff_mult_distrib2 [symmetric])
  then show N0: "0 < N" and hi: "unat hi = unat lo + 4096 * N" by (simp_all add: ab)
  have "unat ((hi - lo) div PAGE_SIZE) = N"
    using assms(5) by (simp add: unat_div unat_sub PAGE_SIZE_def N_def order_less_imp_le)
  then have pn: "(hi - lo) div PAGE_SIZE = word_of_nat N" by (metis word_of_nat_of_unat)
  have N32: "N < 2 ^ 17" using hi le by simp
  have one: "(word_of_nat N - 1 :: u32) = word_of_nat (N - 1)" using N0 by simp
  then show "unat (vm_pagenumber (vm_bootstrap ram s)) = N - 1"
    using N32 by (simp add: vm_bootstrap_def ram_getsize_def Let_def assms(1,2) pn unat_of_nat_small)
  have sum: "lo + (word_of_nat N - 1) * 20 + 20 = lo + word_of_nat (20 * N)" by (simp add: algebra_simps)
  have "unat (lo + word_of_nat (20 * N)) = 4096 * a + 20 * N"
    using le hi N32 ab(1) by (subst unat_add_small) simp_all
  then have "unat ((lo + word_of_nat (20 * N)) AND PAGE_FRAME) = 4096 * (a + 20 * N div 4096)"
    by (simp add: unat_page_frame)
  moreover from this have "unat (((lo + word_of_nat (20 * N)) AND PAGE_FRAME) + word_of_nat 0x1000) =
      4096 * (a + 20 * N div 4096) + 0x1000"
    using le hi N32 ab(1) by (subst unat_add_small) simp_all
  ultimately show "unat (vm_toppage_ptr (vm_bootstrap ram s)) = unat lo + 4096 * (20 * N div 4096 + 1)"
    by (simp add: vm_bootstrap_def ram_getsize_def Let_def assms(1,2) pn sum ab(1) mult.commute [of _ 20])
qed

lemma vm_bootstrap_rep:
  assumes "ram_firstpaddr s = lo" "ram_lastpaddr s = hi" "4096 dvd unat lo" "4096 dvd unat hi" "lo < hi"
    "hi \<le> 508 * 1024 * 1024" "vm_curpid s \<noteq> None"
  shows "pm_rep (vm_bootstrap ram s) Map.empty"
proof -
  let ?s = "vm_bootstrap ram s" and ?N = "(unat hi - unat lo) div 4096"
  note L = vm_bootstrap_layout(1,2) [OF assms(1-6)] vm_bootstrap_layout(3,4) [OF assms(1-6), where ram = ram]
  have hi: "unat hi \<le> 508 * 1024 * 1024" using assms(6) by (simp add: word_le_nat_alt)
  have len: "length (vm_coremap ?s) = unat (vm_pagenumber ?s)"
    by (simp add: vm_bootstrap_def ram_getsize_def Let_def)
  have "unat (vm_toppage_ptr ?s) + 4096 * length (vm_coremap ?s) \<le> 2 ^ 29"
    using L(1,2) hi unfolding len L(3,4) by (simp add: algebra_simps diff_mult_distrib2)
  moreover have "4096 dvd unat (vm_toppage_ptr ?s)" unfolding L(4) using assms(3) by simp
  moreover have "vm_coremap_ptr ?s - 0x80000000 = lo"
    by (simp add: vm_bootstrap_def ram_getsize_def Let_def PADDR_TO_KVADDR_def MIPS_KSEG0_def assms(1))
  then have "vm_coremap_ptr ?s - 0x80000000 < vm_toppage_ptr ?s"
    by (simp only: word_less_nat_alt L(4)) simp
  moreover have free: "\<not> cm_taken (vm_coremap ?s ! i)" if "i < length (vm_coremap ?s)" for i
    using that by (simp add: vm_bootstrap_def ram_getsize_def Let_def)
  then have "free_pages (vm_coremap ?s) = {..<length (vm_coremap ?s)}" by (auto simp: free_pages_def)
  moreover have "vm_pageleft ?s = vm_pagenumber ?s" "vm_indicator ?s" "vm_curpid ?s = vm_curpid s"
    by (simp_all add: vm_bootstrap_def ram_getsize_def Let_def)
  moreover have "cm_phyaddr (vm_coremap ?s ! i) = vm_toppage_ptr ?s + 4096 * word_of_nat i"
    if "i < length (vm_coremap ?s)" for i
    using that by (simp add: vm_bootstrap_def ram_getsize_def Let_def)
  ultimately have "cm_wf ?s" using len unfolding cm_wf_def by simp
  moreover have "blocks_ok (vm_coremap ?s) (pm_own ?s Map.empty)"
    using free by (simp add: blocks_ok_def pm_own_def cong: if_cong)
  ultimately show ?thesis
    using assms(7) \<open>vm_curpid ?s = vm_curpid s\<close> by (simp add: pm_rep_def cm_rep_def)
qed

section \<open>Properties\<close>

text \<open>
  C12. The page allocator, in any sequence of \<^verbatim>\<open>alloc_kpages\<close> and \<^verbatim>\<open>free_kpages\<close> calls from boot on
  in which only blocks that are out are freed: two blocks that are out share no page, every
  block lies page-aligned in the directly mapped segment, the number of pages left plus the pages
  that are out is the number of pages managed, and the next call never fails an assertion or
  runs off the coremap.
\<close>

theorem page_blocks_disjoint:
  assumes "ram_firstpaddr s0 = lo" "ram_lastpaddr s0 = hi" "4096 dvd unat lo" "4096 dvd unat hi" "lo < hi"
    "hi \<le> 508 * 1024 * 1024" "vm_curpid s0 \<noteq> None"
    "page_trace (vm_bootstrap ram s0) Map.empty s own"
  shows "(\<forall>a n b m. own a = Some n \<and> own b = Some m \<and> a \<noteq> b \<longrightarrow> block_pages a n \<inter> block_pages b m = {}) \<and>
    (\<forall>a n. own a = Some n \<longrightarrow> 0 < n \<and> 4096 dvd unat a \<and> 0x80000000 \<le> unat a \<and> unat a + 4096 * n \<le> 0xa0000000) \<and>
    unat (vm_pageleft s) + (\<Sum>a\<in>dom own. the (own a)) = unat (vm_pagenumber (vm_bootstrap ram s0)) \<and>
    (\<forall>n. 0 < n \<longrightarrow> alloc_kpages n s \<noteq> None) \<and> (\<forall>a. own a \<noteq> None \<longrightarrow> free_kpages a s \<noteq> None)"
proof -
  have boot: "pm_rep (vm_bootstrap ram s0) Map.empty" by (rule vm_bootstrap_rep [OF assms(1-7)])
  from page_trace_rep [OF assms(8) boot] have rep: "pm_rep s own"
    and len: "length (vm_coremap s) = length (vm_coremap (vm_bootstrap ram s0))" by simp_all
  have "\<forall>a n b m. own a = Some n \<and> own b = Some m \<and> a \<noteq> b \<longrightarrow> block_pages a n \<inter> block_pages b m = {}"
    using kpages.blocks_apart [OF rep] by blast
  moreover have "\<forall>a n. own a = Some n \<longrightarrow>
      0 < n \<and> 4096 dvd unat a \<and> 0x80000000 \<le> unat a \<and> unat a + 4096 * n \<le> 0xa0000000"
    using kpages.block_bounds [OF rep] by simp
  moreover have "unat (vm_pageleft s) + (\<Sum>a\<in>dom own. the (own a)) = unat (vm_pagenumber (vm_bootstrap ram s0))"
    using free_and_owned [OF rep] len pm_repD(1) [OF boot] by (simp add: cm_wf_def)
  moreover have "\<forall>n. 0 < n \<longrightarrow> alloc_kpages n s \<noteq> None" using kpages.alloc_returns [OF rep] by blast
  moreover have "\<forall>a. own a \<noteq> None \<longrightarrow> free_kpages a s \<noteq> None" using kpages.release_block [OF rep] by fastforce
  ultimately show ?thesis by blast
qed

text \<open>A machine with five free pages, of which the coremap manages four.\<close>

definition small_ram :: pmem where
  "small_ram = \<lparr> ram_firstpaddr = 0x40000, ram_lastpaddr = 0x45000, vm_toppage_ptr = 0,
     vm_indicator = False, vm_pagenumber = 0, vm_pageleft = 0, vm_coremap_ptr = 0, vm_coremap = [],
     vm_spl = 0, vm_curpid = Some 0 \<rparr>"

definition blank_entry :: coremap_entry where
  "blank_entry = \<lparr> cm_pid = 0, cm_viraddr = 0, cm_phyaddr = 0, cm_taken = True, cm_npage = 7 \<rparr>"

definition small_boot :: pmem where
  "small_boot = vm_bootstrap (\<lambda>_. blank_entry) small_ram"

lemma small_boot_layout:
  "ram_firstpaddr small_ram = 0x40000" "ram_lastpaddr small_ram = 0x45000"
  "4096 dvd unat (0x40000 :: u32)" "4096 dvd unat (0x45000 :: u32)" "(0x40000 :: u32) < 0x45000"
  "(0x45000 :: u32) \<le> 508 * 1024 * 1024" "vm_curpid small_ram \<noteq> None"
  by (simp_all add: small_ram_def)

lemma small_boot_rep: "pm_rep small_boot Map.empty"
  unfolding small_boot_def by (rule vm_bootstrap_rep [OF small_boot_layout])

theorem page_blocks_disjoint_witness:
  "\<exists>a s1. alloc_kpages 2 small_boot = Some (a, s1) \<and> a = 0x80041000 \<and>
     unat (vm_pageleft s1) + 2 = 4 \<and> free_kpages a s1 \<noteq> None"
proof -
  have a: "map_option fst (alloc_kpages 2 small_boot) = Some 0x80041000" by code_simp
  then obtain s1 where s1: "alloc_kpages 2 small_boot = Some (0x80041000, s1)" by auto
  have "page_trace small_boot Map.empty s1 (Map.empty(0x80041000 \<mapsto> unat (2 :: u32)))"
    by (rule page_trace.got [OF page_trace.start _ s1]) simp_all
  from page_blocks_disjoint [OF small_boot_layout, of "\<lambda>_. blank_entry", folded small_boot_def, OF this]
  have "unat (vm_pageleft s1) + 2 = unat (vm_pagenumber small_boot)" "free_kpages 0x80041000 s1 \<noteq> None"
    by simp_all
  moreover have "unat (vm_pagenumber small_boot) = 4" by code_simp
  ultimately show ?thesis using s1 by auto
qed

text \<open>A successful call takes the first run that is long enough.\<close>

lemma alloc_kpages_takes:
  assumes "pm_rep s own" "0 < n" "pm_room s (unat n)"
  shows "\<exists>k s'. alloc_kpages n s = Some (kpage s k, s') \<and> free_run (vm_coremap s) k (unat n) \<and>
    (\<forall>k'<k. \<not> free_run (vm_coremap s) k' (unat n)) \<and>
    free_pages (vm_coremap s') = free_pages (vm_coremap s) - {k..<k + unat n} \<and>
    pm_rep s' (own(kpage s k \<mapsto> unat n)) \<and> vm_spl s' = vm_spl s \<and> pm_frame s s'"
proof -
  from alloc_kpages_room [OF assms] obtain k s' where r: "alloc_kpages n s = Some (kpage s k, s')"
    "k + unat n \<le> length (vm_coremap s)" "pm_rep s' (own(kpage s k \<mapsto> unat n))" "pm_frame s s'"
    "vm_spl s' = vm_spl s" "free_run (vm_coremap s) k (unat n)" "\<forall>k'<k. \<not> free_run (vm_coremap s) k' (unat n)"
    "own (kpage s k) = None" by blast
  have wf: "cm_wf s" and n0: "0 < unat n"
    using pm_repD(1) [OF assms(1)] assms(2) by (simp_all add: word_less_nat_alt)
  have own': "pm_own s' (own(kpage s k \<mapsto> unat n)) = (pm_own s own)(k \<mapsto> unat n)"
    using r(2) n0 by (intro pm_own_update [OF wf _ r(4)]) simp
  have own_k: "pm_own s own k = None" using r(8) by (simp add: pm_own_def)
  have "free_pages (vm_coremap s') = free_pages (vm_coremap s) - {k..<k + unat n}"
  proof (rule set_eqI)
    fix i :: nat
    let ?O = "\<lambda>own. \<exists>j m. own j = Some m \<and> j \<le> i \<and> i < j + m"
    have "?O ((pm_own s own)(k \<mapsto> unat n)) \<longleftrightarrow> i \<in> {k..<k + unat n} \<or> ?O (pm_own s own)"
    proof
      assume "?O ((pm_own s own)(k \<mapsto> unat n))"
      then show "i \<in> {k..<k + unat n} \<or> ?O (pm_own s own)" by (auto split: if_splits)
    next
      have "j \<noteq> k" if "pm_own s own j = Some m" for j m using that own_k by auto
      then show "?O ((pm_own s own)(k \<mapsto> unat n))" if "i \<in> {k..<k + unat n} \<or> ?O (pm_own s own)"
        using that by (metis atLeastLessThan_iff fun_upd_apply)
    qed
    moreover have "cm_taken (vm_coremap s' ! i) \<longleftrightarrow> ?O ((pm_own s own)(k \<mapsto> unat n))"
      "cm_taken (vm_coremap s ! i) \<longleftrightarrow> ?O (pm_own s own)" if "i < length (vm_coremap s)"
      using pm_repD(3) [OF r(3)] pm_repD(3) [OF assms(1)] that pm_frameD(2) [OF r(4)]
      unfolding own' blocks_ok_def by simp_all
    ultimately show "i \<in> free_pages (vm_coremap s') \<longleftrightarrow> i \<in> free_pages (vm_coremap s) - {k..<k + unat n}"
      unfolding free_pages_def using pm_frameD(2) [OF r(4)] by auto
  qed
  then show ?thesis using r by blast
qed

lemma free_run_subset: "0 < n \<Longrightarrow> free_run c k n \<longleftrightarrow> {k..<k + n} \<subseteq> free_pages c"
  by (auto simp: free_run_def free_pages_def subset_iff Suc_le_eq intro: ccontr dest: spec [of _ "k + n - 1"])

text \<open>An allocation eats at most its own length from a run of free pages.\<close>

lemma alloc_room_left:
  assumes "pm_rep s own" "0 < n" "pm_room s N" "unat n \<le> N" "alloc_kpages n s = Some (a, s')"
  shows "pm_room s' (N - unat n)"
proof (cases "N = unat n")
  case True
  then show ?thesis by (auto simp: pm_room_def free_run_def)
next
  case False
  then have lt: "unat n < N" using assms(4) by simp
  have n0: "0 < unat n" using assms(2) by (simp add: word_less_nat_alt)
  obtain r where r: "free_run (vm_coremap s) r N" using assms(3) by (auto simp: pm_room_def)
  have "free_run (vm_coremap s) r (unat n)" using r lt by (auto simp: free_run_def)
  then have "pm_room s (unat n)" by (auto simp: pm_room_def)
  from alloc_kpages_takes [OF assms(1,2) this] assms(5) obtain k where
    k: "free_run (vm_coremap s) k (unat n)" "\<forall>k'<k. \<not> free_run (vm_coremap s) k' (unat n)"
      "free_pages (vm_coremap s') = free_pages (vm_coremap s) - {k..<k + unat n}" by auto
  have "k \<le> r" using k(2) \<open>free_run (vm_coremap s) r (unat n)\<close> by (meson leI)
  then have "{r + unat n..<r + unat n + (N - unat n)} \<inter> {k..<k + unat n} = {}" using lt by auto
  moreover have "{r + unat n..<r + unat n + (N - unat n)} \<subseteq> free_pages (vm_coremap s)"
    using r free_run_subset [of N "vm_coremap s" r] n0 lt by auto
  ultimately have "{r + unat n..<r + unat n + (N - unat n)} \<subseteq> free_pages (vm_coremap s')" unfolding k(3) by blast
  then have "free_run (vm_coremap s') (r + unat n) (N - unat n)" using lt by (subst free_run_subset) simp_all
  then show ?thesis by (auto simp: pm_room_def)
qed

text \<open>
  C13. \<^verbatim>\<open>alloc_kpages\<close> is first-fit and complete: it fails exactly when no \<open>n\<close> consecutive
  pages are free, and otherwise hands out the first such run, marks exactly those pages and
  keeps the interrupt level. On failure no page changes hands; but when fewer than \<open>n\<close> pages
  are left in all, it returns with interrupts still off.
\<close>

theorem alloc_kpages_first_fit:
  assumes "pm_rep s own" "0 < n"
  shows "if \<exists>k. free_run (vm_coremap s) k (unat n)
    then \<exists>k s'. alloc_kpages n s = Some (kpage s k, s') \<and> free_run (vm_coremap s) k (unat n) \<and>
           (\<forall>k'<k. \<not> free_run (vm_coremap s) k' (unat n)) \<and>
           free_pages (vm_coremap s') = free_pages (vm_coremap s) - {k..<k + unat n} \<and>
           pm_rep s' (own(kpage s k \<mapsto> unat n)) \<and> vm_spl s' = vm_spl s
    else alloc_kpages n s = Some (0, s\<lparr> vm_spl := (if n > vm_pageleft s then SPL_HIGH else vm_spl s) \<rparr>)"
proof (cases "pm_room s (unat n)")
  case False
  then show ?thesis using alloc_kpages_full [OF assms False] by (simp add: pm_room_def)
next
  case True
  from alloc_kpages_takes [OF assms this] show ?thesis using True unfolding pm_room_def by auto
qed

theorem alloc_kpages_first_fit_witness:
  "\<exists>s'. alloc_kpages 5 small_boot = Some (0, s') \<and> vm_spl s' = SPL_HIGH \<and> vm_spl small_boot = 0"
proof -
  have "vm_spl small_boot = 0" "vm_pageleft small_boot = 4" "length (vm_coremap small_boot) = 4" by code_simp+
  moreover from this have "\<not> (\<exists>k. free_run (vm_coremap small_boot) k (unat (5 :: u32)))"
    by (simp add: free_run_def)
  ultimately show ?thesis using alloc_kpages_first_fit [OF small_boot_rep, of 5] by simp
qed

text \<open>
  C14. \<^verbatim>\<open>free_kpages\<close> undoes \<^verbatim>\<open>alloc_kpages\<close>: after freeing the block just allocated, the same
  pages are free as before, the count of pages left and the interrupt level are what they
  were, and the same blocks are out.
\<close>

theorem alloc_free_roundtrip:
  assumes "pm_rep s own" "0 < n" "alloc_kpages n s = Some (a, s1)" "a \<noteq> 0"
  shows "\<exists>s2. free_kpages a s1 = Some s2 \<and> pm_rep s2 own \<and> free_pages (vm_coremap s2) = free_pages (vm_coremap s) \<and>
    vm_pageleft s2 = vm_pageleft s \<and> vm_spl s2 = vm_spl s"
proof (cases rule: kpages.alloc_cases [OF assms(1-3)])
  case 2
  from alloc_kpages_room [OF assms(1,2) 2(4)] assms(3) have spl1: "vm_spl s1 = vm_spl s" by auto
  from free_kpages_owned [OF 2(3), of a "unat n"] obtain s2 where
    s2: "free_kpages a s1 = Some s2" "pm_rep s2 ((own(a \<mapsto> unat n))(a := None))" "pm_frame s1 s2"
      "vm_spl s2 = vm_spl s1" by auto
  have own: "(own(a \<mapsto> unat n))(a := None) = own" using 2(2) by (simp add: fun_upd_idem)
  have len: "length (vm_coremap s2) = length (vm_coremap s)" "kpage s2 = kpage s"
    using pm_frameD [OF 2(5)] pm_frameD [OF s2(3)] by simp_all
  have o: "pm_own s2 own = pm_own s own" by (simp only: pm_own_def len)
  have rep2: "pm_rep s2 own" using s2(2) own by simp
  have fp: "free_pages (vm_coremap s2) = free_pages (vm_coremap s)"
  proof (rule free_pages_cong [OF len(1)])
    show "cm_taken (vm_coremap s2 ! i) = cm_taken (vm_coremap s ! i)" if "i < length (vm_coremap s)" for i
      using pm_repD(3) [OF rep2] pm_repD(3) [OF assms(1)] that len(1)
      unfolding o blocks_ok_def by simp
  qed
  then have "unat (vm_pageleft s2) = unat (vm_pageleft s)"
    using pm_repD(1) [OF rep2] pm_repD(1) [OF assms(1)] by (simp add: cm_wf_def)
  then have "vm_pageleft s2 = vm_pageleft s" by (metis word_of_nat_of_unat)
  then show ?thesis using s2(1,4) rep2 fp spl1 by simp
qed (use assms in simp)

theorem alloc_free_roundtrip_witness:
  "\<exists>a s1 s2. alloc_kpages 3 small_boot = Some (a, s1) \<and> a \<noteq> 0 \<and> free_kpages a s1 = Some s2 \<and>
     vm_pageleft s2 = vm_pageleft small_boot"
proof -
  have "map_option fst (alloc_kpages 3 small_boot) = Some 0x80041000" by code_simp
  then obtain s1 where s1: "alloc_kpages 3 small_boot = Some (0x80041000, s1)" by auto
  from alloc_free_roundtrip [OF small_boot_rep _ s1] obtain s2 where
    "free_kpages 0x80041000 s1 = Some s2" "vm_pageleft s2 = vm_pageleft small_boot" by auto
  with s1 show ?thesis by (intro exI [of _ "0x80041000"] exI [of _ s1] exI [of _ s2]) simp
qed

text \<open>
  C15. The memory the coremap manages. With \<open>N\<close> free pages of RAM at boot it manages \<open>N - 1\<close>
  pages; all of them lie inside RAM exactly when the coremap itself fits in one page, that is
  for \<open>N < 205\<close> (20-byte entries). On a machine with more memory the last pages handed out
  lie beyond the end of RAM.
\<close>

theorem coremap_within_ram:
  assumes "ram_firstpaddr s = lo" "ram_lastpaddr s = hi" "4096 dvd unat lo" "4096 dvd unat hi" "lo < hi"
    "hi \<le> 508 * 1024 * 1024"
  shows "let N = (unat hi - unat lo) div 4096; s' = vm_bootstrap ram s in
    length (vm_coremap s') = N - 1 \<and> unat lo + 20 * N \<le> unat (vm_toppage_ptr s') \<and>
    (unat (vm_toppage_ptr s') + 4096 * length (vm_coremap s') \<le> unat hi \<longleftrightarrow> N < 205)"
proof -
  let ?N = "(unat hi - unat lo) div 4096" and ?s = "vm_bootstrap ram s"
  note L = vm_bootstrap_layout(1,2) [OF assms] vm_bootstrap_layout(3,4) [OF assms, where ram = ram]
  have len: "length (vm_coremap ?s) = ?N - 1"
    unfolding L(3) [symmetric] by (simp add: vm_bootstrap_def ram_getsize_def Let_def)
  have "unat (vm_toppage_ptr ?s) + 4096 * length (vm_coremap ?s) = unat hi + 4096 * (20 * ?N div 4096)"
    unfolding L(4) len using L(1,2) by (simp add: algebra_simps diff_mult_distrib2)
  then have "unat (vm_toppage_ptr ?s) + 4096 * length (vm_coremap ?s) \<le> unat hi \<longleftrightarrow> 20 * ?N div 4096 = 0" by simp
  also have "\<dots> \<longleftrightarrow> 20 * ?N < 4096" by (simp add: div_eq_0_iff)
  also have "\<dots> \<longleftrightarrow> ?N < 205" by linarith
  finally have "unat (vm_toppage_ptr ?s) + 4096 * length (vm_coremap ?s) \<le> unat hi \<longleftrightarrow> ?N < 205" .
  moreover have "20 * ?N \<le> 4096 * (20 * ?N div 4096 + 1)"
    using dividend_less_div_times [of 4096 "20 * ?N"] by simp
  then have "unat lo + 20 * ?N \<le> unat (vm_toppage_ptr ?s)" unfolding L(4) by simp
  ultimately show ?thesis unfolding Let_def using len by blast
qed

theorem coremap_within_ram_witness:
  "\<exists>s :: pmem. ram_lastpaddr s = 0x200000 \<and>
     \<not> unat (vm_toppage_ptr (vm_bootstrap (\<lambda>_. blank_entry) s)) +
         4096 * length (vm_coremap (vm_bootstrap (\<lambda>_. blank_entry) s))
         \<le> unat (0x200000 :: u32)"
proof -
  let ?s = "small_ram\<lparr> ram_lastpaddr := 0x200000 \<rparr>"
  have "ram_firstpaddr ?s = 0x40000" "ram_lastpaddr ?s = 0x200000" "4096 dvd unat (0x40000 :: u32)"
    "4096 dvd unat (0x200000 :: u32)" "(0x40000 :: u32) < 0x200000" "(0x200000 :: u32) \<le> 508 * 1024 * 1024"
    by (simp_all add: small_ram_def)
  from coremap_within_ram [OF this, of "\<lambda>_. blank_entry"] show ?thesis by (intro exI [of _ ?s]) (simp add: Let_def)
qed

end
