(* ===== verification/Kern_Bitmap.thy ===== *)
theory Kern_Bitmap
  imports OS_Prelude
begin

text \<open>
  The bitmap of \<^verbatim>\<open>kern/lib/bitmap.c\<close>, packed in bytes, used by the file system for its
  free-block map. The theory shows that it implements a finite set of numbers below
  \<open>nbits\<close> with allocation of the least free number, and that the padding bits of
  the last byte, marked in use at creation, are never handed out.
\<close>

section \<open>State and operations\<close>

text \<open>Bit numbers are \<^verbatim>\<open>u_int32_t\<close>; the sum in \<^verbatim>\<open>DIVROUNDUP\<close> wraps at 32 bits.\<close>

definition divroundup :: "nat \<Rightarrow> nat \<Rightarrow> nat" where
  "divroundup a b = ((a + b - 1) mod 2 ^ 32) div b"

record bitmap =
  bm_nbits :: nat
  bm_v :: "u8 list"

text \<open>\<^verbatim>\<open>((WORD_TYPE)1) << offset\<close>\<close>

definition byte_mask :: "nat \<Rightarrow> u8" where
  "byte_mask offset = push_bit offset 1"

text \<open>The loop that marks bits \<open>j\<close> to 7 of a byte.\<close>

function bitmap_mark_over :: "nat \<Rightarrow> u8 \<Rightarrow> u8" where
  "bitmap_mark_over j w = (if j < 8 then bitmap_mark_over (j + 1) (w OR byte_mask j) else w)"
  by pat_completeness auto
termination
  by (relation "measure (\<lambda>(j, w). 8 - j)") auto

datatype bitmap_create_result = Created bitmap | Create_nomem

definition bitmap_create :: "(u32 \<Rightarrow> bool) \<Rightarrow> nat \<Rightarrow> bitmap_create_result option" where
  "bitmap_create kmalloc_ok nbits = (
     let words = divroundup nbits 8 in
     if \<not> kmalloc_ok 8 then Some Create_nomem
     else if \<not> kmalloc_ok (word_of_nat words) then Some Create_nomem
     else
       let v = replicate words (0 :: u8) in
       if nbits div 8 < words
       then
         let ix = words - 1; overbits = nbits - ix * 8 in do {
           kassert (nbits div 8 = words - 1);
           kassert (0 < overbits \<and> overbits < 8);
           Some (Created \<lparr> bm_nbits = nbits, bm_v = v[ix := bitmap_mark_over overbits (v ! ix)] \<rparr>)
         }
       else Some (Created \<lparr> bm_nbits = nbits, bm_v = v \<rparr>))"

definition bitmap_getdata :: "bitmap \<Rightarrow> u8 list" where
  "bitmap_getdata b = bm_v b"

text \<open>The inner loop of \<^verbatim>\<open>bitmap_alloc\<close>: the first clear bit of a byte.\<close>

function bitmap_scan_byte :: "u8 \<Rightarrow> nat \<Rightarrow> nat option" where
  "bitmap_scan_byte w offset =
     (if offset < 8
      then if w AND byte_mask offset = 0 then Some offset else bitmap_scan_byte w (offset + 1)
      else None)"
  by pat_completeness auto
termination
  by (relation "measure (\<lambda>(w, offset). 8 - offset)") auto

text \<open>The outer loop; \<open>None\<close> is the \<^verbatim>\<open>assert(0)\<close> or one of the other assertions.\<close>

function bitmap_alloc_from :: "bitmap \<Rightarrow> nat \<Rightarrow> nat \<Rightarrow> ((errno + nat) \<times> bitmap) option" where
  "bitmap_alloc_from b maxix ix =
     (if ix < maxix
      then do {
        w \<leftarrow> slot_get (bm_v b) (int ix);
        if w \<noteq> 0xff
        then do {
          offset \<leftarrow> bitmap_scan_byte w 0;
          let index = (ix * 8 + offset) mod 2 ^ 32;
          kassert (index < bm_nbits b);
          Some (Inr index, b\<lparr> bm_v := (bm_v b)[ix := w OR byte_mask offset] \<rparr>)
        }
        else bitmap_alloc_from b maxix (ix + 1)
      }
      else Some (Inl ENOSPC, b))"
  by pat_completeness auto
termination
  by (relation "measure (\<lambda>(b, maxix, ix). maxix - ix)") auto

definition bitmap_alloc :: "bitmap \<Rightarrow> ((errno + nat) \<times> bitmap) option" where
  "bitmap_alloc b = bitmap_alloc_from b (divroundup (bm_nbits b) 8) 0"

definition bitmap_translate :: "nat \<Rightarrow> nat \<times> u8" where
  "bitmap_translate bitno = (bitno div 8, byte_mask (bitno mod 8))"

definition bitmap_mark :: "bitmap \<Rightarrow> nat \<Rightarrow> bitmap option" where
  "bitmap_mark b index = do {
     kassert (index < bm_nbits b);
     let (ix, mask) = bitmap_translate index;
     w \<leftarrow> slot_get (bm_v b) (int ix);
     kassert (w AND mask = 0);
     Some (b\<lparr> bm_v := (bm_v b)[ix := w OR mask] \<rparr>)
   }"

definition bitmap_unmark :: "bitmap \<Rightarrow> nat \<Rightarrow> bitmap option" where
  "bitmap_unmark b index = do {
     kassert (index < bm_nbits b);
     let (ix, mask) = bitmap_translate index;
     w \<leftarrow> slot_get (bm_v b) (int ix);
     kassert (w AND mask \<noteq> 0);
     Some (b\<lparr> bm_v := (bm_v b)[ix := w AND NOT mask] \<rparr>)
   }"

definition bitmap_isset :: "bitmap \<Rightarrow> nat \<Rightarrow> u8 option" where
  "bitmap_isset b index = do {
     let (ix, mask) = bitmap_translate index;
     w \<leftarrow> slot_get (bm_v b) (int ix);
     Some (w AND mask)
   }"

section \<open>Bits of a byte sequence\<close>

declare bitmap_mark_over.simps [simp del] bitmap_scan_byte.simps [simp del]
  bitmap_alloc_from.simps [simp del]

definition bm_bit :: "u8 list \<Rightarrow> nat \<Rightarrow> bool" where
  "bm_bit v i \<longleftrightarrow> bit (v ! (i div 8)) (i mod 8)"

lemma mask_test: "(w :: u8) AND byte_mask k = 0 \<longleftrightarrow> \<not> bit w k" if "k < 8"
  by (simp add: byte_mask_def and_exp_eq_0_iff_not_bit)

lemma mask_set: "bit ((w :: u8) OR byte_mask k) i \<longleftrightarrow> bit w i \<or> i = k" if "k < 8"
  using that by (auto simp: byte_mask_def bit_simps)

lemma mask_clear: "bit ((w :: u8) AND NOT (byte_mask k)) i \<longleftrightarrow> bit w i \<and> i \<noteq> k"
  by (auto simp: byte_mask_def bit_simps dest: bit_imp_le_length)

lemma byte_full_iff: "(w :: u8) = 0xff \<longleftrightarrow> (\<forall>k<8. bit w k)"
proof -
  have "(0xff :: u8) = mask 8" by (simp add: mask_eq_exp_minus_1)
  then show ?thesis by (auto simp: bit_eq_iff bit_simps)
qed

lemma bm_bit_set:
  assumes "k < 8 * length v"
  shows "bm_bit (v[k div 8 := (v ! (k div 8)) OR byte_mask (k mod 8)]) i \<longleftrightarrow> bm_bit v i \<or> i = k"
proof -
  have "k div 8 < length v" using assms by linarith
  moreover have "i div 8 = k div 8 \<and> i mod 8 = k mod 8 \<longleftrightarrow> i = k" by (metis div_mult_mod_eq)
  ultimately show ?thesis by (auto simp: bm_bit_def nth_list_update mask_set)
qed

lemma bm_bit_clear:
  assumes "k < 8 * length v"
  shows "bm_bit (v[k div 8 := (v ! (k div 8)) AND NOT (byte_mask (k mod 8))]) i
    \<longleftrightarrow> bm_bit v i \<and> i \<noteq> k"
proof -
  have "k div 8 < length v" using assms by linarith
  moreover have "i div 8 = k div 8 \<and> i mod 8 = k mod 8 \<longleftrightarrow> i = k" by (metis div_mult_mod_eq)
  ultimately show ?thesis by (auto simp: bm_bit_def nth_list_update mask_clear)
qed

section \<open>Representation invariant and abstraction\<close>

definition bitmap_invar :: "bitmap \<Rightarrow> bool" where
  "bitmap_invar b \<longleftrightarrow> bm_nbits b + 7 < 2 ^ 32 \<and> length (bm_v b) = divroundup (bm_nbits b) 8 \<and>
     (\<forall>i<8 * length (bm_v b). bm_nbits b \<le> i \<longrightarrow> bm_bit (bm_v b) i)"

definition bitmap_used :: "bitmap \<Rightarrow> nat set" where
  "bitmap_used b = {i. i < bm_nbits b \<and> bm_bit (bm_v b) i}"

lemma divroundup_8: "n + 7 < 2 ^ 32 \<Longrightarrow> divroundup n 8 = (n + 7) div 8"
  by (simp add: divroundup_def)

lemma bitmap_index_range: "bitmap_invar b \<Longrightarrow> i < bm_nbits b \<Longrightarrow> i < 8 * length (bm_v b)"
  by (auto simp: bitmap_invar_def divroundup_8)

lemma bitmap_used_finite [simp]: "finite (bitmap_used b)"
  by (simp add: bitmap_used_def)

section \<open>The operations as set operations\<close>

lemma bitmap_mark_over_bit: "bit (bitmap_mark_over j w) i \<longleftrightarrow> bit w i \<or> j \<le> i \<and> i < 8"
proof (induction j w rule: bitmap_mark_over.induct)
  case (1 j w)
  then show ?case by (subst bitmap_mark_over.simps) (auto simp: mask_set)
qed

lemma words_of_bits:
  fixes n :: nat
  shows "(n + 7) div 8 = (if n mod 8 = 0 then n div 8 else Suc (n div 8))"
proof -
  have "(8 * (n div 8) + n mod 8 + 7) div 8 = n div 8 + (n mod 8 + 7) div 8"
    by (simp only: add.assoc div_mult_self4)
  moreover have "(r + 7) div 8 = (if r = 0 then 0 else 1)" if "r < 8" for r :: nat
    using that by presburger
  ultimately show ?thesis by simp
qed

lemma bitmap_create_fresh:
  assumes "nbits + 7 < 2 ^ 32" "\<And>n. kmalloc_ok n"
  shows "\<exists>b. bitmap_create kmalloc_ok nbits = Some (Created b) \<and> bitmap_invar b \<and>
           bm_nbits b = nbits \<and> bitmap_used b = {}"
proof (cases "nbits div 8 < divroundup nbits 8")
  case True
  define w where "w = divroundup nbits 8"
  define ov where "ov = nbits - (w - 1) * 8"
  let ?v = "(replicate w 0)[w - 1 := bitmap_mark_over ov 0]"
  have w: "w = Suc (nbits div 8)" "0 < nbits mod 8"
    using True by (auto simp: w_def divroundup_8 [OF assms(1)] words_of_bits split: if_splits)
  have ov: "ov = nbits mod 8" using w by (simp add: ov_def minus_div_mult_eq_mod)
  have "nbits div 8 < w" "nbits div 8 = w - 1" "0 < ov" "ov < 8" "replicate w 0 ! (w - 1) = (0 :: u8)"
    using w ov by (simp_all del: replicate_Suc)
  then have op: "bitmap_create kmalloc_ok nbits = Some (Created \<lparr> bm_nbits = nbits, bm_v = ?v \<rparr>)"
    using assms(2) unfolding bitmap_create_def w_def [symmetric] Let_def ov_def [symmetric] by simp
  have bits: "bm_bit ?v i \<longleftrightarrow> nbits \<le> i" if "i < 8 * w" for i
  proof (cases "i div 8 = nbits div 8")
    case True
    then have "nbits \<le> i \<longleftrightarrow> nbits mod 8 \<le> i mod 8"
      by (metis add_le_cancel_left div_mult_mod_eq)
    with True show ?thesis
      by (simp add: bm_bit_def w(1) ov bitmap_mark_over_bit del: replicate_Suc)
  next
    case False
    then have "i div 8 < nbits div 8" using that w(1) by linarith
    with False show ?thesis
      by (auto simp: bm_bit_def w(1) simp del: replicate_Suc dest: div_le_mono [of _ _ 8])
  qed
  have "nbits < 8 * w" unfolding w(1) by (metis dividend_less_times_div mult_Suc_right zero_less_numeral)
  then have "\<not> bm_bit ?v i" if "i < nbits" for i using bits [of i] that by simp
  with op bits assms(1) show ?thesis
    by (auto simp: bitmap_invar_def bitmap_used_def w_def)
next
  case False
  then have "8 * (nbits div 8) = nbits" "divroundup nbits 8 = nbits div 8"
    by (auto simp: divroundup_8 [OF assms(1)] words_of_bits split: if_splits)
  then show ?thesis
    using False assms by (auto simp: bitmap_create_def Let_def bitmap_invar_def bitmap_used_def bm_bit_def)
qed

lemma bitmap_scan_byte_least:
  assumes "\<forall>j<k. bit w j" "\<exists>j<8. \<not> bit w j" "k \<le> 8"
  shows "\<exists>j<8. bitmap_scan_byte w k = Some j \<and> \<not> bit w j \<and> (\<forall>i<j. bit w i)"
  using assms
proof (induction w k rule: bitmap_scan_byte.induct)
  case (1 w k)
  have k: "k < 8"
    using 1(2,3,4) by (metis le_neq_implies_less)
  show ?case
  proof (cases "bit w k")
    case True
    then have "\<forall>j<k + 1. bit w j" using 1(2) by (auto simp: less_Suc_eq)
    with 1(1) [OF k] 1(3) True k have
      "\<exists>j<8. bitmap_scan_byte w (k + 1) = Some j \<and> \<not> bit w j \<and> (\<forall>i<j. bit w i)"
      by (simp add: mask_test)
    with True k show ?thesis by (subst bitmap_scan_byte.simps) (simp add: mask_test)
  next
    case False
    with k 1(2) show ?thesis by (subst bitmap_scan_byte.simps) (simp add: mask_test)
  qed
qed

lemma bitmap_alloc_from_spec:
  assumes "bitmap_invar b" "ix \<le> length (bm_v b)" "\<forall>i<8 * ix. bm_bit (bm_v b) i"
  shows "(\<forall>i<bm_nbits b. bm_bit (bm_v b) i) \<and>
           bitmap_alloc_from b (length (bm_v b)) ix = Some (Inl ENOSPC, b) \<or>
    (\<exists>k<bm_nbits b. \<not> bm_bit (bm_v b) k \<and> (\<forall>i<k. bm_bit (bm_v b) i) \<and>
       bitmap_alloc_from b (length (bm_v b)) ix = Some (Inr k,
         b\<lparr> bm_v := (bm_v b)[k div 8 := (bm_v b ! (k div 8)) OR byte_mask (k mod 8)] \<rparr>))"
  using assms
proof (induction b "length (bm_v b)" ix rule: bitmap_alloc_from.induct)
  case (1 b ix)
  show ?case
  proof (cases "ix < length (bm_v b)")
    case False
    then have "\<forall>i<bm_nbits b. bm_bit (bm_v b) i"
      using 1(3,4) bitmap_index_range [OF 1(2)] by auto
    with False show ?thesis by (subst bitmap_alloc_from.simps) simp
  next
    case True
    show ?thesis
    proof (cases "bm_v b ! ix = 0xff")
      case full: True
      have "bm_bit (bm_v b) i" if "i < 8 * (ix + 1)" for i
      proof (cases "i < 8 * ix")
        case False
        then have "i div 8 = ix" using that by auto
        with full show ?thesis by (auto simp: bm_bit_def byte_full_iff)
      qed (use 1(4) in auto)
      with 1(1) [OF True _ _ 1(2)] True full
      have "(\<forall>i<bm_nbits b. bm_bit (bm_v b) i) \<and>
           bitmap_alloc_from b (length (bm_v b)) (ix + 1) = Some (Inl ENOSPC, b) \<or>
        (\<exists>k<bm_nbits b. \<not> bm_bit (bm_v b) k \<and> (\<forall>i<k. bm_bit (bm_v b) i) \<and>
         bitmap_alloc_from b (length (bm_v b)) (ix + 1) = Some (Inr k,
          b\<lparr> bm_v := (bm_v b)[k div 8 := (bm_v b ! (k div 8)) OR byte_mask (k mod 8)] \<rparr>))"
        by (simp add: slot_get_Some)
      moreover have "bitmap_alloc_from b (length (bm_v b)) ix
          = bitmap_alloc_from b (length (bm_v b)) (ix + 1)"
        using True full by (subst bitmap_alloc_from.simps) simp
      ultimately show ?thesis by simp
    next
      case False
      then obtain k where k: "k < 8" "bitmap_scan_byte (bm_v b ! ix) 0 = Some k"
        "\<not> bit (bm_v b ! ix) k" "\<forall>i<k. bit (bm_v b ! ix) i"
        using bitmap_scan_byte_least [of 0 "bm_v b ! ix"] by (auto simp: byte_full_iff)
      have n: "(ix * 8 + k) div 8 = ix" "(ix * 8 + k) mod 8 = k" using k(1) by auto
      have clear: "\<not> bm_bit (bm_v b) (ix * 8 + k)" using k(3) n by (simp add: bm_bit_def)
      have below: "bm_bit (bm_v b) i" if "i < ix * 8 + k" for i
      proof (cases "i < 8 * ix")
        case False
        then have d: "i div 8 = ix" using that k(1) by auto
        moreover have "8 * (i div 8) + i mod 8 = i" by simp
        ultimately have "i mod 8 < k" using that by linarith
        with d k(4) show ?thesis by (simp add: bm_bit_def)
      qed (use 1(4) in auto)
      have lt: "ix * 8 + k < bm_nbits b"
      proof (rule ccontr)
        assume "\<not> ix * 8 + k < bm_nbits b"
        moreover have "ix * 8 + k < 8 * length (bm_v b)" using True k(1) by linarith
        ultimately show False using clear 1(2) by (simp add: bitmap_invar_def)
      qed
      moreover have "bm_nbits b < 2 ^ 32" using 1(2) by (simp add: bitmap_invar_def)
      ultimately have "bitmap_alloc_from b (length (bm_v b)) ix = Some (Inr (ix * 8 + k),
          b\<lparr> bm_v := (bm_v b)[ix := (bm_v b ! ix) OR byte_mask k] \<rparr>)"
        using True False k(2) by (subst bitmap_alloc_from.simps) (simp add: Let_def)
      then have "bitmap_alloc_from b (length (bm_v b)) ix = Some (Inr (ix * 8 + k),
          b\<lparr> bm_v := (bm_v b)[(ix * 8 + k) div 8 :=
                (bm_v b ! ((ix * 8 + k) div 8)) OR byte_mask ((ix * 8 + k) mod 8)] \<rparr>)"
        by (simp only: n)
      with clear below lt show ?thesis by blast
    qed
  qed
qed

lemma bitmap_set_used:
  assumes "bitmap_invar b" "k < bm_nbits b"
  defines "b' \<equiv> b\<lparr> bm_v := (bm_v b)[k div 8 := (bm_v b ! (k div 8)) OR byte_mask (k mod 8)] \<rparr>"
  shows "bitmap_invar b'" "bitmap_used b' = insert k (bitmap_used b)" "bm_nbits b' = bm_nbits b"
  using assms(1,2) bm_bit_set [OF bitmap_index_range [OF assms(1,2)]]
  by (auto simp: b'_def bitmap_invar_def bitmap_used_def)

lemma bitmap_clear_used:
  assumes "bitmap_invar b" "k < bm_nbits b"
  defines "b' \<equiv> b\<lparr> bm_v := (bm_v b)[k div 8 := (bm_v b ! (k div 8)) AND NOT (byte_mask (k mod 8))] \<rparr>"
  shows "bitmap_invar b'" "bitmap_used b' = bitmap_used b - {k}" "bm_nbits b' = bm_nbits b"
  using assms(1,2) bm_bit_clear [OF bitmap_index_range [OF assms(1,2)]]
  by (auto simp: b'_def bitmap_invar_def bitmap_used_def)

lemma bitmap_byte:
  assumes "bitmap_invar b" "k < bm_nbits b"
  shows "slot_get (bm_v b) (int (k div 8)) = Some (bm_v b ! (k div 8))"
    and "(bm_v b ! (k div 8)) AND byte_mask (k mod 8) = 0 \<longleftrightarrow> k \<notin> bitmap_used b"
proof -
  have "k div 8 < length (bm_v b)" using bitmap_index_range [OF assms] by linarith
  then show "slot_get (bm_v b) (int (k div 8)) = Some (bm_v b ! (k div 8))" by simp
  show "(bm_v b ! (k div 8)) AND byte_mask (k mod 8) = 0 \<longleftrightarrow> k \<notin> bitmap_used b"
    using assms(2) by (simp add: mask_test bitmap_used_def bm_bit_def)
qed

section \<open>The allocator interface\<close>

text \<open>
  A pool of numbered units below \<open>cap\<close>. The file system allocates disk blocks and the
  kernel heap allocates page references through such a pool.
\<close>

locale unit_pool =
  fixes alloc :: "'s \<Rightarrow> ((errno + nat) \<times> 's) option"
    and release :: "'s \<Rightarrow> nat \<Rightarrow> 's option"
    and used :: "'s \<Rightarrow> nat set"
    and cap :: "'s \<Rightarrow> nat"
    and invar :: "'s \<Rightarrow> bool"
    and full :: errno
  assumes used_cap: "invar s \<Longrightarrow> used s \<subseteq> {..<cap s}"
    and alloc_full: "invar s \<Longrightarrow> used s = {..<cap s} \<Longrightarrow> alloc s = Some (Inl full, s)"
    and alloc_free: "invar s \<Longrightarrow> used s \<noteq> {..<cap s} \<Longrightarrow>
      \<exists>s'. alloc s = Some (Inr (LEAST i. i \<notin> used s), s') \<and> invar s' \<and> cap s' = cap s \<and>
           used s' = insert (LEAST i. i \<notin> used s) (used s)"
    and release_used: "invar s \<Longrightarrow> i \<in> used s \<Longrightarrow>
      \<exists>s'. release s i = Some s' \<and> invar s' \<and> cap s' = cap s \<and> used s' = used s - {i}"
begin

lemma used_finite: "invar s \<Longrightarrow> finite (used s)"
  using used_cap finite_subset by blast

lemma least_free: "invar s \<Longrightarrow> used s \<noteq> {..<cap s} \<Longrightarrow> (LEAST i. i \<notin> used s) < cap s"
proof -
  assume s: "invar s" "used s \<noteq> {..<cap s}"
  then obtain i where "i < cap s" "i \<notin> used s" using used_cap by blast
  then show ?thesis by (meson Least_le le_less_trans)
qed

text \<open>What a caller sees: a fresh unit in range, or the pool exhausted.\<close>

lemma alloc_cases:
  assumes "invar s"
  obtains (exhausted) "alloc s = Some (Inl full, s)" "used s = {..<cap s}"
  | (fresh) i s' where "alloc s = Some (Inr i, s')" "i < cap s" "i \<notin> used s" "invar s'"
      "cap s' = cap s" "used s' = insert i (used s)"
proof (cases "used s = {..<cap s}")
  case True
  with exhausted alloc_full [OF assms] show thesis by blast
next
  case False
  then obtain i where "i \<notin> used s" using used_cap [OF assms] by blast
  then have "(LEAST i. i \<notin> used s) \<notin> used s" by (rule LeastI)
  with fresh alloc_free [OF assms False] least_free [OF assms False] show thesis by blast
qed

lemma alloc_release:
  assumes "invar s" "alloc s = Some (Inr i, s')"
  obtains s'' where "release s' i = Some s''" "invar s''" "used s'' = used s" "cap s'' = cap s"
proof (cases rule: alloc_cases [OF assms(1)])
  case 1
  with assms show thesis by simp
next
  case (2 j t)
  then have j: "j = i" "t = s'" using assms(2) by auto
  have "invar s'" "i \<in> used s'" using 2 j by auto
  from release_used [OF this] 2 j obtain s'' where
    "release s' i = Some s''" "invar s''" "used s'' = used s" "cap s'' = cap s" by auto
  then show thesis by (rule that)
qed

lemma alloc_fewer_free:
  assumes "invar s" "alloc s = Some (Inr i, s')"
  shows "card (used s') = Suc (card (used s))"
  using assms used_finite [OF assms(1)] by (cases rule: alloc_cases [OF assms(1)]) auto

end

lemma bitmap_release_outcome:
  assumes "bitmap_invar b"
  shows "bitmap_unmark b i = (if i \<in> bitmap_used b
    then Some (b\<lparr> bm_v := (bm_v b)[i div 8 := (bm_v b ! (i div 8)) AND NOT (byte_mask (i mod 8))] \<rparr>)
    else None)"
proof (cases "i < bm_nbits b")
  case True
  with bitmap_byte [OF assms True] show ?thesis
    by (simp add: bitmap_unmark_def bitmap_translate_def ksimps)
next
  case False
  then show ?thesis by (auto simp: bitmap_unmark_def ksimps bitmap_used_def)
qed

lemma bitmap_mark_outcome:
  assumes "bitmap_invar b"
  shows "bitmap_mark b i = (if i < bm_nbits b \<and> i \<notin> bitmap_used b
    then Some (b\<lparr> bm_v := (bm_v b)[i div 8 := (bm_v b ! (i div 8)) OR byte_mask (i mod 8)] \<rparr>)
    else None)"
  using bitmap_byte [OF assms, of i]
  by (cases "i < bm_nbits b") (simp_all add: bitmap_mark_def bitmap_translate_def ksimps)

lemma bitmap_alloc_outcome:
  assumes "bitmap_invar b"
  shows "bitmap_used b = {..<bm_nbits b} \<and> bitmap_alloc b = Some (Inl ENOSPC, b) \<or>
    bitmap_used b \<noteq> {..<bm_nbits b} \<and>
    (let k = (LEAST i. i \<notin> bitmap_used b) in k < bm_nbits b \<and>
      bitmap_alloc b = Some (Inr k,
         b\<lparr> bm_v := (bm_v b)[k div 8 := (bm_v b ! (k div 8)) OR byte_mask (k mod 8)] \<rparr>))"
proof -
  have "length (bm_v b) = divroundup (bm_nbits b) 8" using assms by (simp add: bitmap_invar_def)
  then have a: "bitmap_alloc b = bitmap_alloc_from b (length (bm_v b)) 0"
    by (simp add: bitmap_alloc_def)
  have "0 \<le> length (bm_v b)" "\<forall>i<8 * 0. bm_bit (bm_v b) i" by simp_all
  from bitmap_alloc_from_spec [OF assms this] show ?thesis
  proof
    assume "(\<forall>i<bm_nbits b. bm_bit (bm_v b) i) \<and>
      bitmap_alloc_from b (length (bm_v b)) 0 = Some (Inl ENOSPC, b)"
    then show ?thesis using a by (auto simp: bitmap_used_def)
  next
    assume "\<exists>k<bm_nbits b. \<not> bm_bit (bm_v b) k \<and> (\<forall>i<k. bm_bit (bm_v b) i) \<and>
       bitmap_alloc_from b (length (bm_v b)) 0 = Some (Inr k,
         b\<lparr> bm_v := (bm_v b)[k div 8 := (bm_v b ! (k div 8)) OR byte_mask (k mod 8)] \<rparr>)"
    then obtain k where k: "k < bm_nbits b" "\<not> bm_bit (bm_v b) k" "\<forall>i<k. bm_bit (bm_v b) i"
      "bitmap_alloc b = Some (Inr k,
         b\<lparr> bm_v := (bm_v b)[k div 8 := (bm_v b ! (k div 8)) OR byte_mask (k mod 8)] \<rparr>)"
      using a by auto
    have "(LEAST i. i \<notin> bitmap_used b) = k"
      using k by (intro Least_equality) (auto simp: bitmap_used_def not_less [symmetric])
    moreover have "bitmap_used b \<noteq> {..<bm_nbits b}" using k by (auto simp: bitmap_used_def)
    ultimately show ?thesis using k by (simp add: Let_def)
  qed
qed

interpretation bm: unit_pool bitmap_alloc bitmap_unmark bitmap_used bm_nbits bitmap_invar ENOSPC
proof unfold_locales
  fix b i
  assume b: "bitmap_invar b"
  show "bitmap_used b \<subseteq> {..<bm_nbits b}" by (auto simp: bitmap_used_def)
  show "bitmap_alloc b = Some (Inl ENOSPC, b)" if "bitmap_used b = {..<bm_nbits b}"
    using bitmap_alloc_outcome [OF b] that by simp
  show "\<exists>s'. bitmap_alloc b = Some (Inr (LEAST i. i \<notin> bitmap_used b), s') \<and> bitmap_invar s' \<and>
      bm_nbits s' = bm_nbits b \<and> bitmap_used s' = insert (LEAST i. i \<notin> bitmap_used b) (bitmap_used b)"
    if "bitmap_used b \<noteq> {..<bm_nbits b}"
    using bitmap_alloc_outcome [OF b] that bitmap_set_used [OF b] by (auto simp: Let_def)
  show "\<exists>s'. bitmap_unmark b i = Some s' \<and> bitmap_invar s' \<and> bm_nbits s' = bm_nbits b \<and>
      bitmap_used s' = bitmap_used b - {i}" if "i \<in> bitmap_used b"
    using bitmap_release_outcome [OF b, of i] that bitmap_clear_used [OF b, of i]
    by (auto simp: bitmap_used_def)
qed

section \<open>Properties\<close>

text \<open>
  C11. A well-formed bitmap of \<open>nbits\<close> bits allocates exactly the numbers below \<open>nbits\<close>:
  as long as some number is free, \<^verbatim>\<open>bitmap_alloc\<close> returns the least free one and marks it,
  without ever touching the padding of the last byte; when none is free it returns
  ENOSPC and changes nothing; and \<^verbatim>\<open>bitmap_unmark\<close> of the number just allocated
  gives back the set of used numbers there was before.
\<close>

theorem bitmap_alloc_least:
  assumes "bitmap_invar b"
  shows "if bitmap_used b = {..<bm_nbits b}
    then bitmap_alloc b = Some (Inl ENOSPC, b)
    else (\<exists>k b' b''. bitmap_alloc b = Some (Inr k, b') \<and>
           k < bm_nbits b \<and> k \<notin> bitmap_used b \<and> {..<k} \<subseteq> bitmap_used b \<and>
           bitmap_invar b' \<and> bitmap_used b' = insert k (bitmap_used b) \<and>
           bitmap_unmark b' k = Some b'' \<and> bitmap_invar b'' \<and> bitmap_used b'' = bitmap_used b)"
proof (cases "bitmap_used b = {..<bm_nbits b}")
  case True
  then show ?thesis using bm.alloc_full [OF assms] by simp
next
  case False
  let ?k = "LEAST i. i \<notin> bitmap_used b"
  obtain b' where b': "bitmap_alloc b = Some (Inr ?k, b')" "bitmap_invar b'"
    "bitmap_used b' = insert ?k (bitmap_used b)" using bm.alloc_free [OF assms False] by blast
  obtain b'' where b'': "bitmap_unmark b' ?k = Some b''" "bitmap_invar b''"
    "bitmap_used b'' = bitmap_used b" by (rule bm.alloc_release [OF assms b'(1)])
  have "?k < bm_nbits b" by (rule bm.least_free [OF assms False])
  moreover have "?k \<notin> bitmap_used b"
    by (rule LeastI [of _ "bm_nbits b"]) (simp add: bitmap_used_def)
  moreover have "{..<?k} \<subseteq> bitmap_used b" using not_less_Least by blast
  ultimately show ?thesis using False b' b'' by auto
qed

theorem bitmap_alloc_least_witness:
  "\<exists>b b'. bitmap_create (\<lambda>_. True) 10 = Some (Created b) \<and> bitmap_invar b \<and>
     bitmap_alloc b = Some (Inr 0, b') \<and> bitmap_used b' = {0}"
proof -
  obtain b where b: "bitmap_create (\<lambda>_. True) 10 = Some (Created b)" "bitmap_invar b"
    "bm_nbits b = 10" "bitmap_used b = {}"
    using bitmap_create_fresh [of 10 "\<lambda>_. True"] by auto
  have "0 \<in> {..<bm_nbits b}" by (simp only: b(3)) simp
  then have "bitmap_used b \<noteq> {..<bm_nbits b}" using b(4) by blast
  with bitmap_alloc_least [OF b(2)] obtain k b' where
    k: "bitmap_alloc b = Some (Inr k, b')" "{..<k} \<subseteq> bitmap_used b"
    "bitmap_used b' = insert k (bitmap_used b)" by (simp only: if_False) blast
  have "k = 0"
  proof (rule ccontr)
    assume "k \<noteq> 0"
    then have "0 \<in> {..<k}" by simp
    then show False using k(2) b(4) by blast
  qed
  with k b(1,2,4) show ?thesis by (intro exI [of _ b] exI [of _ b']) simp
qed

end
