(* ===== verification/Kern_Heap.thy ===== *)
theory Kern_Heap
  imports Kern_Coremap Kern_Bitmap
begin

unbundle bit_operations_syntax

text \<open>
  The kernel heap (\<^verbatim>\<open>kern/lib/kheap.c\<close>): blocks of at least 2048 bytes are whole pages from
  \<^verbatim>\<open>alloc_kpages\<close>; smaller ones come from pages divided into blocks of one of eight sizes.
  Each such page has a \<^verbatim>\<open>pageref\<close>, a structure from a fixed table, that is linked into the
  list of all pages and the list of the pages of its size, and the free blocks of a page are
  linked through their first word.

  Kernel memory is a function from (word-aligned) kernel addresses to 32-bit words. A pointer
  to a \<^verbatim>\<open>pageref\<close> is its index in the table.

  Walks along linked lists carry a bound, \<open>NPAGEREFS\<close>, the size of the table; on a
  well-formed heap the lists are shorter and the bound is never reached.
\<close>

section \<open>State\<close>

record pageref =
  pr_next_samesize :: "nat option"
  pr_next_all :: "nat option"
  pr_pab :: u32                    \<comment> \<open>\<^verbatim>\<open>pageaddr_and_blocktype\<close>\<close>
  pr_freelist_offset :: u16
  pr_nfree :: u16

record kheap = pmem +
  hp_pagerefs :: "pageref list"
  hp_inuse :: "u32 list"           \<comment> \<open>\<^verbatim>\<open>pagerefs_inuse\<close>\<close>
  hp_sizebases :: "nat option list"
  hp_allbase :: "nat option"
  hp_mem :: "u32 \<Rightarrow> u32"

definition sizes :: "u32 list" where
  "sizes = [16, 32, 64, 128, 256, 512, 1024, 2048]"

definition NSIZES :: nat where
  "NSIZES = 8"

definition LARGEST_SUBPAGE_SIZE :: u32 where
  "LARGEST_SUBPAGE_SIZE = 2048"

definition NPAGEREFS :: nat where
  "NPAGEREFS = 256"

definition INUSE_WORDS :: nat where
  "INUSE_WORDS = 8"

definition INVALID_OFFSET :: u16 where
  "INVALID_OFFSET = 0xffff"

definition PR_PAGEADDR :: "pageref \<Rightarrow> u32" where
  "PR_PAGEADDR pr = pr_pab pr AND PAGE_FRAME"

definition PR_BLOCKTYPE :: "pageref \<Rightarrow> u32" where
  "PR_BLOCKTYPE pr = pr_pab pr AND NOT PAGE_FRAME"

definition MKPAB :: "u32 \<Rightarrow> u32 \<Rightarrow> u32" where
  "MKPAB pa blk = (pa AND PAGE_FRAME) OR (blk AND NOT PAGE_FRAME)"

section \<open>The table of page references\<close>

text \<open>The inner loop of \<^verbatim>\<open>allocpageref\<close>: \<open>k\<close> is shifted left until it is zero.\<close>

function inuse_scan :: "u32 \<Rightarrow> u32 \<Rightarrow> nat \<Rightarrow> (nat \<times> u32) option" where
  "inuse_scan w k j =
     (if k \<noteq> 0
      then if w AND k = 0 then Some (j, w OR k) else inuse_scan w (push_bit 1 k) (j + 1)
      else None)"
  by pat_completeness auto
termination
proof (relation "measure (\<lambda>(w, k, j). LEAST n. push_bit n k = 0)", goal_cases)
  case (2 w k j)
  have ex: "push_bit 32 k = 0" by (rule bit_word_eqI) (simp add: bit_simps)
  define m where "m = (LEAST n. push_bit n k = 0)"
  have m: "push_bit m k = 0" unfolding m_def by (rule LeastI [where P = "\<lambda>n. push_bit n k = 0", OF ex])
  then have "m \<noteq> 0" using 2 by (metis push_bit_0_id id_apply)
  then obtain m' where m': "m = Suc m'" by (cases m) auto
  have "push_bit m' (push_bit 1 k) = 0" using m by (simp add: m')
  then have "(LEAST n. push_bit n (push_bit 1 k) = 0) \<le> m'" by (rule Least_le)
  then show ?case using m' by (simp add: m_def)
qed simp

text \<open>The outer loop, from word \<open>i\<close> on; \<open>None\<close> is the assertion after the inner one.\<close>

function allocpageref_from :: "nat \<Rightarrow> u32 list \<Rightarrow> (nat option \<times> u32 list) option" where
  "allocpageref_from i inuse =
     (if i < INUSE_WORDS
      then do {
        w \<leftarrow> slot_get inuse (int i);
        if w = 0xffffffff then allocpageref_from (i + 1) inuse
        else do {
          (j, w') \<leftarrow> inuse_scan w 1 0;
          Some (Some (i * 32 + j), inuse[i := w'])
        }
      }
      else Some (None, inuse))"
  by pat_completeness auto
termination
  by (relation "measure (\<lambda>(i, inuse). INUSE_WORDS - i)") auto

definition allocpageref :: "u32 list \<Rightarrow> (nat option \<times> u32 list) option" where
  "allocpageref inuse = allocpageref_from 0 inuse"

definition freepageref :: "nat \<Rightarrow> u32 list \<Rightarrow> u32 list option" where
  "freepageref j inuse = do {
     kassert (j < NPAGEREFS);
     let i = j div 32;
     let k = (push_bit (j mod 32) 1 :: u32);
     w \<leftarrow> slot_get inuse (int i);
     kassert (w AND k \<noteq> 0);
     Some (inuse[i := w AND NOT k])
   }"

section \<open>Lists of pages\<close>

text \<open>
  The two loops of \<^verbatim>\<open>remove_lists\<close>. \<^verbatim>\<open>guy\<close> is a pointer to the link that is looked at: the base of
  the list or a field of an earlier element.
\<close>

fun unlink_samesize :: "nat \<Rightarrow> nat \<Rightarrow> nat \<Rightarrow> nat option \<Rightarrow> 'a kheap_scheme \<Rightarrow> 'a kheap_scheme option" where
  "unlink_samesize 0 pr blk prev s = None"
| "unlink_samesize (Suc fuel) pr blk prev s = do {
     link \<leftarrow> (case prev of
         None \<Rightarrow> slot_get (hp_sizebases s) (int blk)
       | Some q \<Rightarrow> map_option pr_next_samesize (slot_get (hp_pagerefs s) (int q)));
     case link of
       None \<Rightarrow> Some s
     | Some g \<Rightarrow>
         if g = pr
         then do {
           p \<leftarrow> slot_get (hp_pagerefs s) (int pr);
           Some (case prev of
               None \<Rightarrow> s\<lparr> hp_sizebases := (hp_sizebases s)[blk := pr_next_samesize p] \<rparr>
             | Some q \<Rightarrow> s\<lparr> hp_pagerefs := (hp_pagerefs s)
                 [q := (hp_pagerefs s ! q)\<lparr> pr_next_samesize := pr_next_samesize p \<rparr>] \<rparr>)
         }
         else unlink_samesize fuel pr blk (Some g) s
   }"

fun unlink_all :: "nat \<Rightarrow> nat \<Rightarrow> nat option \<Rightarrow> 'a kheap_scheme \<Rightarrow> 'a kheap_scheme option" where
  "unlink_all 0 pr prev s = None"
| "unlink_all (Suc fuel) pr prev s = do {
     link \<leftarrow> (case prev of
         None \<Rightarrow> Some (hp_allbase s)
       | Some q \<Rightarrow> map_option pr_next_all (slot_get (hp_pagerefs s) (int q)));
     case link of
       None \<Rightarrow> Some s
     | Some g \<Rightarrow>
         if g = pr
         then do {
           p \<leftarrow> slot_get (hp_pagerefs s) (int pr);
           Some (case prev of
               None \<Rightarrow> s\<lparr> hp_allbase := pr_next_all p \<rparr>
             | Some q \<Rightarrow> s\<lparr> hp_pagerefs := (hp_pagerefs s)
                 [q := (hp_pagerefs s ! q)\<lparr> pr_next_all := pr_next_all p \<rparr>] \<rparr>)
         }
         else unlink_all fuel pr (Some g) s
   }"

definition remove_lists :: "nat \<Rightarrow> nat \<Rightarrow> 'a kheap_scheme \<Rightarrow> 'a kheap_scheme option" where
  "remove_lists pr blktype s = do {
     kassert (blktype < NSIZES);
     s1 \<leftarrow> unlink_samesize (NPAGEREFS + 1) pr blktype None s;
     unlink_all (NPAGEREFS + 1) pr None s1
   }"

section \<open>Allocation\<close>

text \<open>\<^verbatim>\<open>blocktype\<close>: the first size that is large enough; a larger request panics.\<close>

function blocktype_from :: "nat \<Rightarrow> u32 \<Rightarrow> nat option" where
  "blocktype_from i sz =
     (if i < NSIZES then if sz \<le> sizes ! i then Some i else blocktype_from (i + 1) sz else None)"
  by pat_completeness auto
termination
  by (relation "measure (\<lambda>(i, sz). NSIZES - i)") auto

definition blocktype :: "u32 \<Rightarrow> nat option" where
  "blocktype sz = blocktype_from 0 sz"

text \<open>The walk along the pages of one size to one that has a free block.\<close>

fun find_free_page :: "nat \<Rightarrow> nat \<Rightarrow> nat option \<Rightarrow> pageref list \<Rightarrow> nat option option" where
  "find_free_page fuel blk None prs = Some None"
| "find_free_page 0 blk (Some p) prs = None"
| "find_free_page (Suc fuel) blk (Some p) prs = do {
     pr \<leftarrow> slot_get prs (int p);
     kassert (PR_BLOCKTYPE pr = word_of_nat blk);
     if 0 < pr_nfree pr then Some (Some p) else find_free_page fuel blk (pr_next_samesize pr) prs
   }"

text \<open>The code at the label \<^verbatim>\<open>doalloc\<close>.\<close>

definition doalloc :: "nat \<Rightarrow> 'a kheap_scheme \<Rightarrow> (u32 \<times> 'a kheap_scheme) option" where
  "doalloc p s = do {
     pr \<leftarrow> slot_get (hp_pagerefs s) (int p);
     kassert (ucast (pr_freelist_offset pr) < PAGE_SIZE);
     let prpage = PR_PAGEADDR pr;
     let retptr = prpage + ucast (pr_freelist_offset pr);
     let fl = hp_mem s retptr;
     let nfree = pr_nfree pr - 1;
     if fl \<noteq> 0
     then do {
       kassert (0 < nfree);
       kassert (fl - prpage < PAGE_SIZE);
       Some (retptr, s\<lparr> hp_pagerefs := (hp_pagerefs s)
         [p := pr\<lparr> pr_nfree := nfree, pr_freelist_offset := ucast (fl - prpage) \<rparr>] \<rparr>)
     }
     else do {
       kassert (nfree = 0);
       Some (retptr, s\<lparr> hp_pagerefs := (hp_pagerefs s)
         [p := pr\<lparr> pr_nfree := nfree, pr_freelist_offset := INVALID_OFFSET \<rparr>] \<rparr>)
     }
   }"

text \<open>The loop that links the blocks of a fresh page, from block \<open>i\<close> on.\<close>

function link_blocks :: "nat \<Rightarrow> nat \<Rightarrow> u32 \<Rightarrow> u32 \<Rightarrow> (u32 \<Rightarrow> u32) \<Rightarrow> (u32 \<Rightarrow> u32) option" where
  "link_blocks i nfree fla sz mem =
     (if i < nfree
      then do {
        let fl = fla + word_of_nat i * sz;
        let next = fla + (word_of_nat i - 1) * sz;
        kassert (fl \<noteq> next);
        link_blocks (i + 1) nfree fla sz (mem(fl := next))
      }
      else Some mem)"
  by pat_completeness auto
termination
  by (relation "measure (\<lambda>(i, nfree, fla, sz, mem). nfree - i)") auto

text \<open>The part of \<^verbatim>\<open>subpage_kmalloc\<close> that sets up a fresh page.\<close>

definition fresh_page :: "nat \<Rightarrow> nat \<Rightarrow> u32 \<Rightarrow> 'a kheap_scheme \<Rightarrow> 'a kheap_scheme option" where
  "fresh_page p blk prpage s = do {
     let sz = sizes ! blk;
     let nfree = (ucast (PAGE_SIZE div sz) :: u16);
     pr \<leftarrow> slot_get (hp_pagerefs s) (int p);
     mem \<leftarrow> link_blocks 1 (unat nfree) prpage sz ((hp_mem s)(prpage := 0));
     let fla = prpage + (word_of_nat (unat nfree) - 1) * sz;
     let offset = (ucast (fla - prpage) :: u16);
     kassert ((ucast offset :: u32) = (ucast nfree - 1) * sz);
     Some (s\<lparr> hp_mem := mem,
              hp_pagerefs := (hp_pagerefs s)[p :=
                pr\<lparr> pr_pab := MKPAB prpage (word_of_nat blk), pr_nfree := nfree,
                   pr_freelist_offset := offset, pr_next_samesize := hp_sizebases s ! blk,
                   pr_next_all := hp_allbase s \<rparr>],
              hp_sizebases := (hp_sizebases s)[blk := Some p],
              hp_allbase := Some p \<rparr>)
   }"

definition subpage_kmalloc :: "u32 \<Rightarrow> 'a kheap_scheme \<Rightarrow> (u32 \<times> 'a kheap_scheme) option" where
  "subpage_kmalloc sz s = do {
     blk \<leftarrow> blocktype sz;
     let spl = vm_spl s;
     let s1 = s\<lparr> vm_spl := SPL_HIGH \<rparr>;
     base \<leftarrow> slot_get (hp_sizebases s1) (int blk);
     found \<leftarrow> find_free_page NPAGEREFS blk base (hp_pagerefs s1);
     case found of
       Some p \<Rightarrow> do {
         (ret, s2) \<leftarrow> doalloc p s1;
         Some (ret, s2\<lparr> vm_spl := spl \<rparr>)
       }
     | None \<Rightarrow> do {
         (r, inuse) \<leftarrow> allocpageref (hp_inuse s1);
         case r of
           None \<Rightarrow> Some (0, s1\<lparr> vm_spl := spl \<rparr>)
         | Some p \<Rightarrow> do {
             (prpage, s2) \<leftarrow> alloc_kpages 1 (s1\<lparr> hp_inuse := inuse \<rparr>);
             if prpage = 0
             then do {
               inuse' \<leftarrow> freepageref p (hp_inuse s2);
               Some (0, s2\<lparr> hp_inuse := inuse', vm_spl := spl \<rparr>)
             }
             else do {
               s3 \<leftarrow> fresh_page p blk prpage s2;
               (ret, s4) \<leftarrow> doalloc p s3;
               Some (ret, s4\<lparr> vm_spl := spl \<rparr>)
             }
           }
       }
   }"

section \<open>Release\<close>

definition fill_deadbeef :: "u32 \<Rightarrow> u32 \<Rightarrow> (u32 \<Rightarrow> u32) \<Rightarrow> u32 \<Rightarrow> u32" where
  "fill_deadbeef ptr len mem = foldl (\<lambda>m i. m(ptr + 4 * word_of_nat i := 0xdeadbeef)) mem [0..<unat len div 4]"

text \<open>The walk along all pages to the one that contains an address.\<close>

fun find_owner :: "nat \<Rightarrow> u32 \<Rightarrow> nat option \<Rightarrow> pageref list \<Rightarrow> nat option option" where
  "find_owner fuel addr None prs = Some None"
| "find_owner 0 addr (Some p) prs = None"
| "find_owner (Suc fuel) addr (Some p) prs = do {
     pr \<leftarrow> slot_get prs (int p);
     kassert (PR_BLOCKTYPE pr < word_of_nat NSIZES);
     if PR_PAGEADDR pr \<le> addr \<and> addr < PR_PAGEADDR pr + PAGE_SIZE then Some (Some p)
     else find_owner fuel addr (pr_next_all pr) prs
   }"

text \<open>The result is \<open>False\<close> for the return value \<open>-1\<close>: not a block of a divided page.\<close>

definition subpage_kfree :: "u32 \<Rightarrow> 'a kheap_scheme \<Rightarrow> (bool \<times> 'a kheap_scheme) option" where
  "subpage_kfree ptr s = do {
     let spl = vm_spl s;
     let s1 = s\<lparr> vm_spl := SPL_HIGH \<rparr>;
     found \<leftarrow> find_owner NPAGEREFS ptr (hp_allbase s1) (hp_pagerefs s1);
     case found of
       None \<Rightarrow> Some (False, s1\<lparr> vm_spl := spl \<rparr>)
     | Some p \<Rightarrow> do {
         let pr = hp_pagerefs s1 ! p;
         let prpage = PR_PAGEADDR pr;
         let blk = unat (PR_BLOCKTYPE pr);
         let sz = sizes ! blk;
         let offset = ptr - prpage;
         kassert (offset < PAGE_SIZE \<and> offset mod sz = 0);
         let mem1 = fill_deadbeef ptr sz (hp_mem s1);
         let fla = prpage + offset;
         let next = (if pr_freelist_offset pr = INVALID_OFFSET then 0
                     else prpage + ucast (pr_freelist_offset pr));
         let nfree = pr_nfree pr + 1;
         let s2 = s1\<lparr> hp_mem := mem1(fla := next),
                      hp_pagerefs := (hp_pagerefs s1)[p :=
                        pr\<lparr> pr_freelist_offset := ucast offset, pr_nfree := nfree \<rparr>] \<rparr>;
         kassert (ucast nfree \<le> PAGE_SIZE div sz);
         s3 \<leftarrow> (if ucast nfree = PAGE_SIZE div sz
                then do {
                  s3 \<leftarrow> remove_lists p blk s2;
                  s4 \<leftarrow> free_kpages prpage s3;
                  inuse \<leftarrow> freepageref p (hp_inuse s4);
                  Some (s4\<lparr> hp_inuse := inuse \<rparr>)
                }
                else Some s2);
         Some (True, s3\<lparr> vm_spl := spl \<rparr>)
       }
   }"

section \<open>The allocator\<close>

definition kmalloc :: "u32 \<Rightarrow> 'a kheap_scheme \<Rightarrow> (u32 \<times> 'a kheap_scheme) option" where
  "kmalloc sz s =
     (if sz \<ge> LARGEST_SUBPAGE_SIZE
      then alloc_kpages ((sz + PAGE_SIZE - 1) div PAGE_SIZE) s
      else subpage_kmalloc sz s)"

definition kfree :: "u32 \<Rightarrow> 'a kheap_scheme \<Rightarrow> 'a kheap_scheme option" where
  "kfree ptr s =
     (if ptr = 0 then Some s
      else do {
        (sub, s1) \<leftarrow> subpage_kfree ptr s;
        if sub then Some s1
        else do {
          kassert (ptr mod PAGE_SIZE = 0);
          free_kpages ptr s1
        }
      })"

end
