(* ===== verification/Kern_Heap_Inv.thy ===== *)
theory Kern_Heap_Inv
  imports Kern_Heap
begin

unbundle bit_operations_syntax

text \<open>
  Correctness of the kernel heap: what the linked lists, free lists and page references
  stand for, and that \<^verbatim>\<open>kmalloc\<close> and \<^verbatim>\<open>kfree\<close> change exactly the set of live blocks
  (locale \<open>block_heap\<close>, interpreted on the model). Blocks that are live never overlap, and
  neither operation touches the contents of another live block.
\<close>

section \<open>Block sizes\<close>

definition bsize :: "nat \<Rightarrow> nat" where
  "bsize b = 16 * 2 ^ b"

definition nblk :: "nat \<Rightarrow> nat" where
  "nblk b = 4096 div bsize b"

lemma less_8_cases: "b < 8 \<Longrightarrow> b = 0 \<or> b = 1 \<or> b = 2 \<or> b = 3 \<or> b = 4 \<or> b = 5 \<or> b = 6 \<or> b = (7 :: nat)"
  by linarith

lemma unat_sizes: "b < 8 \<Longrightarrow> unat (sizes ! b) = bsize b"
  by (drule less_8_cases) (auto simp: sizes_def bsize_def)

lemma sizes_word: "b < 8 \<Longrightarrow> sizes ! b = word_of_nat (bsize b)"
  using unat_sizes word_of_nat_of_unat by metis

lemma nblk_bsize: "b < 8 \<Longrightarrow> nblk b * bsize b = 4096"
  by (drule less_8_cases) (auto simp: nblk_def bsize_def)

lemma bsize_bounds:
  assumes "b < 8"
  shows "16 \<le> bsize b" "bsize b \<le> 2048" "16 dvd bsize b" "2 \<le> nblk b" "nblk b \<le> 256" "0 < bsize b"
  using less_8_cases [OF assms] by (auto simp: nblk_def bsize_def)

lemma blocktype_from_Some:
  "blocktype_from i sz = Some b \<Longrightarrow> b < 8 \<and> sz \<le> sizes ! b"
proof (induction i sz rule: blocktype_from.induct)
  case (1 i sz)
  then show ?case
    by (subst (asm) (2) blocktype_from.simps) (auto simp: NSIZES_def split: if_splits)
qed

lemma blocktype_total:
  assumes "sz \<le> 2048"
  shows "\<exists>b. blocktype sz = Some b"
proof -
  have "blocktype_from i sz \<noteq> None" if "i \<le> 7" for i
    using that
  proof (induction "7 - i" arbitrary: i)
    case 0
    then have "i = 7" by simp
    then show ?case using assms by (subst blocktype_from.simps) (simp add: NSIZES_def sizes_def)
  next
    case (Suc d)
    then have "blocktype_from (i + 1) sz \<noteq> None" by simp
    then show ?case using Suc.prems by (subst blocktype_from.simps) (simp add: NSIZES_def)
  qed
  then show ?thesis unfolding blocktype_def by fastforce
qed

section \<open>Page addresses packed with a block type\<close>

lemma page_aligned_frame: "4096 dvd unat a \<Longrightarrow> a AND PAGE_FRAME = a"
  using unat_page_frame [of a] by (metis dvd_div_mult_self word_of_nat_of_unat)

lemma not_page_frame: "w AND NOT PAGE_FRAME = take_bit 12 (w :: u32)"
proof -
  have "NOT PAGE_FRAME = (mask 12 :: u32)" by (simp add: PAGE_FRAME_def mask_eq_exp_minus_1)
  then show ?thesis by (simp add: take_bit_eq_mask)
qed

lemma MKPAB_parts:
  assumes "4096 dvd unat a" "b < 8"
  shows "MKPAB a (word_of_nat b) AND PAGE_FRAME = a"
    and "MKPAB a (word_of_nat b) AND NOT PAGE_FRAME = word_of_nat b"
proof -
  have "MKPAB a (word_of_nat b) AND PAGE_FRAME = a AND PAGE_FRAME"
    unfolding MKPAB_def by (rule bit_word_eqI) (auto simp: bit_simps)
  then show "MKPAB a (word_of_nat b) AND PAGE_FRAME = a" by (simp add: page_aligned_frame [OF assms(1)])
  have "MKPAB a (word_of_nat b) AND NOT PAGE_FRAME = word_of_nat b AND NOT PAGE_FRAME"
    unfolding MKPAB_def by (rule bit_word_eqI) (auto simp: bit_simps)
  also have "\<dots> = word_of_nat b"
    using less_8_cases [OF assms(2)] unfolding not_page_frame by auto
  finally show "MKPAB a (word_of_nat b) AND NOT PAGE_FRAME = word_of_nat b" .
qed

lemma pageaddr_aligned: "4096 dvd unat (PR_PAGEADDR pr)"
  by (simp add: PR_PAGEADDR_def unat_page_frame)

section \<open>Linked lists\<close>

fun chain :: "(nat \<Rightarrow> nat option) \<Rightarrow> nat option \<Rightarrow> nat list \<Rightarrow> bool" where
  "chain nx b [] \<longleftrightarrow> b = None"
| "chain nx b (p # ps) \<longleftrightarrow> b = Some p \<and> chain nx (nx p) ps"

lemma chain_cong: "(\<And>p. p \<in> set ps \<Longrightarrow> nx p = nx' p) \<Longrightarrow> chain nx b ps = chain nx' b ps"
  by (induction ps arbitrary: b) auto

lemma chain_remove:
  assumes "chain nx b (us @ p # vs)" "distinct (us @ p # vs)"
  shows "us = [] \<Longrightarrow> b = Some p \<and> chain nx (nx p) vs"
    and "us \<noteq> [] \<Longrightarrow> chain (nx(last us := nx p)) b (us @ vs)"
proof -
  show "b = Some p \<and> chain nx (nx p) vs" if "us = []" using assms that by simp
  show "chain (nx(last us := nx p)) b (us @ vs)" if "us \<noteq> []"
    using that assms
  proof (induction us arbitrary: b)
    case (Cons u us)
    show ?case
    proof (cases "us = []")
      case True
      have "chain (nx(u := nx p)) (nx p) vs = chain nx (nx p) vs"
        using Cons.prems(3) by (intro chain_cong) auto
      then show ?thesis using Cons.prems True by (simp add: fun_upd_def)
    next
      case False
      then have "u \<noteq> last us" using Cons.prems(3) by (metis Cons_eq_appendI Un_iff distinct.simps(2) last_in_set set_append)
      then show ?thesis using Cons.IH [OF False, of "nx u"] Cons.prems False by (simp add: fun_upd_def)
    qed
  qed simp
qed

text \<open>The free blocks of a page, linked through memory.\<close>

fun flist :: "(u32 \<Rightarrow> u32) \<Rightarrow> u32 \<Rightarrow> u32 list \<Rightarrow> bool" where
  "flist m a [] \<longleftrightarrow> a = 0"
| "flist m a (x # xs) \<longleftrightarrow> a = x \<and> x \<noteq> 0 \<and> flist m (m x) xs"

lemma flist_cong: "(\<And>x. x \<in> set xs \<Longrightarrow> m x = m' x) \<Longrightarrow> flist m a xs = flist m' a xs"
  by (induction xs arbitrary: a) auto

section \<open>The table of page references as a pool of numbers\<close>

definition inuse_set :: "u32 list \<Rightarrow> nat set" where
  "inuse_set inuse = {p. p < 256 \<and> bit (inuse ! (p div 32)) (p mod 32)}"

definition pageref_alloc :: "u32 list \<Rightarrow> ((errno + nat) \<times> u32 list) option" where
  "pageref_alloc inuse = map_option (\<lambda>(r, i). (case r of None \<Rightarrow> Inl ENOMEM | Some p \<Rightarrow> Inr p, i)) (allocpageref inuse)"

declare inuse_scan.simps [simp del] allocpageref_from.simps [simp del]

lemma inuse_scan_from:
  assumes "j < 32" "\<not> bit w l" "j \<le> l" "l < 32" "\<And>i. j \<le> i \<Longrightarrow> i < l \<Longrightarrow> bit w i"
  shows "inuse_scan w (push_bit j 1) j = Some (l, w OR push_bit l 1)"
  using assms
proof (induction "l - j" arbitrary: j)
  case 0
  then have "j = l" by simp
  moreover have "push_bit l (1 :: u32) \<noteq> 0" using 0 by simp
  moreover have "w AND push_bit l 1 = 0" using 0 by (simp add: and_exp_eq_0_iff_not_bit)
  ultimately show ?case by (subst inuse_scan.simps) simp
next
  case (Suc d)
  then have j: "j < l" "bit w j" "j < 32" by auto
  have "push_bit j (1 :: u32) \<noteq> 0" using j by simp
  moreover have "w AND push_bit j 1 \<noteq> 0" using j by (simp add: and_exp_eq_0_iff_not_bit)
  moreover have "inuse_scan w (push_bit (j + 1) 1) (j + 1) = Some (l, w OR push_bit l 1)"
    using Suc by (intro Suc.hyps(1)) auto
  ultimately show ?case by (subst inuse_scan.simps) (simp add: mult.commute)
qed

lemma word_full_iff: "(w :: u32) = 0xffffffff \<longleftrightarrow> (\<forall>i<32. bit w i)"
proof -
  have "(0xffffffff :: u32) = - 1" by simp
  then show ?thesis unfolding \<open>0xffffffff = - 1\<close> by (auto simp: bit_simps intro!: bit_word_eqI)
qed

lemma allocpageref_from_outcome:
  assumes "length inuse = 8" "i \<le> 8" "\<And>p. p < i * 32 \<Longrightarrow> bit (inuse ! (p div 32)) (p mod 32)"
  shows "allocpageref_from i inuse =
    (if inuse_set inuse = {..<NPAGEREFS} then Some (None, inuse)
     else let p = (LEAST p. p \<notin> inuse_set inuse) in
       Some (Some p, inuse[p div 32 := (inuse ! (p div 32)) OR push_bit (p mod 32) 1]))"
  using assms(2,3)
proof (induction "8 - i" arbitrary: i)
  case 0
  then have "i = 8" by simp
  then have "inuse_set inuse = {..<NPAGEREFS}" using 0 by (auto simp: inuse_set_def NPAGEREFS_def)
  then show ?case using \<open>i = 8\<close> by (subst allocpageref_from.simps) (simp add: INUSE_WORDS_def)
next
  case (Suc d)
  then have i: "i < 8" by simp
  show ?case
  proof (cases "inuse ! i = 0xffffffff")
    case True
    have "bit (inuse ! (p div 32)) (p mod 32)" if "p < (i + 1) * 32" for p
    proof (cases "p < i * 32")
      case True
      then show ?thesis by (rule Suc.prems(2))
    next
      case False
      with that have "p div 32 = i" by (simp add: div_nat_eqI)
      then show ?thesis using True by (simp add: word_full_iff)
    qed
    with Suc i have "allocpageref_from (i + 1) inuse = (if inuse_set inuse = {..<NPAGEREFS} then Some (None, inuse)
     else let p = (LEAST p. p \<notin> inuse_set inuse) in
       Some (Some p, inuse[p div 32 := (inuse ! (p div 32)) OR push_bit (p mod 32) 1]))" by simp
    with True i assms(1) show ?thesis
      by (subst allocpageref_from.simps) (simp add: INUSE_WORDS_def)
  next
    case False
    define l where "l = (LEAST l. \<not> bit (inuse ! i) l)"
    obtain l' where l': "l' < 32" "\<not> bit (inuse ! i) l'" using False unfolding word_full_iff by blast
    have l: "\<not> bit (inuse ! i) l" unfolding l_def by (rule LeastI [where P = "\<lambda>l. \<not> bit (inuse ! i) l", OF l'(2)])
    have l32: "l < 32" using Least_le [of "\<lambda>l. \<not> bit (inuse ! i) l", OF l'(2)] l'(1) unfolding l_def by simp
    have below: "bit (inuse ! i) m" if "m < l" for m using not_less_Least that unfolding l_def by blast
    have scan: "inuse_scan (inuse ! i) 1 0 = Some (l, inuse ! i OR push_bit l 1)"
      using inuse_scan_from [of 0 "inuse ! i" l] l l32 below by simp
    have least: "(LEAST p. p \<notin> inuse_set inuse) = i * 32 + l"
    proof (rule Least_equality)
      show "i * 32 + l \<notin> inuse_set inuse" using l l32 i by (simp add: inuse_set_def)
      fix p
      assume p: "p \<notin> inuse_set inuse"
      show "i * 32 + l \<le> p"
      proof (rule ccontr)
        assume "\<not> i * 32 + l \<le> p"
        then have lt: "p < i * 32 + l" by simp
        have "bit (inuse ! (p div 32)) (p mod 32)"
        proof (cases "p < i * 32")
          case True
          then show ?thesis by (rule Suc.prems(2))
        next
          case False
          with lt l32 have pd: "p div 32 = i" by (simp add: div_nat_eqI)
          then have "p = i * 32 + p mod 32" by (metis div_mult_mod_eq)
          then have "p mod 32 < l" using lt by simp
          then show ?thesis using below pd by simp
        qed
        moreover have "p < 256" using lt l32 i by simp
        ultimately show False using p by (simp add: inuse_set_def)
      qed
    qed
    have "i * 32 + l \<notin> inuse_set inuse" using l l32 i by (simp add: inuse_set_def)
    moreover have "i * 32 + l \<in> {..<NPAGEREFS}" using i l32 by (simp add: NPAGEREFS_def)
    ultimately have "inuse_set inuse \<noteq> {..<NPAGEREFS}" by blast
    then show ?thesis
      using False i assms(1) scan l32
      by (subst allocpageref_from.simps) (simp add: INUSE_WORDS_def least Let_def)
  qed
qed

lemma allocpageref_outcome:
  assumes "length inuse = 8"
  shows "allocpageref inuse =
    (if inuse_set inuse = {..<NPAGEREFS} then Some (None, inuse)
     else let p = (LEAST p. p \<notin> inuse_set inuse) in
       Some (Some p, inuse[p div 32 := (inuse ! (p div 32)) OR push_bit (p mod 32) 1]))"
  unfolding allocpageref_def by (rule allocpageref_from_outcome [OF assms]) simp_all

lemma allocpageref_full:
  "length inuse = 8 \<Longrightarrow> inuse_set inuse = {..<NPAGEREFS} \<Longrightarrow> allocpageref inuse = Some (None, inuse)"
  by (simp only: allocpageref_outcome if_True refl)

lemma allocpageref_free:
  assumes "length inuse = 8" "inuse_set inuse \<noteq> {..<NPAGEREFS}"
  defines "p \<equiv> LEAST p. p \<notin> inuse_set inuse"
  shows "allocpageref inuse = Some (Some p, inuse[p div 32 := (inuse ! (p div 32)) OR push_bit (p mod 32) 1])"
  unfolding allocpageref_outcome [OF assms(1)] p_def Let_def using assms(2) by (rule if_not_P)

lemma inuse_set_mark:
  assumes "length inuse = 8" "p < 256"
  shows "inuse_set (inuse[p div 32 := (inuse ! (p div 32)) OR push_bit (p mod 32) 1]) = insert p (inuse_set inuse)"
    and "inuse_set (inuse[p div 32 := (inuse ! (p div 32)) AND NOT (push_bit (p mod 32) 1)]) = inuse_set inuse - {p}"
proof -
  have pd: "p div 32 < 8" using assms(2) by simp
  have other: "q div 32 \<noteq> p div 32 \<or> q mod 32 \<noteq> p mod 32" if "q \<noteq> p" for q
    using that by (metis div_mult_mod_eq)
  have bits: "bit ((inuse[p div 32 := inuse ! (p div 32) OR push_bit (p mod 32) 1]) ! (q div 32)) (q mod 32)
      \<longleftrightarrow> q = p \<or> bit (inuse ! (q div 32)) (q mod 32)"
    "bit ((inuse[p div 32 := inuse ! (p div 32) AND NOT (push_bit (p mod 32) 1)]) ! (q div 32)) (q mod 32)
      \<longleftrightarrow> q \<noteq> p \<and> bit (inuse ! (q div 32)) (q mod 32)" for q
    using pd assms(1) other [of q] by (cases "q = p"; auto simp: nth_list_update bit_simps)+
  show "inuse_set (inuse[p div 32 := (inuse ! (p div 32)) OR push_bit (p mod 32) 1]) = insert p (inuse_set inuse)"
    and "inuse_set (inuse[p div 32 := (inuse ! (p div 32)) AND NOT (push_bit (p mod 32) 1)]) = inuse_set inuse - {p}"
    unfolding inuse_set_def bits using assms(2) by auto
qed

lemma freepageref_outcome:
  assumes "length inuse = 8"
  shows "freepageref p inuse = (if p \<in> inuse_set inuse
    then Some (inuse[p div 32 := (inuse ! (p div 32)) AND NOT (push_bit (p mod 32) 1)]) else None)"
proof (cases "p < 256")
  case True
  then have "slot_get inuse (int (p div 32)) = Some (inuse ! (p div 32))" using assms by simp
  then show ?thesis
    using True by (simp add: freepageref_def ksimps NPAGEREFS_def inuse_set_def and_exp_eq_0_iff_not_bit Let_def)
qed (simp add: freepageref_def ksimps NPAGEREFS_def inuse_set_def)

lemma inuse_set_bound: "inuse_set inuse \<subseteq> {..<NPAGEREFS}"
  by (auto simp: inuse_set_def NPAGEREFS_def)

interpretation prefs: unit_pool pageref_alloc "\<lambda>s p. freepageref p s" inuse_set "\<lambda>_. NPAGEREFS"
  "\<lambda>inuse. length inuse = 8" ENOMEM
proof (unfold_locales, goal_cases)
  case (1 s)
  show ?case by (rule inuse_set_bound)
next
  case (2 s)
  then show ?case by (simp only: pageref_alloc_def allocpageref_full) simp
next
  case (3 s)
  let ?p = "LEAST i. i \<notin> inuse_set s"
  obtain q where q: "q \<notin> inuse_set s" "q < NPAGEREFS" using inuse_set_bound 3(2) by blast
  have "?p \<le> q" by (rule Least_le [where P = "\<lambda>i. i \<notin> inuse_set s", OF q(1)])
  then have p: "?p < 256" using q(2) by (simp add: NPAGEREFS_def)
  let ?s' = "s[?p div 32 := (s ! (?p div 32)) OR push_bit (?p mod 32) 1]"
  have "pageref_alloc s = Some (Inr ?p, ?s')"
    by (simp only: pageref_alloc_def allocpageref_free [OF 3]) simp
  moreover have "inuse_set ?s' = insert ?p (inuse_set s)" by (rule inuse_set_mark(1) [OF 3(1) p])
  ultimately show ?case using 3(1) by (intro exI [of _ ?s']) (simp only: length_list_update simp_thms)
next
  case (4 s p)
  have "p < 256" using 4(2) by (simp add: inuse_set_def)
  from inuse_set_mark(2) [OF 4(1) this] freepageref_outcome [OF 4(1), of p] 4 show ?case
    by (intro exI [of _ "s[p div 32 := s ! (p div 32) AND NOT (push_bit (p mod 32) 1)]"])
       (simp only: if_True length_list_update simp_thms)
qed

section \<open>Blocks of a page\<close>

definition kseg0_page :: "u32 \<Rightarrow> bool" where
  "kseg0_page a \<longleftrightarrow> 4096 dvd unat a \<and> 2 ^ 31 \<le> unat a \<and> unat a + 4096 \<le> 0xa0000000"

definition page_blocks :: "u32 \<Rightarrow> nat \<Rightarrow> u32 set" where
  "page_blocks a b = (\<lambda>j. a + word_of_nat (j * bsize b)) ` {..<nblk b}"

lemma block_index:
  assumes "b < 8" "j < nblk b"
  shows "j * bsize b + bsize b \<le> 4096"
proof -
  have "Suc j * bsize b \<le> nblk b * bsize b" using assms(2) by (intro mult_le_mono1) simp
  then show ?thesis using nblk_bsize [OF assms(1)] by simp
qed

lemma unat_block:
  assumes "kseg0_page a" "b < 8" "j < nblk b"
  shows "unat (a + word_of_nat (j * bsize b)) = unat a + j * bsize b"
  using assms(1) block_index [OF assms(2,3)] bsize_bounds(6) [OF assms(2)]
  by (intro unat_add_small) (simp add: kseg0_page_def)

lemma page_blocksD:
  assumes "kseg0_page a" "b < 8" "x \<in> page_blocks a b"
  shows "\<exists>j<nblk b. unat x = unat a + j * bsize b" "unat a \<le> unat x" "unat x + bsize b \<le> unat a + 4096"
    "x \<noteq> 0" "16 dvd unat x"
proof -
  obtain j where j: "j < nblk b" "x = a + word_of_nat (j * bsize b)" using assms(3) by (auto simp: page_blocks_def)
  have u: "unat x = unat a + j * bsize b" unfolding j(2) by (rule unat_block [OF assms(1,2) j(1)])
  then show "\<exists>j<nblk b. unat x = unat a + j * bsize b" "unat a \<le> unat x" using j(1) by auto
  show "unat x + bsize b \<le> unat a + 4096" using u block_index [OF assms(2) j(1)] by simp
  show "x \<noteq> 0" using u assms(1) by (auto simp: kseg0_page_def)
  have "(16 :: nat) dvd 4096" by (rule dvdI [of _ _ 256]) simp
  then have "16 dvd unat a" using assms(1) unfolding kseg0_page_def by (blast intro: dvd_trans)
  then show "16 dvd unat x" using u bsize_bounds(3) [OF assms(2)] by simp
qed

lemma page_blocksI:
  assumes "kseg0_page a" "b < 8" "unat x = unat a + j * bsize b" "j < nblk b"
  shows "x \<in> page_blocks a b"
proof -
  have "unat x = unat (a + word_of_nat (j * bsize b))" using assms(3) unat_block [OF assms(1,2,4)] by simp
  then have "x = a + word_of_nat (j * bsize b)" by (metis word_of_nat_of_unat)
  then show ?thesis using assms(4) by (auto simp: page_blocks_def)
qed

lemma blocks_apart_in_page:
  assumes "kseg0_page a" "b < 8" "x \<in> page_blocks a b" "y \<in> page_blocks a b" "x \<noteq> y"
  shows "unat x + bsize b \<le> unat y \<or> unat y + bsize b \<le> unat x"
proof -
  obtain i j where ij: "unat x = unat a + i * bsize b" "unat y = unat a + j * bsize b"
    using page_blocksD(1) [OF assms(1,2,3)] page_blocksD(1) [OF assms(1,2,4)] by blast
  have "i \<noteq> j" using ij assms(5) by (metis word_of_nat_of_unat)
  then have "Suc i * bsize b \<le> j * bsize b \<or> Suc j * bsize b \<le> i * bsize b"
    by (metis Suc_leI linorder_neqE_nat mult_le_mono1)
  then show ?thesis using ij by auto
qed

lemma card_page_blocks:
  assumes "kseg0_page a" "b < 8"
  shows "card (page_blocks a b) = nblk b" "finite (page_blocks a b)"
proof -
  have "inj_on (\<lambda>j. a + word_of_nat (j * bsize b)) {..<nblk b}"
  proof (rule inj_onI)
    fix i j
    assume "i \<in> {..<nblk b}" "j \<in> {..<nblk b}" "a + word_of_nat (i * bsize b) = a + word_of_nat (j * bsize b)"
    then have "unat a + i * bsize b = unat a + j * bsize b" using unat_block [OF assms] by (metis lessThan_iff)
    then show "i = j" using bsize_bounds(6) [OF assms(2)] by simp
  qed
  then show "card (page_blocks a b) = nblk b" by (simp add: page_blocks_def card_image)
  show "finite (page_blocks a b)" by (simp add: page_blocks_def)
qed

section \<open>A page and its free list\<close>

abbreviation pr_blk :: "pageref \<Rightarrow> nat" where
  "pr_blk pr \<equiv> unat (PR_BLOCKTYPE pr)"

definition pr_first :: "pageref \<Rightarrow> u32" where
  "pr_first pr = (if pr_freelist_offset pr = INVALID_OFFSET then 0 else PR_PAGEADDR pr + ucast (pr_freelist_offset pr))"

definition page_ok :: "(u32 \<Rightarrow> u32) \<Rightarrow> pageref \<Rightarrow> u32 list \<Rightarrow> bool" where
  "page_ok mem pr fs \<longleftrightarrow> pr_blk pr < 8 \<and> kseg0_page (PR_PAGEADDR pr) \<and> distinct fs \<and>
     set fs \<subseteq> page_blocks (PR_PAGEADDR pr) (pr_blk pr) \<and> unat (pr_nfree pr) = length fs \<and>
     flist mem (pr_first pr) fs \<and>
     (pr_freelist_offset pr \<noteq> INVALID_OFFSET \<longrightarrow> unat (pr_freelist_offset pr) < 4096)"

lemma page_okD:
  assumes "page_ok mem pr fs"
  shows "pr_blk pr < 8" "kseg0_page (PR_PAGEADDR pr)" "distinct fs"
    "set fs \<subseteq> page_blocks (PR_PAGEADDR pr) (pr_blk pr)" "unat (pr_nfree pr) = length fs"
    "flist mem (pr_first pr) fs" "pr_freelist_offset pr \<noteq> INVALID_OFFSET \<Longrightarrow> unat (pr_freelist_offset pr) < 4096"
  using assms by (simp_all add: page_ok_def)

lemma page_ok_length:
  assumes "page_ok mem pr fs"
  shows "length fs \<le> nblk (pr_blk pr)" "length fs \<le> 256"
proof -
  note D = page_okD [OF assms]
  have "card (set fs) \<le> card (page_blocks (PR_PAGEADDR pr) (pr_blk pr))"
    by (rule card_mono [OF card_page_blocks(2) [OF D(2,1)] D(4)])
  then show "length fs \<le> nblk (pr_blk pr)" using D(3) card_page_blocks(1) [OF D(2,1)] by (simp add: distinct_card)
  then show "length fs \<le> 256" using bsize_bounds(5) [OF D(1)] by simp
qed

lemma page_ok_mem_cong:
  "(\<And>x. x \<in> set fs \<Longrightarrow> mem x = mem' x) \<Longrightarrow> page_ok mem pr fs = page_ok mem' pr fs"
  using flist_cong [of fs mem mem'] by (simp add: page_ok_def)

lemma ucast_u16_u32: "unat (w :: u32) < 65536 \<Longrightarrow> ucast (ucast w :: u16) = w"
proof -
  assume w: "unat w < 65536"
  have "unat (ucast (ucast w :: u16) :: u32) = unat w"
    using w by (simp add: unsigned_ucast_eq) (simp add: unsigned_take_bit_eq take_bit_nat_eq_self)
  then show ?thesis by (metis word_of_nat_of_unat)
qed

lemma unat_ucast_u16: "unat (w :: u32) < 65536 \<Longrightarrow> unat (ucast w :: u16) = unat w"
  by (simp add: unsigned_ucast_eq take_bit_nat_eq_self_iff)

lemma page_offset:
  assumes "kseg0_page a" "unat a \<le> unat x" "unat x < unat a + 4096"
  shows "unat (x - a) = unat x - unat a" "unat (x - a) < 4096" "a + ucast (ucast (x - a) :: u16) = x"
    "unat (ucast (x - a) :: u16) < 4096" "(ucast (x - a) :: u16) \<noteq> INVALID_OFFSET" "x - a < PAGE_SIZE"
proof -
  show u: "unat (x - a) = unat x - unat a" using assms(2) by (simp add: unat_sub word_le_nat_alt)
  then show l: "unat (x - a) < 4096" using assms(2,3) by linarith
  then show "a + ucast (ucast (x - a) :: u16) = x" by (simp add: ucast_u16_u32)
  show l16: "unat (ucast (x - a) :: u16) < 4096" using l by (simp add: unat_ucast_u16)
  then show "(ucast (x - a) :: u16) \<noteq> INVALID_OFFSET" by (auto simp: INVALID_OFFSET_def)
  show "x - a < PAGE_SIZE" using l by (simp add: word_less_nat_alt PAGE_SIZE_def)
qed

lemma page_first:
  assumes "page_ok mem pr (x # fs)"
  shows "pr_freelist_offset pr \<noteq> INVALID_OFFSET" "PR_PAGEADDR pr + ucast (pr_freelist_offset pr) = x"
    "(ucast (pr_freelist_offset pr) :: u32) < PAGE_SIZE" "flist mem (mem x) fs"
proof -
  note D = page_okD [OF assms]
  have "x \<noteq> 0" "pr_first pr = x" using D(6) by auto
  then show o: "pr_freelist_offset pr \<noteq> INVALID_OFFSET" "PR_PAGEADDR pr + ucast (pr_freelist_offset pr) = x"
    by (auto simp: pr_first_def split: if_splits)
  show "(ucast (pr_freelist_offset pr) :: u32) < PAGE_SIZE"
    using D(7) [OF o(1)] by (simp add: word_less_nat_alt PAGE_SIZE_def unsigned_ucast_eq take_bit_nat_eq_self)
  show "flist mem (mem x) fs" using D(6) by simp
qed

lemma doalloc_page:
  assumes "p < length (hp_pagerefs s)" "hp_pagerefs s ! p = pr" "page_ok (hp_mem s) pr (x # fs)"
  shows "\<exists>off n. doalloc p s = Some (x, s\<lparr> hp_pagerefs := (hp_pagerefs s)
      [p := pr\<lparr> pr_nfree := n, pr_freelist_offset := off \<rparr>] \<rparr>) \<and>
    page_ok (hp_mem s) (pr\<lparr> pr_nfree := n, pr_freelist_offset := off \<rparr>) fs"
proof -
  let ?a = "PR_PAGEADDR pr" and ?m = "hp_mem s"
  note D = page_okD [OF assms(3)] and F = page_first [OF assms(3)]
  have nf: "unat (pr_nfree pr - 1) = length fs" using D(5) by (simp add: unat_sub word_le_nat_alt)
  have pa: "PR_PAGEADDR (pr\<lparr> pr_nfree := n, pr_freelist_offset := off \<rparr>) = ?a"
    "PR_BLOCKTYPE (pr\<lparr> pr_nfree := n, pr_freelist_offset := off \<rparr>) = PR_BLOCKTYPE pr" for n off
    by (simp_all add: PR_PAGEADDR_def PR_BLOCKTYPE_def)
  show ?thesis
  proof (cases fs)
    case Nil
    then have "?m x = 0" using F(4) by simp
    moreover have "pr_nfree pr - 1 = 0" using nf Nil by (simp add: unat_eq_zero)
    ultimately have "doalloc p s = Some (x, s\<lparr> hp_pagerefs := (hp_pagerefs s)
        [p := pr\<lparr> pr_nfree := 0, pr_freelist_offset := INVALID_OFFSET \<rparr>] \<rparr>)"
      using assms(1,2) F(2,3) by (simp add: doalloc_def ksimps)
    moreover have "page_ok ?m (pr\<lparr> pr_nfree := 0, pr_freelist_offset := INVALID_OFFSET \<rparr>) fs"
      using D Nil by (simp add: page_ok_def pa pr_first_def)
    ultimately show ?thesis by blast
  next
    case (Cons y ys)
    then have y: "?m x = y" "y \<noteq> 0" using F(4) by auto
    have "y \<in> page_blocks ?a (pr_blk pr)" using D(4) Cons by simp
    note B = page_blocksD [OF D(2,1) this]
    have "unat y < unat ?a + 4096" using B(3) bsize_bounds(6) [OF D(1)] by simp
    note O = page_offset [OF D(2) B(2) this]
    let ?pr = "pr\<lparr> pr_nfree := pr_nfree pr - 1, pr_freelist_offset := ucast (y - ?a) \<rparr>"
    have "0 < pr_nfree pr - 1" using nf Cons by (simp add: word_less_nat_alt)
    then have "doalloc p s = Some (x, s\<lparr> hp_pagerefs := (hp_pagerefs s)[p := ?pr] \<rparr>)"
      using assms(1,2) F(2,3) y O(6) by (simp add: doalloc_def ksimps)
    moreover have "page_ok ?m ?pr fs"
      using D nf O F(4) y Cons by (simp add: page_ok_def pa pr_first_def)
    ultimately show ?thesis by blast
  qed
qed

lemma page_ok_push:
  assumes ok: "page_ok mem pr fs" and x: "x \<in> page_blocks (PR_PAGEADDR pr) (pr_blk pr)" "x \<notin> set fs"
    and mem: "mem' x = pr_first pr" "\<And>y. y \<in> set fs \<Longrightarrow> mem' y = mem y"
  shows "page_ok mem' (pr\<lparr> pr_freelist_offset := ucast (x - PR_PAGEADDR pr), pr_nfree := pr_nfree pr + 1 \<rparr>) (x # fs)"
    and "unat (pr_nfree pr + 1) = length fs + 1"
proof -
  let ?a = "PR_PAGEADDR pr"
  let ?pr = "pr\<lparr> pr_freelist_offset := ucast (x - ?a), pr_nfree := pr_nfree pr + 1 \<rparr>"
  note D = page_okD [OF ok]
  note B = page_blocksD [OF D(2,1) x(1)]
  have "unat x < unat ?a + 4096" using B(3) bsize_bounds(6) [OF D(1)] by simp
  note O = page_offset [OF D(2) B(2) this]
  have "length fs \<le> 256" by (rule page_ok_length(2) [OF ok])
  then show n: "unat (pr_nfree pr + 1) = length fs + 1"
    using D(5) by (simp add: unat_word_ariths)
  have pa: "PR_PAGEADDR ?pr = ?a" "PR_BLOCKTYPE ?pr = PR_BLOCKTYPE pr"
    by (simp_all add: PR_PAGEADDR_def PR_BLOCKTYPE_def)
  have first: "pr_first ?pr = x" using O(3,5) by (simp add: pr_first_def pa)
  have "flist mem' (pr_first pr) fs" using D(6) flist_cong [of fs mem' mem] mem(2) by simp
  then have "flist mem' (pr_first ?pr) (x # fs)" using first B(4) mem(1) by simp
  then show "page_ok mem' ?pr (x # fs)"
    using D x n O(4) unfolding page_ok_def pa by simp
qed

declare link_blocks.simps [simp del] blocktype_from.simps [simp del]

lemma link_blocks_flist:
  assumes "kseg0_page a" "b < 8" "1 \<le> i" "i \<le> n" "n \<le> nblk b"
    "flist m (a + word_of_nat ((i - 1) * bsize b)) (map (\<lambda>j. a + word_of_nat (j * bsize b)) (rev [0..<i]))"
  shows "\<exists>m'. link_blocks i n a (sizes ! b) m = Some m' \<and>
    flist m' (a + word_of_nat ((n - 1) * bsize b)) (map (\<lambda>j. a + word_of_nat (j * bsize b)) (rev [0..<n])) \<and>
    (\<forall>x. x \<notin> page_blocks a b \<longrightarrow> m' x = m x)"
  using assms(3,4,6)
proof (induction "n - i" arbitrary: i m)
  case 0
  then have "i = n" by simp
  then show ?case using 0 by (subst link_blocks.simps) simp
next
  case (Suc d)
  let ?blk = "\<lambda>j. a + word_of_nat (j * bsize b)"
  have i: "i < n" "i < nblk b" using Suc assms(5) by auto
  have fl: "a + word_of_nat i * sizes ! b = ?blk i" "a + (word_of_nat i - 1) * sizes ! b = ?blk (i - 1)"
    using Suc.prems(1) by (simp_all add: sizes_word [OF assms(2)])
  have u: "unat (?blk j) = unat a + j * bsize b" if "j \<le> i" for j
    using that i(2) by (intro unat_block [OF assms(1,2)]) simp
  have ne: "?blk i \<noteq> ?blk j" if "j < i" for j
  proof
    assume "?blk i = ?blk j"
    then have "unat (?blk i) = unat (?blk j)" by simp
    then show False using u [of i] u [of j] that bsize_bounds(6) [OF assms(2)] by simp
  qed
  have "?blk i \<noteq> 0" using u [of i] assms(1) by (auto simp: kseg0_page_def)
  let ?m = "m(?blk i := ?blk (i - 1))"
  have "flist ?m (?blk (i - 1)) (map ?blk (rev [0..<i])) = flist m (?blk (i - 1)) (map ?blk (rev [0..<i]))"
  proof (rule flist_cong)
    fix x
    assume "x \<in> set (map ?blk (rev [0..<i]))"
    then obtain j where "j < i" "x = ?blk j" by (auto simp del: of_nat_mult)
    then show "?m x = m x" using ne [of j] by (simp del: of_nat_mult)
  qed
  then have "flist ?m (?blk (i + 1 - 1)) (map ?blk (rev [0..<i + 1]))"
    using Suc.prems(3) \<open>?blk i \<noteq> 0\<close> by simp
  moreover have "d = n - (i + 1)" "1 \<le> i + 1" "i + 1 \<le> n" using Suc.hyps(2) i by auto
  ultimately obtain m' where m':
    "link_blocks (i + 1) n a (sizes ! b) ?m = Some m'" "flist m' (?blk (n - 1)) (map ?blk (rev [0..<n]))"
    "\<forall>x. x \<notin> page_blocks a b \<longrightarrow> m' x = ?m x" using Suc.hyps(1) [of "i + 1" ?m] by blast
  have "link_blocks i n a (sizes ! b) m = link_blocks (i + 1) n a (sizes ! b) ?m"
    using i fl ne [of "i - 1"] Suc.prems(1) by (subst link_blocks.simps) (simp add: ksimps Let_def)
  moreover have "?blk i \<in> page_blocks a b" using i(2) by (auto simp: page_blocks_def)
  ultimately show ?case using m' by (intro exI [of _ m']) auto
qed

lemma fresh_page_done:
  assumes a: "kseg0_page a" and b: "b < 8" and p: "p < length (hp_pagerefs s)" and sb: "length (hp_sizebases s) = 8"
  shows "\<exists>m pr fs. fresh_page p b a s = Some (s\<lparr> hp_mem := m, hp_pagerefs := (hp_pagerefs s)[p := pr],
        hp_sizebases := (hp_sizebases s)[b := Some p], hp_allbase := Some p \<rparr>) \<and>
      page_ok m pr fs \<and> set fs = page_blocks a b \<and> PR_PAGEADDR pr = a \<and> PR_BLOCKTYPE pr = word_of_nat b \<and>
      pr_next_samesize pr = hp_sizebases s ! b \<and> pr_next_all pr = hp_allbase s \<and>
      (\<forall>x. x \<notin> page_blocks a b \<longrightarrow> m x = hp_mem s x)"
proof -
  let ?blk = "\<lambda>j. a + word_of_nat (j * bsize b)" and ?n = "nblk b"
  let ?fs = "map ?blk (rev [0..<?n])"
  have n: "2 \<le> ?n" "?n \<le> 256" "0 < bsize b" using bsize_bounds [OF b] by auto
  have nb: "?n * bsize b = 4096" by (rule nblk_bsize [OF b])
  have "unat (PAGE_SIZE div sizes ! b) = ?n"
    by (simp add: unat_div unat_sizes [OF b] PAGE_SIZE_def nblk_def)
  then have nf: "unat (ucast (PAGE_SIZE div sizes ! b) :: u16) = ?n" using n by (simp add: unat_ucast_u16)
  have u: "unat (?blk j) = unat a + j * bsize b" if "j < ?n" for j by (rule unat_block [OF a b that])
  have "flist ((hp_mem s)(a := 0)) (a + word_of_nat ((1 - 1) * bsize b)) (map ?blk (rev [0..<1]))"
    using a by (auto simp: kseg0_page_def)
  from link_blocks_flist [OF a b _ _ _ this, of ?n] n obtain m where
    m: "link_blocks 1 ?n a (sizes ! b) ((hp_mem s)(a := 0)) = Some m" "flist m (?blk (?n - 1)) ?fs"
      "\<forall>x. x \<notin> page_blocks a b \<longrightarrow> m x = ((hp_mem s)(a := 0)) x" by auto
  have last: "unat (?blk (?n - 1)) = unat a + (?n - 1) * bsize b" using n by (intro u) simp
  have "(?n - 1) * bsize b + bsize b = 4096" using nb bsize_bounds(2) [OF b] by (simp add: diff_mult_distrib)
  then have lt: "unat (?blk (?n - 1)) < unat a + 4096" and off: "(?n - 1) * bsize b < 4096"
    using last n(3) by linarith+
  have fla: "a + (word_of_nat ?n - 1) * sizes ! b = ?blk (?n - 1)"
    using n by (simp add: sizes_word [OF b])
  have "unat (PAGE_SIZE div sizes ! b) < 65536" using \<open>unat (PAGE_SIZE div sizes ! b) = ?n\<close> n(2) by simp
  then have nfw: "(ucast (ucast (PAGE_SIZE div sizes ! b) :: u16) :: u32) = word_of_nat ?n"
    using \<open>unat (PAGE_SIZE div sizes ! b) = ?n\<close> ucast_u16_u32 word_of_nat_of_unat by metis
  have "unat a \<le> unat (?blk (?n - 1))" using last by simp
  note O = page_offset [OF a this lt]
  have chk: "(ucast (ucast (?blk (?n - 1) - a) :: u16) :: u32) = (word_of_nat ?n - 1) * sizes ! b"
    using O(3) fla by (metis add_diff_cancel_left')
  let ?pr = "(hp_pagerefs s ! p)\<lparr> pr_pab := MKPAB a (word_of_nat b), pr_nfree := ucast (PAGE_SIZE div sizes ! b),
    pr_freelist_offset := ucast (?blk (?n - 1) - a), pr_next_samesize := hp_sizebases s ! b,
    pr_next_all := hp_allbase s \<rparr>"
  have pa: "PR_PAGEADDR ?pr = a" "PR_BLOCKTYPE ?pr = word_of_nat b"
    using MKPAB_parts [of a b] a b by (simp_all add: PR_PAGEADDR_def PR_BLOCKTYPE_def kseg0_page_def)
  have ub: "unat (word_of_nat b :: u32) = b" using b by (intro unat_of_nat_small) simp
  have sets: "set ?fs = page_blocks a b" by (auto simp: page_blocks_def)
  have "inj_on ?blk {..<?n}"
    using u n(3) by (intro inj_onI) (metis add_left_cancel lessThan_iff mult_cancel2 not_gr_zero)
  then have "distinct ?fs" by (auto simp: distinct_map inj_on_def)
  moreover have "pr_first ?pr = ?blk (?n - 1)" using O(3,5) pa by (simp add: pr_first_def)
  ultimately have "page_ok m ?pr ?fs"
    unfolding page_ok_def pa ub sets using a b nf m(2) O(4) by simp
  moreover have "fresh_page p b a s = Some (s\<lparr> hp_mem := m, hp_pagerefs := (hp_pagerefs s)[p := ?pr],
      hp_sizebases := (hp_sizebases s)[b := Some p], hp_allbase := Some p \<rparr>)"
    using p m(1) chk unfolding fresh_page_def Let_def nf nfw fla by (simp add: ksimps)
  moreover have "a \<in> page_blocks a b" using n(1) by (intro page_blocksI [OF a b, where j = 0]) simp_all
  then have "\<forall>x. x \<notin> page_blocks a b \<longrightarrow> m x = hp_mem s x" using m(3) by auto
  ultimately show ?thesis using pa sets by (intro exI [of _ m] exI [of _ ?pr] exI [of _ ?fs]) simp
qed

section \<open>Walks\<close>

lemma find_free_page_chain:
  assumes "chain (\<lambda>p. pr_next_samesize (prs ! p)) base qs" "length qs \<le> fuel"
    "\<And>p. p \<in> set qs \<Longrightarrow> p < length prs \<and> PR_BLOCKTYPE (prs ! p) = word_of_nat b"
  shows "\<exists>r. find_free_page fuel b base prs = Some r \<and>
    (case r of None \<Rightarrow> \<forall>p\<in>set qs. pr_nfree (prs ! p) = 0 | Some p \<Rightarrow> p \<in> set qs \<and> 0 < pr_nfree (prs ! p))"
  using assms
proof (induction qs arbitrary: base fuel)
  case Nil
  then show ?case by simp
next
  case (Cons q qs)
  obtain f where f: "fuel = Suc f" using Cons.prems(2) by (cases fuel) auto
  have q: "base = Some q" "q < length prs" "PR_BLOCKTYPE (prs ! q) = word_of_nat b"
    using Cons.prems(1,3) by auto
  show ?case
  proof (cases "0 < pr_nfree (prs ! q)")
    case True
    then show ?thesis using q f by (simp add: ksimps)
  next
    case False
    then have z: "pr_nfree (prs ! q) = 0" by (simp add: word_gt_0)
    obtain r where r: "find_free_page f b (pr_next_samesize (prs ! q)) prs = Some r"
      "case r of None \<Rightarrow> \<forall>p\<in>set qs. pr_nfree (prs ! p) = 0 | Some p \<Rightarrow> p \<in> set qs \<and> 0 < pr_nfree (prs ! p)"
      using Cons.IH [of "pr_next_samesize (prs ! q)" f] Cons.prems f by auto
    have "find_free_page fuel b base prs = Some r" using q f False r(1) by (simp add: ksimps)
    then show ?thesis using r(2) z by (intro exI [of _ r]) (auto split: option.splits)
  qed
qed

definition in_page :: "u32 \<Rightarrow> pageref \<Rightarrow> bool" where
  "in_page addr pr \<longleftrightarrow> PR_PAGEADDR pr \<le> addr \<and> addr < PR_PAGEADDR pr + PAGE_SIZE"

lemma find_owner_chain:
  assumes "chain (\<lambda>p. pr_next_all (prs ! p)) base ps" "length ps \<le> fuel"
    "\<And>p. p \<in> set ps \<Longrightarrow> p < length prs \<and> pr_blk (prs ! p) < 8"
  shows "\<exists>r. find_owner fuel addr base prs = Some r \<and>
    (case r of None \<Rightarrow> \<forall>p\<in>set ps. \<not> in_page addr (prs ! p) | Some p \<Rightarrow> p \<in> set ps \<and> in_page addr (prs ! p))"
  using assms
proof (induction ps arbitrary: base fuel)
  case Nil
  then show ?case by simp
next
  case (Cons q ps)
  obtain f where f: "fuel = Suc f" using Cons.prems(2) by (cases fuel) auto
  have q: "base = Some q" "q < length prs" using Cons.prems(1,3) by auto
  have "PR_BLOCKTYPE (prs ! q) < word_of_nat NSIZES"
    using Cons.prems(3) [of q] by (simp add: word_less_nat_alt NSIZES_def)
  note step = q f this
  show ?case
  proof (cases "in_page addr (prs ! q)")
    case True
    then show ?thesis using step by (simp add: ksimps in_page_def)
  next
    case False
    obtain r where r: "find_owner f addr (pr_next_all (prs ! q)) prs = Some r"
      "case r of None \<Rightarrow> \<forall>p\<in>set ps. \<not> in_page addr (prs ! p) | Some p \<Rightarrow> p \<in> set ps \<and> in_page addr (prs ! p)"
      using Cons.IH [of "pr_next_all (prs ! q)" f] Cons.prems f by auto
    have "find_owner fuel addr base prs = Some r" using step False r(1) by (auto simp: ksimps in_page_def)
    then show ?thesis using r(2) False by (intro exI [of _ r]) (auto split: option.splits)
  qed
qed

section \<open>Taking a page out of its lists\<close>

lemma unlink_all_chain:
  assumes "chain (\<lambda>p. pr_next_all (hp_pagerefs s ! p)) link (us @ p # vs)" "length us < fuel" "p \<notin> set us"
    "\<And>q. q \<in> set (us @ p # vs) \<Longrightarrow> q < length (hp_pagerefs s)"
    "case prev of None \<Rightarrow> hp_allbase s = link
       | Some q \<Rightarrow> q < length (hp_pagerefs s) \<and> pr_next_all (hp_pagerefs s ! q) = link"
  shows "unlink_all fuel p prev s = Some (case (if us = [] then prev else Some (last us)) of
      None \<Rightarrow> s\<lparr> hp_allbase := pr_next_all (hp_pagerefs s ! p) \<rparr>
    | Some q \<Rightarrow> s\<lparr> hp_pagerefs := (hp_pagerefs s)
        [q := (hp_pagerefs s ! q)\<lparr> pr_next_all := pr_next_all (hp_pagerefs s ! p) \<rparr>] \<rparr>)"
  using assms
proof (induction us arbitrary: link prev fuel)
  case Nil
  then obtain f where "fuel = Suc f" by (cases fuel) auto
  with Nil show ?case by (cases prev) simp_all
next
  case (Cons u us)
  then obtain f where f: "fuel = Suc f" by (cases fuel) auto
  have "unlink_all f p (Some u) s = Some (case (if us = [] then Some u else Some (last us)) of
      None \<Rightarrow> s\<lparr> hp_allbase := pr_next_all (hp_pagerefs s ! p) \<rparr>
    | Some q \<Rightarrow> s\<lparr> hp_pagerefs := (hp_pagerefs s)
        [q := (hp_pagerefs s ! q)\<lparr> pr_next_all := pr_next_all (hp_pagerefs s ! p) \<rparr>] \<rparr>)"
    using Cons.prems f by (intro Cons.IH [where link = "pr_next_all (hp_pagerefs s ! u)"]) auto
  moreover have "link = Some u" "u \<noteq> p" using Cons.prems(1,3) by auto
  then have "unlink_all fuel p prev s = unlink_all f p (Some u) s"
    using Cons.prems(5) f by (cases prev) simp_all
  ultimately show ?case by simp
qed

lemma unlink_samesize_chain:
  assumes "chain (\<lambda>p. pr_next_samesize (hp_pagerefs s ! p)) link (us @ p # vs)" "length us < fuel" "p \<notin> set us"
    "\<And>q. q \<in> set (us @ p # vs) \<Longrightarrow> q < length (hp_pagerefs s)" "b < length (hp_sizebases s)"
    "case prev of None \<Rightarrow> hp_sizebases s ! b = link
       | Some q \<Rightarrow> q < length (hp_pagerefs s) \<and> pr_next_samesize (hp_pagerefs s ! q) = link"
  shows "unlink_samesize fuel p b prev s = Some (case (if us = [] then prev else Some (last us)) of
      None \<Rightarrow> s\<lparr> hp_sizebases := (hp_sizebases s)[b := pr_next_samesize (hp_pagerefs s ! p)] \<rparr>
    | Some q \<Rightarrow> s\<lparr> hp_pagerefs := (hp_pagerefs s)
        [q := (hp_pagerefs s ! q)\<lparr> pr_next_samesize := pr_next_samesize (hp_pagerefs s ! p) \<rparr>] \<rparr>)"
  using assms
proof (induction us arbitrary: link prev fuel)
  case Nil
  then obtain f where "fuel = Suc f" by (cases fuel) auto
  with Nil show ?case by (cases prev) simp_all
next
  case (Cons u us)
  then obtain f where f: "fuel = Suc f" by (cases fuel) auto
  have "unlink_samesize f p b (Some u) s = Some (case (if us = [] then Some u else Some (last us)) of
      None \<Rightarrow> s\<lparr> hp_sizebases := (hp_sizebases s)[b := pr_next_samesize (hp_pagerefs s ! p)] \<rparr>
    | Some q \<Rightarrow> s\<lparr> hp_pagerefs := (hp_pagerefs s)
        [q := (hp_pagerefs s ! q)\<lparr> pr_next_samesize := pr_next_samesize (hp_pagerefs s ! p) \<rparr>] \<rparr>)"
    using Cons.prems f by (intro Cons.IH [where link = "pr_next_samesize (hp_pagerefs s ! u)"]) auto
  moreover have "link = Some u" "u \<noteq> p" using Cons.prems(1,3) by auto
  then have "unlink_samesize fuel p b prev s = unlink_samesize f p b (Some u) s"
    using Cons.prems(5,6) f by (cases prev) simp_all
  ultimately show ?case by simp
qed

text \<open>The fields of a page reference other than its links.\<close>

definition same_pages :: "pageref list \<Rightarrow> pageref list \<Rightarrow> bool" where
  "same_pages prs prs' \<longleftrightarrow> length prs' = length prs \<and>
     (\<forall>i<length prs. pr_pab (prs' ! i) = pr_pab (prs ! i) \<and> pr_nfree (prs' ! i) = pr_nfree (prs ! i) \<and>
        pr_freelist_offset (prs' ! i) = pr_freelist_offset (prs ! i))"

lemma same_pages_trans: "same_pages a b \<Longrightarrow> same_pages b c \<Longrightarrow> same_pages a c"
  by (simp add: same_pages_def)

lemma unlink_all_done:
  assumes "chain (\<lambda>p. pr_next_all (hp_pagerefs s ! p)) (hp_allbase s) ps" "distinct ps" "p \<in> set ps"
    "length ps \<le> fuel" "\<And>q. q \<in> set ps \<Longrightarrow> q < length (hp_pagerefs s)"
  shows "\<exists>prs ab. unlink_all fuel p None s = Some (s\<lparr> hp_pagerefs := prs, hp_allbase := ab \<rparr>) \<and>
    same_pages (hp_pagerefs s) prs \<and> (\<forall>i<length prs. pr_next_samesize (prs ! i) = pr_next_samesize (hp_pagerefs s ! i)) \<and>
    chain (\<lambda>p. pr_next_all (prs ! p)) ab (remove1 p ps)"
proof -
  obtain us vs where ps: "ps = us @ p # vs" "p \<notin> set us" using split_list_first [OF assms(3)] by blast
  let ?prs = "hp_pagerefs s" and ?nx = "\<lambda>q. pr_next_all (hp_pagerefs s ! q)"
  have U: "unlink_all fuel p None s = Some (case (if us = [] then None else Some (last us)) of
      None \<Rightarrow> s\<lparr> hp_allbase := ?nx p \<rparr>
    | Some q \<Rightarrow> s\<lparr> hp_pagerefs := ?prs[q := (?prs ! q)\<lparr> pr_next_all := ?nx p \<rparr>] \<rparr>)"
    using assms(1,4,5) unfolding ps(1) by (intro unlink_all_chain [OF _ _ ps(2)]) auto
  note R = chain_remove [OF assms(1) [unfolded ps(1)] assms(2) [unfolded ps(1)]]
  have rm: "remove1 p ps = us @ vs" using ps by (simp add: remove1_append)
  show ?thesis
  proof (cases "us = []")
    case True
    have "unlink_all fuel p None s = Some (s\<lparr> hp_pagerefs := ?prs, hp_allbase := ?nx p \<rparr>)" using U True by simp
    then show ?thesis using R(1) True rm
      by (intro exI [of _ ?prs] exI [of _ "?nx p"]) (simp add: same_pages_def)
  next
    case False
    let ?q = "last us"
    let ?prs' = "?prs[?q := (?prs ! ?q)\<lparr> pr_next_all := ?nx p \<rparr>]"
    have q: "?q < length ?prs" using False assms(5) ps(1) by simp
    have "(\<lambda>i. pr_next_all (?prs' ! i)) i = (?nx(?q := ?nx p)) i" for i
      using q by (simp add: nth_list_update)
    then have "(\<lambda>i. pr_next_all (?prs' ! i)) = ?nx(?q := ?nx p)" by (rule ext)
    then have "chain (\<lambda>i. pr_next_all (?prs' ! i)) (hp_allbase s) (us @ vs)" using R(2) [OF False] by simp
    moreover have "unlink_all fuel p None s = Some (s\<lparr> hp_pagerefs := ?prs', hp_allbase := hp_allbase s \<rparr>)"
      using U False by simp
    ultimately show ?thesis using q rm
      by (intro exI [of _ ?prs'] exI [of _ "hp_allbase s"]) (auto simp: same_pages_def nth_list_update)
  qed
qed

lemma unlink_samesize_done:
  assumes "chain (\<lambda>p. pr_next_samesize (hp_pagerefs s ! p)) (hp_sizebases s ! b) qs" "distinct qs" "p \<in> set qs"
    "length qs \<le> fuel" "\<And>q. q \<in> set qs \<Longrightarrow> q < length (hp_pagerefs s)" "b < length (hp_sizebases s)"
  shows "\<exists>prs v. unlink_samesize fuel p b None s = Some (s\<lparr> hp_pagerefs := prs, hp_sizebases := (hp_sizebases s)[b := v] \<rparr>) \<and>
    same_pages (hp_pagerefs s) prs \<and>
    (\<forall>i<length prs. pr_next_all (prs ! i) = pr_next_all (hp_pagerefs s ! i) \<and>
       (i \<notin> set qs \<longrightarrow> pr_next_samesize (prs ! i) = pr_next_samesize (hp_pagerefs s ! i))) \<and>
    chain (\<lambda>p. pr_next_samesize (prs ! p)) v (remove1 p qs)"
proof -
  obtain us vs where qs: "qs = us @ p # vs" "p \<notin> set us" using split_list_first [OF assms(3)] by blast
  let ?prs = "hp_pagerefs s" and ?nx = "\<lambda>q. pr_next_samesize (hp_pagerefs s ! q)"
  have U: "unlink_samesize fuel p b None s = Some (case (if us = [] then None else Some (last us)) of
      None \<Rightarrow> s\<lparr> hp_sizebases := (hp_sizebases s)[b := ?nx p] \<rparr>
    | Some q \<Rightarrow> s\<lparr> hp_pagerefs := ?prs[q := (?prs ! q)\<lparr> pr_next_samesize := ?nx p \<rparr>] \<rparr>)"
    using assms(1,4,5,6) unfolding qs(1) by (intro unlink_samesize_chain [OF _ _ qs(2)]) auto
  note R = chain_remove [OF assms(1) [unfolded qs(1)] assms(2) [unfolded qs(1)]]
  have rm: "remove1 p qs = us @ vs" using qs by (simp add: remove1_append)
  show ?thesis
  proof (cases "us = []")
    case True
    have "unlink_samesize fuel p b None s =
        Some (s\<lparr> hp_pagerefs := ?prs, hp_sizebases := (hp_sizebases s)[b := ?nx p] \<rparr>)" using U True by simp
    then show ?thesis using R(1) True rm
      by (intro exI [of _ ?prs] exI [of _ "?nx p"]) (simp add: same_pages_def)
  next
    case False
    let ?q = "last us"
    let ?prs' = "?prs[?q := (?prs ! ?q)\<lparr> pr_next_samesize := ?nx p \<rparr>]"
    have q: "?q < length ?prs" "?q \<in> set qs" using False assms(5) qs(1) by simp_all
    have "(\<lambda>i. pr_next_samesize (?prs' ! i)) i = (?nx(?q := ?nx p)) i" for i
      using q by (simp add: nth_list_update)
    then have "(\<lambda>i. pr_next_samesize (?prs' ! i)) = ?nx(?q := ?nx p)" by (rule ext)
    then have "chain (\<lambda>i. pr_next_samesize (?prs' ! i)) (hp_sizebases s ! b) (us @ vs)" using R(2) [OF False] by simp
    moreover have "unlink_samesize fuel p b None s =
        Some (s\<lparr> hp_pagerefs := ?prs', hp_sizebases := (hp_sizebases s)[b := hp_sizebases s ! b] \<rparr>)"
      using U False by simp
    ultimately show ?thesis using q rm
      by (intro exI [of _ ?prs'] exI [of _ "hp_sizebases s ! b"]) (auto simp: same_pages_def nth_list_update)
  qed
qed

lemma remove_lists_done:
  assumes all: "chain (\<lambda>p. pr_next_all (hp_pagerefs s ! p)) (hp_allbase s) ps" "distinct ps" "p \<in> set ps"
      "\<And>q. q \<in> set ps \<Longrightarrow> q < length (hp_pagerefs s)"
    and same: "chain (\<lambda>p. pr_next_samesize (hp_pagerefs s ! p)) (hp_sizebases s ! b) qs" "distinct qs" "p \<in> set qs"
      "set qs \<subseteq> set ps"
    and b: "b < 8" "length (hp_sizebases s) = 8" and len: "length ps \<le> NPAGEREFS"
  shows "\<exists>prs v ab. remove_lists p b s =
      Some (s\<lparr> hp_pagerefs := prs, hp_sizebases := (hp_sizebases s)[b := v], hp_allbase := ab \<rparr>) \<and>
    same_pages (hp_pagerefs s) prs \<and>
    (\<forall>i<length prs. i \<notin> set qs \<longrightarrow> pr_next_samesize (prs ! i) = pr_next_samesize (hp_pagerefs s ! i)) \<and>
    chain (\<lambda>p. pr_next_samesize (prs ! p)) v (remove1 p qs) \<and>
    chain (\<lambda>p. pr_next_all (prs ! p)) ab (remove1 p ps)"
proof -
  have lq: "length qs \<le> NPAGEREFS + 1" "length ps \<le> NPAGEREFS + 1"
    using len same(2,4) all(2) card_mono [OF _ same(4)] by (simp_all add: distinct_card)
  have qlt: "q < length (hp_pagerefs s)" if "q \<in> set qs" for q using that same(4) all(4) by blast
  from unlink_samesize_done [OF same(1-3) lq(1) qlt] b obtain prs v where
    U: "unlink_samesize (NPAGEREFS + 1) p b None s = Some (s\<lparr> hp_pagerefs := prs, hp_sizebases := (hp_sizebases s)[b := v] \<rparr>)"
      "same_pages (hp_pagerefs s) prs"
      "\<forall>i<length prs. pr_next_all (prs ! i) = pr_next_all (hp_pagerefs s ! i) \<and>
         (i \<notin> set qs \<longrightarrow> pr_next_samesize (prs ! i) = pr_next_samesize (hp_pagerefs s ! i))"
      "chain (\<lambda>p. pr_next_samesize (prs ! p)) v (remove1 p qs)" by auto
  let ?s = "s\<lparr> hp_pagerefs := prs, hp_sizebases := (hp_sizebases s)[b := v] \<rparr>"
  have lp: "length prs = length (hp_pagerefs s)" using U(2) by (simp add: same_pages_def)
  have "chain (\<lambda>p. pr_next_all (prs ! p)) (hp_allbase s) ps = chain (\<lambda>p. pr_next_all (hp_pagerefs s ! p)) (hp_allbase s) ps"
    using U(3) lp all(4) by (intro chain_cong) simp
  then have "chain (\<lambda>p. pr_next_all (hp_pagerefs ?s ! p)) (hp_allbase ?s) ps" using all(1) by simp
  from unlink_all_done [OF this all(2,3) lq(2)] lp all(4) obtain prs' ab where
    V: "unlink_all (NPAGEREFS + 1) p None ?s = Some (?s\<lparr> hp_pagerefs := prs', hp_allbase := ab \<rparr>)"
      "same_pages prs prs'" "\<forall>i<length prs'. pr_next_samesize (prs' ! i) = pr_next_samesize (prs ! i)"
      "chain (\<lambda>p. pr_next_all (prs' ! p)) ab (remove1 p ps)" by auto
  have lp': "length prs' = length prs" using V(2) by (simp add: same_pages_def)
  have "chain (\<lambda>p. pr_next_samesize (prs' ! p)) v (remove1 p qs) = chain (\<lambda>p. pr_next_samesize (prs ! p)) v (remove1 p qs)"
    using V(3) lp lp' qlt by (intro chain_cong) (auto dest: notin_set_remove1 set_remove1_subset [THEN subsetD])
  moreover have "remove_lists p b s =
      Some (s\<lparr> hp_pagerefs := prs', hp_sizebases := (hp_sizebases s)[b := v], hp_allbase := ab \<rparr>)"
    using U(1) V(1) b(1) by (simp add: remove_lists_def ksimps NSIZES_def)
  ultimately show ?thesis
    using U(3,4) V(2,3,4) lp' same_pages_trans [OF U(2) V(2)]
    by (intro exI [of _ prs'] exI [of _ v] exI [of _ ab]) simp
qed

end
