(* ===== verification/Kern_Heap_Props.thy ===== *)
theory Kern_Heap_Props
  imports Kern_Heap_Inv
begin

unbundle bit_operations_syntax

text \<open>
  The heap as a whole: its invariant, the set of live blocks it stands for, and the
  effect of \<^verbatim>\<open>kmalloc\<close> and \<^verbatim>\<open>kfree\<close> on that set and on memory.
\<close>

section \<open>Invariant\<close>

text \<open>
  \<open>own\<close>: the page blocks that are out; \<open>ps\<close>: the list of all divided pages; \<open>qs b\<close>: the list of those
  of block type \<open>b\<close>; \<open>fl p\<close>: the free blocks of page \<open>p\<close>. Between operations a divided page has a
  block in use; \<open>X\<close> holds the pages for which this is not yet so.
\<close>

definition heap_inv :: "nat set \<Rightarrow> 'a kheap_scheme \<Rightarrow> (u32 \<Rightarrow> nat option) \<Rightarrow> nat list \<Rightarrow>
    (nat \<Rightarrow> nat list) \<Rightarrow> (nat \<Rightarrow> u32 list) \<Rightarrow> bool" where
  "heap_inv X s own ps qs fl \<longleftrightarrow> pm_rep s own \<and>
     length (hp_pagerefs s) = NPAGEREFS \<and> length (hp_inuse s) = 8 \<and> length (hp_sizebases s) = 8 \<and>
     chain (\<lambda>p. pr_next_all (hp_pagerefs s ! p)) (hp_allbase s) ps \<and> distinct ps \<and>
     set ps = inuse_set (hp_inuse s) \<and>
     (\<forall>b<8. chain (\<lambda>p. pr_next_samesize (hp_pagerefs s ! p)) (hp_sizebases s ! b) (qs b) \<and> distinct (qs b) \<and>
        set (qs b) = {p \<in> set ps. pr_blk (hp_pagerefs s ! p) = b}) \<and>
     (\<forall>p\<in>set ps. page_ok (hp_mem s) (hp_pagerefs s ! p) (fl p) \<and>
        (p \<notin> X \<longrightarrow> length (fl p) < nblk (pr_blk (hp_pagerefs s ! p))) \<and>
        own (PR_PAGEADDR (hp_pagerefs s ! p)) = Some 1) \<and>
     inj_on (\<lambda>p. PR_PAGEADDR (hp_pagerefs s ! p)) (set ps)"

lemma heap_invD:
  assumes "heap_inv X s own ps qs fl"
  shows "pm_rep s own" "length (hp_pagerefs s) = NPAGEREFS" "length (hp_inuse s) = 8" "length (hp_sizebases s) = 8"
    "chain (\<lambda>p. pr_next_all (hp_pagerefs s ! p)) (hp_allbase s) ps" "distinct ps" "set ps = inuse_set (hp_inuse s)"
    "\<And>b. b < 8 \<Longrightarrow> chain (\<lambda>p. pr_next_samesize (hp_pagerefs s ! p)) (hp_sizebases s ! b) (qs b)"
    "\<And>b. b < 8 \<Longrightarrow> distinct (qs b)"
    "\<And>b. b < 8 \<Longrightarrow> set (qs b) = {p \<in> set ps. pr_blk (hp_pagerefs s ! p) = b}"
    "\<And>p. p \<in> set ps \<Longrightarrow> page_ok (hp_mem s) (hp_pagerefs s ! p) (fl p)"
    "\<And>p. p \<in> set ps \<Longrightarrow> p \<notin> X \<Longrightarrow> length (fl p) < nblk (pr_blk (hp_pagerefs s ! p))"
    "\<And>p. p \<in> set ps \<Longrightarrow> own (PR_PAGEADDR (hp_pagerefs s ! p)) = Some 1"
    "inj_on (\<lambda>p. PR_PAGEADDR (hp_pagerefs s ! p)) (set ps)"
    "\<And>p. p \<in> set ps \<Longrightarrow> p < length (hp_pagerefs s)" "length ps \<le> NPAGEREFS"
proof -
  show "pm_rep s own" "length (hp_pagerefs s) = NPAGEREFS" "length (hp_inuse s) = 8" "length (hp_sizebases s) = 8"
    "chain (\<lambda>p. pr_next_all (hp_pagerefs s ! p)) (hp_allbase s) ps" "distinct ps" "set ps = inuse_set (hp_inuse s)"
    "\<And>b. b < 8 \<Longrightarrow> chain (\<lambda>p. pr_next_samesize (hp_pagerefs s ! p)) (hp_sizebases s ! b) (qs b)"
    "\<And>b. b < 8 \<Longrightarrow> distinct (qs b)"
    "\<And>b. b < 8 \<Longrightarrow> set (qs b) = {p \<in> set ps. pr_blk (hp_pagerefs s ! p) = b}"
    "\<And>p. p \<in> set ps \<Longrightarrow> page_ok (hp_mem s) (hp_pagerefs s ! p) (fl p)"
    "\<And>p. p \<in> set ps \<Longrightarrow> p \<notin> X \<Longrightarrow> length (fl p) < nblk (pr_blk (hp_pagerefs s ! p))"
    "\<And>p. p \<in> set ps \<Longrightarrow> own (PR_PAGEADDR (hp_pagerefs s ! p)) = Some 1"
    "inj_on (\<lambda>p. PR_PAGEADDR (hp_pagerefs s ! p)) (set ps)"
    using assms unfolding heap_inv_def by blast+
  show "p < length (hp_pagerefs s)" if "p \<in> set ps" for p
    using that inuse_set_bound unfolding \<open>set ps = inuse_set (hp_inuse s)\<close> \<open>length (hp_pagerefs s) = NPAGEREFS\<close>
    by blast
  have "card (set ps) \<le> card {..<NPAGEREFS}"
    using \<open>set ps = inuse_set (hp_inuse s)\<close> inuse_set_bound by (intro card_mono) auto
  then show "length ps \<le> NPAGEREFS" using \<open>distinct ps\<close> by (simp add: distinct_card)
qed

lemma heap_inv_mono: "heap_inv X s own ps qs fl \<Longrightarrow> X \<subseteq> Y \<Longrightarrow> heap_inv Y s own ps qs fl"
  unfolding heap_inv_def by blast

lemma heap_inv_page:
  assumes "heap_inv X s own ps qs fl" "p \<in> set ps"
  shows "pr_blk (hp_pagerefs s ! p) < 8" "kseg0_page (PR_PAGEADDR (hp_pagerefs s ! p))"
  using page_okD(1,2) [OF heap_invD(11) [OF assms]] by auto

lemma pm_rep_hp [simp]:
  "pm_rep (s\<lparr> hp_mem := m \<rparr>) own = pm_rep s own"
  "pm_rep (s\<lparr> hp_pagerefs := prs \<rparr>) own = pm_rep s own"
  "pm_rep (s\<lparr> hp_inuse := i \<rparr>) own = pm_rep s own"
  "pm_rep (s\<lparr> hp_sizebases := sb \<rparr>) own = pm_rep s own"
  "pm_rep (s\<lparr> hp_allbase := ab \<rparr>) own = pm_rep s own"
  by (simp_all add: pm_rep_def cm_rep_def cm_wf_def pm_own_def kpage_def cong: if_cong)

lemma hp_frame:
  assumes "pm_frame s s'"
  shows "hp_mem s' = hp_mem s" "hp_pagerefs s' = hp_pagerefs s" "hp_inuse s' = hp_inuse s"
    "hp_sizebases s' = hp_sizebases s" "hp_allbase s' = hp_allbase s"
  using assms by (auto simp: pm_frame_def)

lemma heap_inv_spl [simp]: "heap_inv X (s\<lparr> vm_spl := i \<rparr>) own ps qs fl = heap_inv X s own ps qs fl"
  by (simp add: heap_inv_def)

section \<open>Live blocks\<close>

definition heap_live :: "'a kheap_scheme \<Rightarrow> (u32 \<Rightarrow> nat option) \<Rightarrow> nat list \<Rightarrow> (nat \<Rightarrow> u32 list) \<Rightarrow> (u32 \<times> nat) set" where
  "heap_live s own ps fl =
     {(x, n). \<exists>p\<in>set ps. x \<in> page_blocks (PR_PAGEADDR (hp_pagerefs s ! p)) (pr_blk (hp_pagerefs s ! p)) \<and>
        x \<notin> set (fl p) \<and> n = bsize (pr_blk (hp_pagerefs s ! p))} \<union>
     {(a, n). \<exists>k. own a = Some k \<and> n = 4096 * k \<and> (\<forall>p\<in>set ps. PR_PAGEADDR (hp_pagerefs s ! p) \<noteq> a)}"

definition brange :: "u32 \<times> nat \<Rightarrow> nat set" where
  "brange bl = {unat (fst bl)..<unat (fst bl) + snd bl}"

lemma live_cases:
  assumes "(x, n) \<in> heap_live s own ps fl"
  obtains (sub) p where "p \<in> set ps" "x \<in> page_blocks (PR_PAGEADDR (hp_pagerefs s ! p)) (pr_blk (hp_pagerefs s ! p))"
      "x \<notin> set (fl p)" "n = bsize (pr_blk (hp_pagerefs s ! p))"
    | (big) k where "own x = Some k" "n = 4096 * k" "\<And>p. p \<in> set ps \<Longrightarrow> PR_PAGEADDR (hp_pagerefs s ! p) \<noteq> x"
  using assms unfolding heap_live_def by blast

text \<open>Where a live block lies: in a block of pages that is out.\<close>

lemma dvd_16: "4096 dvd (n :: nat) \<Longrightarrow> 16 dvd n"
  by (rule dvd_trans [of 16 4096 n]) simp_all

lemma live_within:
  assumes "heap_inv X s own ps qs fl" "(x, n) \<in> heap_live s own ps fl"
  shows "\<exists>a k. own a = Some k \<and> unat a \<le> unat x \<and> unat x + n \<le> unat a + 4096 * k \<and> 0 < n \<and> x \<noteq> 0 \<and> 16 dvd unat x"
  using assms(2)
proof (cases rule: live_cases)
  case (sub p)
  note B = page_blocksD [OF heap_inv_page(2,1) [OF assms(1) sub(1)] sub(2)]
  show ?thesis
    using heap_invD(13) [OF assms(1) sub(1)] B bsize_bounds(6) [OF heap_inv_page(1) [OF assms(1) sub(1)]] sub(4)
    by (intro exI [of _ "PR_PAGEADDR (hp_pagerefs s ! p)"] exI [of _ 1]) simp
next
  case (big k)
  have "x \<noteq> 0" using pm_block_bounds(3) [OF heap_invD(1) [OF assms(1)] big(1)] by auto
  then show ?thesis
    using pm_block_bounds [OF heap_invD(1) [OF assms(1)] big(1)] big by (auto intro!: dvd_16)
qed

text \<open>Blocks are apart whichever of them are free.\<close>

lemma blocks_disjoint:
  assumes inv: "heap_inv X s own ps qs fl" and x: "(x, n) \<in> heap_live s own ps fl'" and y: "(y, m) \<in> heap_live s own ps fl'"
    and ne: "(x, n) \<noteq> (y, m)"
  shows "brange (x, n) \<inter> brange (y, m) = {}"
proof -
  have apart: ?thesis if "own a = Some k" "own b = Some l" "a \<noteq> b" "unat a \<le> unat x" "unat x + n \<le> unat a + 4096 * k"
    "unat b \<le> unat y" "unat y + m \<le> unat b + 4096 * l" for a b k l
    using pm_blocks_apart [OF heap_invD(1) [OF inv] that(1,2,3)] that(4-) by (auto simp: brange_def)
  show ?thesis
    using x
  proof (cases rule: live_cases)
    case X: (sub p)
    note BX = page_blocksD [OF heap_inv_page(2,1) [OF inv X(1)] X(2)]
    note OX = heap_invD(13) [OF inv X(1)]
    show ?thesis
      using y
    proof (cases rule: live_cases)
      case Y: (sub q)
      note BY = page_blocksD [OF heap_inv_page(2,1) [OF inv Y(1)] Y(2)]
      show ?thesis
      proof (cases "p = q")
        case True
        then have "x \<noteq> y" using ne X(4) Y(4) by auto
        with blocks_apart_in_page [OF heap_inv_page(2,1) [OF inv X(1)] X(2), of y] Y True X(4)
        show ?thesis by (auto simp: brange_def)
      next
        case False
        then have "PR_PAGEADDR (hp_pagerefs s ! p) \<noteq> PR_PAGEADDR (hp_pagerefs s ! q)"
          using inj_onD [OF heap_invD(14) [OF inv]] X(1) Y(1) by blast
        from apart [OF OX heap_invD(13) [OF inv Y(1)] this] BX(2,3) BY(2,3) X(4) Y(4) show ?thesis by simp
      qed
    next
      case (big k)
      from apart [OF OX big(1) big(3) [OF X(1)]] BX(2,3) X(4) big(2) show ?thesis by simp
    qed
  next
    case X: (big k)
    show ?thesis
      using y
    proof (cases rule: live_cases)
      case Y: (sub q)
      note BY = page_blocksD [OF heap_inv_page(2,1) [OF inv Y(1)] Y(2)]
      have "x \<noteq> PR_PAGEADDR (hp_pagerefs s ! q)" using X(3) [OF Y(1)] by simp
      from apart [OF X(1) heap_invD(13) [OF inv Y(1)] this] X(2) BY(2,3) Y(4) show ?thesis by simp
    next
      case Y: (big l)
      then have "x \<noteq> y" using ne X by auto
      from apart [OF X(1) Y(1) this] X(2) Y(2) show ?thesis by simp
    qed
  qed
qed

lemmas live_disjoint = blocks_disjoint [where fl = fl and fl' = fl for fl]

section \<open>Taking a block from a page, and putting one back\<close>

lemma pr_update_fields [simp]:
  "PR_PAGEADDR (pr\<lparr> pr_nfree := n, pr_freelist_offset := off \<rparr>) = PR_PAGEADDR pr"
  "PR_BLOCKTYPE (pr\<lparr> pr_nfree := n, pr_freelist_offset := off \<rparr>) = PR_BLOCKTYPE pr"
  by (simp_all add: PR_PAGEADDR_def PR_BLOCKTYPE_def)

text \<open>Which blocks of a divided page are live.\<close>

lemma live_in_page:
  assumes inv: "heap_inv X s own ps qs fl" and p: "p \<in> set ps" "pr = hp_pagerefs s ! p"
    and x: "x \<in> page_blocks (PR_PAGEADDR pr) (pr_blk pr)"
  shows "(x, n) \<in> heap_live s own ps fl \<longleftrightarrow> n = bsize (pr_blk pr) \<and> x \<notin> set (fl p)"
proof
  note D = heap_invD [OF inv]
  note B = page_blocksD(2,3) [OF heap_inv_page(2,1) [OF inv p(1)] x [unfolded p(2)]]
  note S = bsize_bounds(6) [OF heap_inv_page(1) [OF inv p(1)]]
  assume "(x, n) \<in> heap_live s own ps fl"
  then show "n = bsize (pr_blk pr) \<and> x \<notin> set (fl p)"
  proof (cases rule: live_cases)
    case (sub q)
    have "q = p"
    proof (rule ccontr)
      assume "q \<noteq> p"
      then have "PR_PAGEADDR (hp_pagerefs s ! q) \<noteq> PR_PAGEADDR (hp_pagerefs s ! p)"
        using inj_onD [OF D(14)] sub(1) p(1) by blast
      from pm_blocks_apart [OF D(1) D(13) [OF sub(1)] D(13) [OF p(1)] this] B S
        page_blocksD(2,3) [OF heap_inv_page(2,1) [OF inv sub(1)] sub(2)]
        bsize_bounds(6) [OF heap_inv_page(1) [OF inv sub(1)]]
      show False by linarith
    qed
    then show ?thesis using sub p(2) by simp
  next
    case (big k)
    have "x \<noteq> PR_PAGEADDR (hp_pagerefs s ! p)" using big(3) [OF p(1)] by simp
    from pm_blocks_apart [OF D(1) big(1) D(13) [OF p(1)] this] pm_block_bounds(1) [OF D(1) big(1)] B S
    show ?thesis by linarith
  qed
next
  assume "n = bsize (pr_blk pr) \<and> x \<notin> set (fl p)"
  then show "(x, n) \<in> heap_live s own ps fl" using p x by (auto simp: heap_live_def)
qed

text \<open>
  Changing the free list of one page, and memory where no other page has a free block.
\<close>

lemma heap_inv_page_update:
  assumes inv: "heap_inv X s own ps qs fl" and p: "p \<in> set ps"
    and pr: "pr = (hp_pagerefs s ! p)\<lparr> pr_nfree := n, pr_freelist_offset := off \<rparr>"
    and ok: "page_ok mem pr fs"
    and len: "p \<notin> Y \<Longrightarrow> length fs < nblk (pr_blk pr)" and Y: "X \<subseteq> insert p Y"
    and mem: "\<And>q x. q \<in> set ps \<Longrightarrow> q \<noteq> p \<Longrightarrow> x \<in> set (fl q) \<Longrightarrow> mem x = hp_mem s x"
  shows "heap_inv Y (s\<lparr> hp_mem := mem, hp_pagerefs := (hp_pagerefs s)[p := pr] \<rparr>) own ps qs (fl(p := fs))"
    (is "heap_inv _ ?s _ _ _ _")
    and "x \<notin> page_blocks (PR_PAGEADDR pr) (pr_blk pr) \<Longrightarrow>
      (x, k) \<in> heap_live (s\<lparr> hp_mem := mem, hp_pagerefs := (hp_pagerefs s)[p := pr] \<rparr>) own ps (fl(p := fs)) \<longleftrightarrow>
      (x, k) \<in> heap_live s own ps fl"
proof -
  note D = heap_invD [OF inv]
  let ?prs = "(hp_pagerefs s)[p := pr]"
  have plt: "p < length (hp_pagerefs s)" by (rule D(15) [OF p])
  have nx: "pr_next_all (?prs ! q) = pr_next_all (hp_pagerefs s ! q)"
    "pr_next_samesize (?prs ! q) = pr_next_samesize (hp_pagerefs s ! q)"
    "PR_PAGEADDR (?prs ! q) = PR_PAGEADDR (hp_pagerefs s ! q)"
    "PR_BLOCKTYPE (?prs ! q) = PR_BLOCKTYPE (hp_pagerefs s ! q)" for q
    using plt pr by (cases "q = p"; simp)+
  have pages: "page_ok mem (?prs ! q) ((fl(p := fs)) q) \<and>
      (q \<notin> Y \<longrightarrow> length ((fl(p := fs)) q) < nblk (pr_blk (?prs ! q))) \<and>
      own (PR_PAGEADDR (?prs ! q)) = Some 1" if q: "q \<in> set ps" for q
  proof (cases "q = p")
    case True
    then show ?thesis using ok len D(13) [OF p] plt pr by auto
  next
    case False
    then have "page_ok mem (hp_pagerefs s ! q) (fl q)"
      using D(11) [OF q] page_ok_mem_cong [of "fl q" mem "hp_mem s"] mem [OF q] by blast
    moreover have "q \<notin> Y \<Longrightarrow> q \<notin> X" using Y False by blast
    ultimately show ?thesis using False D(12) [OF q] D(13) [OF q] by auto
  qed
  show "heap_inv Y ?s own ps qs (fl(p := fs))"
    unfolding heap_inv_def using D pages by (simp add: nx)
  have pd: "PR_PAGEADDR pr = PR_PAGEADDR (hp_pagerefs s ! p)" "PR_BLOCKTYPE pr = PR_BLOCKTYPE (hp_pagerefs s ! p)"
    using pr by simp_all
  show "(x, k) \<in> heap_live ?s own ps (fl(p := fs)) \<longleftrightarrow> (x, k) \<in> heap_live s own ps fl"
    if "x \<notin> page_blocks (PR_PAGEADDR pr) (pr_blk pr)"
    using that unfolding heap_live_def pd by (auto simp: nx)
qed

lemma heap_take:
  assumes inv: "heap_inv X s own ps qs fl" and p: "p \<in> set ps" and fl: "fl p = x # fs" and X: "X \<subseteq> {p}"
  defines "n \<equiv> bsize (pr_blk (hp_pagerefs s ! p))"
  shows "\<exists>s'. doalloc p s = Some (x, s') \<and> heap_inv {} s' own ps qs (fl(p := fs)) \<and>
    heap_live s' own ps (fl(p := fs)) = insert (x, n) (heap_live s own ps fl) \<and>
    (x, n) \<notin> heap_live s own ps fl \<and> hp_mem s' = hp_mem s \<and> vm_spl s' = vm_spl s"
proof -
  note D = heap_invD [OF inv]
  let ?pr = "hp_pagerefs s ! p"
  have ok: "page_ok (hp_mem s) ?pr (x # fs)" using D(11) [OF p] fl by simp
  from doalloc_page [OF D(15) [OF p] refl ok] obtain off nf where
    da: "doalloc p s = Some (x, s\<lparr> hp_pagerefs := (hp_pagerefs s)[p := ?pr\<lparr> pr_nfree := nf, pr_freelist_offset := off \<rparr>] \<rparr>)"
    and ok': "page_ok (hp_mem s) (?pr\<lparr> pr_nfree := nf, pr_freelist_offset := off \<rparr>) fs" by blast
  define pr where "pr = ?pr\<lparr> pr_nfree := nf, pr_freelist_offset := off \<rparr>"
  let ?s = "s\<lparr> hp_mem := hp_mem s, hp_pagerefs := (hp_pagerefs s)[p := pr] \<rparr>"
  have pd: "PR_PAGEADDR pr = PR_PAGEADDR ?pr" "PR_BLOCKTYPE pr = PR_BLOCKTYPE ?pr" by (simp_all add: pr_def)
  have "length fs < nblk (pr_blk pr)" using page_ok_length(1) [OF ok] pd by simp
  note U = heap_inv_page_update [OF inv p pr_def ok' [folded pr_def], where Y = "{}", OF this X]
  have inv': "heap_inv {} ?s own ps qs (fl(p := fs))" using U(1) by simp
  have xin: "x \<in> page_blocks (PR_PAGEADDR ?pr) (pr_blk ?pr)" and xfs: "x \<notin> set fs"
    using page_okD(3,4) [OF ok] by auto
  have prs: "hp_pagerefs ?s ! p = pr" using D(15) [OF p] by simp
  have "(y, m) \<in> heap_live ?s own ps (fl(p := fs)) \<longleftrightarrow> (y, m) \<in> insert (x, n) (heap_live s own ps fl)" for y m
  proof (cases "y \<in> page_blocks (PR_PAGEADDR ?pr) (pr_blk ?pr)")
    case True
    then show ?thesis
      using live_in_page [OF inv p refl True, of m] live_in_page [OF inv' p prs [symmetric], of y m] pd xfs fl
      by (auto simp: n_def)
  next
    case False
    then show ?thesis using U(2) [of y m] xin pd by auto
  qed
  then have "heap_live ?s own ps (fl(p := fs)) = insert (x, n) (heap_live s own ps fl)" by auto
  moreover have "(x, n) \<notin> heap_live s own ps fl" using live_in_page [OF inv p refl xin, of n] fl by simp
  ultimately show ?thesis using da inv' unfolding pr_def by (intro exI [of _ ?s]) (simp add: pr_def)
qed

text \<open>Two divided pages lie apart.\<close>

lemma pages_apart:
  assumes "heap_inv X s own ps qs fl" "p \<in> set ps" "q \<in> set ps" "p \<noteq> q"
    "x \<in> page_blocks (PR_PAGEADDR (hp_pagerefs s ! p)) (pr_blk (hp_pagerefs s ! p))"
    "y \<in> page_blocks (PR_PAGEADDR (hp_pagerefs s ! q)) (pr_blk (hp_pagerefs s ! q))"
  shows "unat x + bsize (pr_blk (hp_pagerefs s ! p)) \<le> unat y \<or> unat y + bsize (pr_blk (hp_pagerefs s ! q)) \<le> unat x"
proof -
  note D = heap_invD [OF assms(1)]
  have "PR_PAGEADDR (hp_pagerefs s ! p) \<noteq> PR_PAGEADDR (hp_pagerefs s ! q)"
    using inj_onD [OF D(14)] assms(2-4) by blast
  from pm_blocks_apart [OF D(1) D(13) [OF assms(2)] D(13) [OF assms(3)] this]
    page_blocksD(2,3) [OF heap_inv_page(2,1) [OF assms(1,2)] assms(5)]
    page_blocksD(2,3) [OF heap_inv_page(2,1) [OF assms(1,3)] assms(6)]
  show ?thesis by linarith
qed

lemma heap_push:
  assumes inv: "heap_inv {} s own ps qs fl" and p: "p \<in> set ps"
    and x: "x \<in> page_blocks (PR_PAGEADDR (hp_pagerefs s ! p)) (pr_blk (hp_pagerefs s ! p))" "x \<notin> set (fl p)"
    and mem: "mem x = pr_first (hp_pagerefs s ! p)"
      "\<And>y. unat y \<notin> brange (x, bsize (pr_blk (hp_pagerefs s ! p))) \<Longrightarrow> mem y = hp_mem s y"
  defines "pr \<equiv> hp_pagerefs s ! p" and "n \<equiv> bsize (pr_blk (hp_pagerefs s ! p))"
  defines "s' \<equiv> s\<lparr> hp_mem := mem, hp_pagerefs := (hp_pagerefs s)
    [p := pr\<lparr> pr_freelist_offset := ucast (x - PR_PAGEADDR pr), pr_nfree := pr_nfree pr + 1 \<rparr>] \<rparr>"
  shows "heap_inv {p} s' own ps qs (fl(p := x # fl p))"
    "heap_live s' own ps (fl(p := x # fl p)) = heap_live s own ps fl - {(x, n)}"
    "unat (pr_nfree pr + 1) = length (fl p) + 1"
proof -
  note D = heap_invD [OF inv]
  have ok: "page_ok (hp_mem s) pr (fl p)" unfolding pr_def by (rule D(11) [OF p])
  note P = heap_inv_page [OF inv p, folded pr_def]
  let ?pr = "pr\<lparr> pr_nfree := pr_nfree pr + 1, pr_freelist_offset := ucast (x - PR_PAGEADDR pr) \<rparr>"
  have eq: "pr\<lparr> pr_freelist_offset := ucast (x - PR_PAGEADDR pr), pr_nfree := pr_nfree pr + 1 \<rparr> = ?pr" by simp
  have same: "mem y = hp_mem s y" if "y \<in> set (fl p)" for y
  proof (rule mem(2))
    have "y \<in> page_blocks (PR_PAGEADDR pr) (pr_blk pr)" "y \<noteq> x" using that x(2) page_okD(4) [OF ok] by auto
    from blocks_apart_in_page [OF P(2,1) x(1) [folded pr_def] this(1)] this(2) bsize_bounds(6) [OF P(1)]
    show "unat y \<notin> brange (x, bsize (pr_blk (hp_pagerefs s ! p)))" by (auto simp: brange_def pr_def)
  qed
  have other: "mem y = hp_mem s y" if "q \<in> set ps" "q \<noteq> p" "y \<in> set (fl q)" for q y
  proof (rule mem(2))
    have "y \<in> page_blocks (PR_PAGEADDR (hp_pagerefs s ! q)) (pr_blk (hp_pagerefs s ! q))"
      using that(3) page_okD(4) [OF D(11) [OF that(1)]] by auto
    from pages_apart [OF inv p that(1) _ x(1) this] that(2) bsize_bounds(6) [OF heap_inv_page(1) [OF inv that(1)]]
    show "unat y \<notin> brange (x, bsize (pr_blk (hp_pagerefs s ! p)))" by (auto simp: brange_def)
  qed
  note K = page_ok_push [OF ok x [folded pr_def] mem(1) [folded pr_def] same, unfolded eq]
  show "unat (pr_nfree pr + 1) = length (fl p) + 1" by (rule K(2))
  note U = heap_inv_page_update [OF inv p, where pr = ?pr and mem = mem and Y = "{p}", unfolded pr_def, OF refl
      K(1) [unfolded pr_def] _ _ other, folded pr_def, simplified]
  have s': "s' = s\<lparr> hp_mem := mem, hp_pagerefs := (hp_pagerefs s)[p := ?pr] \<rparr>" unfolding s'_def eq ..
  show inv': "heap_inv {p} s' own ps qs (fl(p := x # fl p))" unfolding s' using U(1) by simp
  have prs: "hp_pagerefs s' ! p = ?pr" using D(15) [OF p] by (simp add: s')
  have "(y, m) \<in> heap_live s' own ps (fl(p := x # fl p)) \<longleftrightarrow> (y, m) \<in> heap_live s own ps fl - {(x, n)}" for y m
  proof (cases "y \<in> page_blocks (PR_PAGEADDR pr) (pr_blk pr)")
    case True
    then show ?thesis
      using live_in_page [OF inv p meta_eq_to_obj_eq [OF pr_def] True, of m] live_in_page [OF inv' p prs [symmetric], of y m]
      by (auto simp: n_def pr_def)
  next
    case False
    then show ?thesis using U(2) [where x = y and k = m] x(1) unfolding s' by (auto simp: pr_def)
  qed
  then show "heap_live s' own ps (fl(p := x # fl p)) = heap_live s own ps fl - {(x, n)}" by auto
qed

section \<open>A page coming and going\<close>

lemma heap_add_page:
  assumes inv: "heap_inv {} s own ps qs fl" and p: "p \<notin> set ps" "p < NPAGEREFS" and b: "b < 8"
    and iu: "length iu = 8" "inuse_set iu = insert p (set ps)"
    and s2: "pm_frame (s\<lparr> hp_inuse := iu \<rparr>) s2" "pm_rep s2 (own(a \<mapsto> 1))" "own a = None"
  shows "\<exists>s3 fs. fresh_page p b a s2 = Some s3 \<and>
    heap_inv {p} s3 (own(a \<mapsto> 1)) (p # ps) (qs(b := p # qs b)) (fl(p := fs)) \<and>
    heap_live s3 (own(a \<mapsto> 1)) (p # ps) (fl(p := fs)) = heap_live s own ps fl \<and> fs \<noteq> [] \<and>
    pr_blk (hp_pagerefs s3 ! p) = b \<and> vm_spl s3 = vm_spl s2 \<and>
    (\<forall>x n w. (x, n) \<in> heap_live s own ps fl \<longrightarrow> unat w \<in> brange (x, n) \<longrightarrow> hp_mem s3 w = hp_mem s w)"
proof -
  note D = heap_invD [OF inv]
  note F = hp_frame [OF s2(1), simplified]
  let ?prs = "hp_pagerefs s" and ?own = "own(a \<mapsto> 1)"
  note A = pm_block_bounds [OF s2(2), of a 1, simplified]
  have ka: "kseg0_page a" using A by (simp add: kseg0_page_def)
  from fresh_page_done [OF ka b, of p s2] F D(2,4) p(2) obtain m pr fs where
    fp: "fresh_page p b a s2 = Some (s2\<lparr> hp_mem := m, hp_pagerefs := ?prs[p := pr],
          hp_sizebases := (hp_sizebases s)[b := Some p], hp_allbase := Some p \<rparr>)"
    and ok: "page_ok m pr fs" "set fs = page_blocks a b" and pr: "PR_PAGEADDR pr = a" "PR_BLOCKTYPE pr = word_of_nat b"
      "pr_next_samesize pr = hp_sizebases s ! b" "pr_next_all pr = hp_allbase s"
    and m: "\<forall>x. x \<notin> page_blocks a b \<longrightarrow> m x = hp_mem s x" by auto
  let ?prs' = "?prs[p := pr]"
  let ?s3 = "s2\<lparr> hp_mem := m, hp_pagerefs := ?prs', hp_sizebases := (hp_sizebases s)[b := Some p], hp_allbase := Some p \<rparr>"
  have ub: "pr_blk pr = b" unfolding pr(2) using b by (intro unat_of_nat_small) simp
  have old: "?prs' ! q = ?prs ! q" if "q \<in> set ps" for q using that p(1) by (metis nth_list_update_neq)
  have pnew: "?prs' ! p = pr" using p(2) D(2) by simp
  have apart: "unat c + 4096 * k \<le> unat a \<or> unat a + 4096 \<le> unat c" if "own c = Some k" for c k
  proof -
    have "c \<noteq> a" using that s2(3) by auto
    then show ?thesis using pm_blocks_apart [OF s2(2), of c k a 1] that by simp
  qed
  have outside: "w \<notin> page_blocks a b" if "own c = Some k" "unat c \<le> unat w" "unat w < unat c + 4096 * k" for c k w
    using apart [OF that(1)] that(2,3) page_blocksD(2,3) [OF ka b, of w] bsize_bounds(6) [OF b] by fastforce
  have freeo: "m x = hp_mem s x" if "q \<in> set ps" "x \<in> set (fl q)" for q x
  proof -
    have "x \<in> page_blocks (PR_PAGEADDR (?prs ! q)) (pr_blk (?prs ! q))"
      using that(2) page_okD(4) [OF D(11) [OF that(1)]] by auto
    from page_blocksD(2,3) [OF heap_inv_page(2,1) [OF inv that(1)] this] bsize_bounds(6) [OF heap_inv_page(1) [OF inv that(1)]]
      outside [OF D(13) [OF that(1)], of x] show ?thesis using m by auto
  qed
  have addr: "PR_PAGEADDR (?prs ! q) \<noteq> a" if "q \<in> set ps" for q using D(13) [OF that] s2(3) by auto
  have "chain (\<lambda>q. pr_next_all (?prs' ! q)) (hp_allbase s) ps"
    using D(5) old chain_cong [of ps "\<lambda>q. pr_next_all (?prs' ! q)" "\<lambda>q. pr_next_all (?prs ! q)"] by simp
  then have all: "chain (\<lambda>q. pr_next_all (?prs' ! q)) (Some p) (p # ps)" using pnew pr(4) by simp
  have same: "chain (\<lambda>q. pr_next_samesize (?prs' ! q)) ((hp_sizebases s)[b := Some p] ! c) ((qs(b := p # qs b)) c) \<and>
      distinct ((qs(b := p # qs b)) c) \<and>
      set ((qs(b := p # qs b)) c) = {q \<in> set (p # ps). pr_blk (?prs' ! q) = c}" if c: "c < 8" for c
  proof -
    have qs: "set (qs c) = {q \<in> set ps. pr_blk (?prs ! q) = c}" by (rule D(10) [OF c])
    have "chain (\<lambda>q. pr_next_samesize (?prs' ! q)) (hp_sizebases s ! c) (qs c)"
      using D(8) [OF c] old qs chain_cong [of "qs c" "\<lambda>q. pr_next_samesize (?prs' ! q)" "\<lambda>q. pr_next_samesize (?prs ! q)"]
      by simp
    then show ?thesis
      using D(4) D(9) [OF c] qs b c p(1) pnew pr(3) ub old by (cases "c = b") auto
  qed
  have pages: "page_ok m (?prs' ! q) ((fl(p := fs)) q) \<and>
      (q \<notin> {p} \<longrightarrow> length ((fl(p := fs)) q) < nblk (pr_blk (?prs' ! q))) \<and> ?own (PR_PAGEADDR (?prs' ! q)) = Some 1"
    if "q \<in> set (p # ps)" for q
  proof (cases "q = p")
    case True
    then show ?thesis using ok pr(1) pnew by simp
  next
    case False
    then have q: "q \<in> set ps" using that by simp
    have "page_ok m (?prs ! q) (fl q)" using D(11) [OF q] page_ok_mem_cong [of "fl q" m "hp_mem s"] freeo [OF q] by simp
    then show ?thesis using False old [OF q] D(12) [OF q] D(13) [OF q] addr [OF q] by simp
  qed
  have "inj_on (\<lambda>q. PR_PAGEADDR (?prs' ! q)) (set ps)" using D(14) old by (simp add: inj_on_def)
  moreover have "a \<notin> (\<lambda>q. PR_PAGEADDR (?prs' ! q)) ` (set ps - {p})" using addr old by force
  ultimately have inj: "inj_on (\<lambda>q. PR_PAGEADDR (?prs' ! q)) (set (p # ps))"
    using pnew pr(1) by (simp add: inj_on_insert)
  have inv3: "heap_inv {p} ?s3 ?own (p # ps) (qs(b := p # qs b)) (fl(p := fs))"
    unfolding heap_inv_def using s2(2) D(2,4,6) F iu p(1) all same pages inj by simp
  have live: "(x, n) \<in> heap_live ?s3 ?own (p # ps) (fl(p := fs)) \<longleftrightarrow> (x, n) \<in> heap_live s own ps fl" for x n
    unfolding heap_live_def using ok(2) pr(1) pnew ub old p(1) addr s2(3) by (auto split: if_splits)
  have keep: "m w = hp_mem s w" if "(x, n) \<in> heap_live s own ps fl" "unat w \<in> brange (x, n)" for x n w
  proof -
    from live_within [OF inv that(1)] obtain c k where "own c = Some k" "unat c \<le> unat x" "unat x + n \<le> unat c + 4096 * k"
      by blast
    with that(2) outside [of c k w] m show ?thesis by (auto simp: brange_def)
  qed
  have "fs \<noteq> []" using ok(2) card_page_blocks(1) [OF ka b] bsize_bounds(4) [OF b] by auto
  with fp inv3 live keep pnew ub F show ?thesis
    by (intro exI [of _ ?s3] exI [of _ fs]) auto
qed

lemma pr_same_fields:
  assumes "pr_pab pr' = pr_pab pr" "pr_nfree pr' = pr_nfree pr" "pr_freelist_offset pr' = pr_freelist_offset pr"
  shows "PR_PAGEADDR pr' = PR_PAGEADDR pr" "PR_BLOCKTYPE pr' = PR_BLOCKTYPE pr" "page_ok mem pr' fs = page_ok mem pr fs"
  using assms by (simp_all add: PR_PAGEADDR_def PR_BLOCKTYPE_def page_ok_def pr_first_def)

lemma heap_drop_page:
  assumes inv: "heap_inv {p} s own ps qs fl" and p: "p \<in> set ps"
    and full: "length (fl p) = nblk (pr_blk (hp_pagerefs s ! p))"
  defines "b \<equiv> pr_blk (hp_pagerefs s ! p)" and "a \<equiv> PR_PAGEADDR (hp_pagerefs s ! p)"
  shows "\<exists>s1 s2 iu. remove_lists p b s = Some s1 \<and> free_kpages a s1 = Some s2 \<and> freepageref p (hp_inuse s2) = Some iu \<and>
    heap_inv {} (s2\<lparr> hp_inuse := iu \<rparr>) (own(a := None)) (remove1 p ps) (qs(b := remove1 p (qs b))) fl \<and>
    heap_live (s2\<lparr> hp_inuse := iu \<rparr>) (own(a := None)) (remove1 p ps) fl = heap_live s own ps fl \<and>
    hp_mem s2 = hp_mem s"
proof -
  note D = heap_invD [OF inv]
  note P = heap_inv_page [OF inv p, folded b_def a_def]
  let ?prs = "hp_pagerefs s"
  have pq: "p \<in> set (qs b)" "set (qs b) \<subseteq> set ps" using D(10) [OF P(1)] p by (auto simp: b_def)
  from remove_lists_done [OF D(5,6) p D(15) D(8,9) [OF P(1)] pq P(1) D(4,16)] obtain prs v ab where
    rl: "remove_lists p b s = Some (s\<lparr> hp_pagerefs := prs, hp_sizebases := (hp_sizebases s)[b := v], hp_allbase := ab \<rparr>)"
    and sp: "same_pages ?prs prs"
    and nx: "\<forall>i<length prs. i \<notin> set (qs b) \<longrightarrow> pr_next_samesize (prs ! i) = pr_next_samesize (?prs ! i)"
    and ch: "chain (\<lambda>p. pr_next_samesize (prs ! p)) v (remove1 p (qs b))" "chain (\<lambda>p. pr_next_all (prs ! p)) ab (remove1 p ps)"
    by blast
  let ?s1 = "s\<lparr> hp_pagerefs := prs, hp_sizebases := (hp_sizebases s)[b := v], hp_allbase := ab \<rparr>"
  have lp: "length prs = length ?prs" using sp by (simp add: same_pages_def)
  have pf: "PR_PAGEADDR (prs ! i) = PR_PAGEADDR (?prs ! i)" "PR_BLOCKTYPE (prs ! i) = PR_BLOCKTYPE (?prs ! i)"
    "page_ok mem (prs ! i) fs = page_ok mem (?prs ! i) fs" if "i \<in> set ps" for i mem fs
    using pr_same_fields [of "prs ! i" "?prs ! i"] sp D(15) [OF that] by (simp_all add: same_pages_def)
  have "pm_rep ?s1 own" using D(1) by simp
  from kpages.release_block [OF this, of a 1] D(13) [OF p] obtain s2 where
    s2: "free_kpages a ?s1 = Some s2" "pm_rep s2 (own(a := None))" "pm_frame ?s1 s2" by (auto simp: a_def)
  note F = hp_frame [OF s2(3), simplified]
  obtain iu where iu: "freepageref p (hp_inuse s2) = Some iu" "length iu = 8" "inuse_set iu = set ps - {p}"
    using prefs.release_used [of "hp_inuse s" p] D(3,7) p F(3) by auto
  let ?s = "s2\<lparr> hp_inuse := iu \<rparr>"
  have sets: "set (remove1 p ps) = set ps - {p}" by (rule set_remove1_eq [OF D(6)])
  have same: "chain (\<lambda>q. pr_next_samesize (prs ! q)) ((hp_sizebases s)[b := v] ! c) ((qs(b := remove1 p (qs b))) c) \<and>
      distinct ((qs(b := remove1 p (qs b))) c) \<and>
      set ((qs(b := remove1 p (qs b))) c) = {q \<in> set ps - {p}. pr_blk (prs ! q) = c}" if c: "c < 8" for c
  proof (cases "c = b")
    case True
    then show ?thesis
      using ch(1) D(4) D(9) [OF c] D(10) [OF c] P(1) pf(2) set_remove1_eq [OF D(9) [OF P(1)]] by auto
  next
    case False
    have qs: "set (qs c) = {q \<in> set ps. pr_blk (?prs ! q) = c}" by (rule D(10) [OF c])
    have "q \<notin> set (qs b) \<and> q < length prs" if "q \<in> set (qs c)" for q
      using that False qs D(10) [OF P(1)] D(15) lp by auto
    then have "chain (\<lambda>q. pr_next_samesize (prs ! q)) (hp_sizebases s ! c) (qs c)"
      using D(8) [OF c] nx chain_cong [of "qs c" "\<lambda>q. pr_next_samesize (prs ! q)" "\<lambda>q. pr_next_samesize (?prs ! q)"]
      by simp
    then show ?thesis using False D(9) [OF c] qs pf(2) by (auto simp: b_def)
  qed
  have addr: "PR_PAGEADDR (?prs ! q) \<noteq> a" if "q \<in> set ps - {p}" for q
    using inj_onD [OF D(14)] that p by (auto simp: a_def)
  have pages: "page_ok (hp_mem s) (prs ! q) (fl q) \<and> length (fl q) < nblk (pr_blk (prs ! q)) \<and>
      (own(a := None)) (PR_PAGEADDR (prs ! q)) = Some 1" if "q \<in> set ps - {p}" for q
    using that D(11-13) [of q] pf [of q] addr [OF that] by auto
  have inj: "inj_on (\<lambda>q. PR_PAGEADDR (prs ! q)) (set ps - {p})"
    using D(14) pf(1) by (simp add: inj_on_def)
  have inv': "heap_inv {} ?s (own(a := None)) (remove1 p ps) (qs(b := remove1 p (qs b))) fl"
    unfolding heap_inv_def sets using s2(2) D(2,4,6) F iu(2,3) lp ch(2) same pages inj by simp
  have "card (set (fl p)) = card (page_blocks a b)"
    using full page_okD(3) [OF D(11) [OF p]] card_page_blocks(1) [OF P(2,1)] by (simp add: distinct_card b_def)
  then have all: "set (fl p) = page_blocks a b"
    using card_subset_eq [OF card_page_blocks(2) [OF P(2,1)]] page_okD(4) [OF D(11) [OF p]] by (simp add: a_def b_def)
  have "(x, n) \<in> heap_live ?s (own(a := None)) (remove1 p ps) fl \<longleftrightarrow> (x, n) \<in> heap_live s own ps fl" for x n
  proof -
    have "(\<exists>q\<in>set ps - {p}. x \<in> page_blocks (PR_PAGEADDR (?prs ! q)) (pr_blk (?prs ! q)) \<and> x \<notin> set (fl q) \<and>
          n = bsize (pr_blk (?prs ! q))) \<longleftrightarrow>
        (\<exists>q\<in>set ps. x \<in> page_blocks (PR_PAGEADDR (?prs ! q)) (pr_blk (?prs ! q)) \<and> x \<notin> set (fl q) \<and>
          n = bsize (pr_blk (?prs ! q)))"
      using all by (auto simp: a_def b_def)
    moreover have "(\<exists>k. (own(a := None)) x = Some k \<and> n = 4096 * k \<and> (\<forall>q\<in>set ps - {p}. PR_PAGEADDR (?prs ! q) \<noteq> x)) \<longleftrightarrow>
        (\<exists>k. own x = Some k \<and> n = 4096 * k \<and> (\<forall>q\<in>set ps. PR_PAGEADDR (?prs ! q) \<noteq> x))"
      using p by (auto simp: a_def)
    ultimately show ?thesis unfolding heap_live_def sets using F pf by simp
  qed
  then have "heap_live ?s (own(a := None)) (remove1 p ps) fl = heap_live s own ps fl" by auto
  then show ?thesis
    using rl s2(1) iu(1) inv' F by (intro exI [of _ ?s1] exI [of _ s2] exI [of _ iu]) simp
qed

section \<open>Large blocks\<close>

lemma find_run_zero: "find_run c i count 0 = None"
  by (induction c i count "0 :: nat" rule: find_run.induct) auto

lemma alloc_zero_pages:
  assumes "pm_rep s own"
  shows "alloc_kpages 0 s = Some (0, s)"
proof -
  have "vm_indicator s" using pm_repD(1) [OF assms] by (simp only: cm_wf_def)
  then show ?thesis by (simp add: alloc_kpages_def getppages_def find_run_zero)
qed

lemma heap_inv_frame:
  assumes inv: "heap_inv X s own ps qs fl" and f: "pm_frame s s'" "pm_rep s' own'"
    and own: "\<And>p. p \<in> set ps \<Longrightarrow> own' (PR_PAGEADDR (hp_pagerefs s ! p)) = Some 1"
  shows "heap_inv X s' own' ps qs fl"
  using inv f(2) own unfolding heap_inv_def hp_frame [OF f(1)] by (elim conjE) simp

lemma heap_big_alloc:
  assumes inv: "heap_inv {} s own ps qs fl" and a: "own a = None" "pm_frame s s'" "pm_rep s' (own(a \<mapsto> k))"
  shows "heap_inv {} s' (own(a \<mapsto> k)) ps qs fl"
    "heap_live s' (own(a \<mapsto> k)) ps fl = insert (a, 4096 * k) (heap_live s own ps fl)"
    "(a, 4096 * k) \<notin> heap_live s own ps fl"
proof -
  note D = heap_invD [OF inv]
  have ne: "PR_PAGEADDR (hp_pagerefs s ! p) \<noteq> a" if "p \<in> set ps" for p using D(13) [OF that] a(1) by auto
  show "heap_inv {} s' (own(a \<mapsto> k)) ps qs fl"
    using D(13) ne by (intro heap_inv_frame [OF inv a(2,3)]) simp
  show "heap_live s' (own(a \<mapsto> k)) ps fl = insert (a, 4096 * k) (heap_live s own ps fl)"
    unfolding heap_live_def hp_frame [OF a(2)] using ne a(1) by (auto split: if_splits)
  show "(a, 4096 * k) \<notin> heap_live s own ps fl"
  proof
    assume "(a, 4096 * k) \<in> heap_live s own ps fl"
    then obtain c l where c: "own c = Some l" "unat c \<le> unat a" "unat a + 4096 * k \<le> unat c + 4096 * l" "0 < 4096 * k"
      using live_within [OF inv] by blast
    then have "c \<noteq> a" using a(1) by auto
    then show False using pm_blocks_apart [OF a(3), of c l a k] c by simp
  qed
qed

lemma heap_big_free:
  assumes inv: "heap_inv {} s own ps qs fl" and a: "own a = Some k" "\<And>p. p \<in> set ps \<Longrightarrow> PR_PAGEADDR (hp_pagerefs s ! p) \<noteq> a"
    and f: "pm_frame s s'" "pm_rep s' (own(a := None))"
  shows "heap_inv {} s' (own(a := None)) ps qs fl"
    "heap_live s' (own(a := None)) ps fl = heap_live s own ps fl - {(a, 4096 * k)}"
proof -
  note D = heap_invD [OF inv]
  show "heap_inv {} s' (own(a := None)) ps qs fl"
    using D(13) a(2) by (intro heap_inv_frame [OF inv f]) simp
  have "x \<noteq> a" if "p \<in> set ps" "x \<in> page_blocks (PR_PAGEADDR (hp_pagerefs s ! p)) (pr_blk (hp_pagerefs s ! p))" for p x
  proof
    assume "x = a"
    then show False
      using pm_blocks_apart [OF D(1) D(13) [OF that(1)] a(1) a(2) [OF that(1)]] pm_block_bounds(1) [OF D(1) a(1)]
        page_blocksD(2,3) [OF heap_inv_page(2,1) [OF inv that(1)] that(2)]
        bsize_bounds(6) [OF heap_inv_page(1) [OF inv that(1)]] by simp
  qed
  then show "heap_live s' (own(a := None)) ps fl = heap_live s own ps fl - {(a, 4096 * k)}"
    unfolding heap_live_def hp_frame [OF f(1)] using a by (auto split: if_splits)
qed

section \<open>The outcome of an allocation\<close>

definition heap_rep :: "'a kheap_scheme \<Rightarrow> (u32 \<times> nat) set \<Rightarrow> bool" where
  "heap_rep s L \<longleftrightarrow> (\<exists>own ps qs fl. heap_inv {} s own ps qs fl \<and> L = heap_live s own ps fl)"

lemma heap_repI: "heap_inv {} s own ps qs fl \<Longrightarrow> heap_live s own ps fl = L \<Longrightarrow> heap_rep s L"
  unfolding heap_rep_def by blast

definition heap_keep :: "(u32 \<times> nat) set \<Rightarrow> 'a kheap_scheme \<Rightarrow> 'a kheap_scheme \<Rightarrow> bool" where
  "heap_keep L s s' \<longleftrightarrow> (\<forall>bl w. bl \<in> L \<and> unat w \<in> brange bl \<longrightarrow> hp_mem s' w = hp_mem s w)"

lemma heap_rep_spl [simp]: "heap_rep (s\<lparr> vm_spl := i \<rparr>) L = heap_rep s L"
  by (simp add: heap_rep_def heap_live_def)

lemma heap_live_spl [simp]: "heap_live (s\<lparr> vm_spl := i \<rparr>) own ps fl = heap_live s own ps fl"
  by (simp add: heap_live_def)

lemma heap_keep_mem: "hp_mem s' = hp_mem s \<Longrightarrow> heap_keep L s s'"
  by (simp add: heap_keep_def)

lemma subpage_found:
  assumes inv: "heap_inv {} s own ps qs fl" and b: "blocktype sz = Some b"
  shows "\<exists>r. find_free_page NPAGEREFS b (hp_sizebases s ! b) (hp_pagerefs s) = Some r \<and>
    (case r of None \<Rightarrow> True
     | Some p \<Rightarrow> p \<in> set ps \<and> pr_blk (hp_pagerefs s ! p) = b \<and> fl p \<noteq> [])"
proof -
  note D = heap_invD [OF inv]
  have b8: "b < 8" using blocktype_from_Some b by (simp add: blocktype_def)
  have qs: "set (qs b) = {p \<in> set ps. pr_blk (hp_pagerefs s ! p) = b}" by (rule D(10) [OF b8])
  then have "card (set (qs b)) \<le> card (set ps)" by (intro card_mono) auto
  then have len: "length (qs b) \<le> NPAGEREFS" using D(6,16) D(9) [OF b8] by (simp add: distinct_card)
  have bt: "PR_BLOCKTYPE (hp_pagerefs s ! p) = word_of_nat b" if "p \<in> set (qs b)" for p
  proof -
    have "pr_blk (hp_pagerefs s ! p) = b" using that qs by simp
    then show ?thesis using word_of_nat_of_unat [of "PR_BLOCKTYPE (hp_pagerefs s ! p)"] by simp
  qed
  from find_free_page_chain [OF D(8) [OF b8] len, of b] bt qs D(15) obtain r where
    r: "find_free_page NPAGEREFS b (hp_sizebases s ! b) (hp_pagerefs s) = Some r"
      "case r of None \<Rightarrow> \<forall>p\<in>set (qs b). pr_nfree (hp_pagerefs s ! p) = 0
         | Some p \<Rightarrow> p \<in> set (qs b) \<and> 0 < pr_nfree (hp_pagerefs s ! p)" by blast
  have "fl p \<noteq> []" if "p \<in> set (qs b)" "0 < pr_nfree (hp_pagerefs s ! p)" for p
    using that qs page_okD(5) [OF D(11), of p] by (auto simp: word_less_nat_alt)
  then show ?thesis using r qs by (intro exI [of _ r]) (auto split: option.splits)
qed

lemma subpage_kmalloc_outcome:
  assumes rep: "heap_rep s L" and sz: "sz \<le> 2048"
  shows "\<exists>ret s'. subpage_kmalloc sz s = Some (ret, s') \<and> vm_spl s' = vm_spl s \<and> heap_keep L s s' \<and>
    (ret = 0 \<and> heap_rep s' L \<or>
     (\<exists>n. ret \<noteq> 0 \<and> unat sz \<le> n \<and> (ret, n) \<notin> L \<and> heap_rep s' (insert (ret, n) L)))"
proof -
  obtain own ps qs fl where inv: "heap_inv {} s own ps qs fl" and L: "L = heap_live s own ps fl"
    using rep by (auto simp: heap_rep_def)
  note D = heap_invD [OF inv]
  obtain b where b: "blocktype sz = Some b" using blocktype_total [OF sz] by blast
  then have b8: "b < 8" and szb: "sz \<le> sizes ! b" using blocktype_from_Some by (auto simp: blocktype_def)
  have fit: "unat sz \<le> bsize b" using szb unat_sizes [OF b8] by (simp add: word_le_nat_alt)
  let ?s1 = "s\<lparr> vm_spl := SPL_HIGH \<rparr>"
  have inv1: "heap_inv {} ?s1 own ps qs fl" using inv by simp
  from subpage_found [OF inv b] obtain r where
    r: "find_free_page NPAGEREFS b (hp_sizebases s ! b) (hp_pagerefs s) = Some r"
      "case r of None \<Rightarrow> True | Some p \<Rightarrow> p \<in> set ps \<and> pr_blk (hp_pagerefs s ! p) = b \<and> fl p \<noteq> []" by blast
  have base: "slot_get (hp_sizebases s) (int b) = Some (hp_sizebases s ! b)" using D(4) b8 by simp
  show ?thesis
  proof (cases r)
    case (Some p)
    then obtain x fs where p: "p \<in> set ps" "fl p = x # fs" "pr_blk (hp_pagerefs s ! p) = b"
      using r(2) by (auto simp: neq_Nil_conv)
    from heap_take [OF inv1 p(1,2)] obtain s' where
      s': "doalloc p ?s1 = Some (x, s')" "heap_inv {} s' own ps qs (fl(p := fs))"
        "heap_live s' own ps (fl(p := fs)) = insert (x, bsize b) L" "(x, bsize b) \<notin> L" "hp_mem s' = hp_mem s"
      using p(3) L by auto
    have "subpage_kmalloc sz s = Some (x, s'\<lparr> vm_spl := vm_spl s \<rparr>)"
      using b base r(1) Some s'(1) by (simp add: subpage_kmalloc_def)
    moreover have "heap_rep (s'\<lparr> vm_spl := vm_spl s \<rparr>) (insert (x, bsize b) L)"
      using heap_repI [OF s'(2,3)] by simp
    moreover have "x \<noteq> 0"
      using live_within [OF s'(2), of x "bsize b"] s'(3) by auto
    ultimately show ?thesis using fit s'(4,5) by (intro exI [of _ x] exI) (auto simp: heap_keep_mem)
  next
    case None
    show ?thesis
    proof (cases rule: prefs.alloc_cases [OF D(3), case_names exhausted fresh])
      case exhausted
      then have "allocpageref (hp_inuse s) = Some (None, hp_inuse s)"
        by (auto simp: pageref_alloc_def split: option.splits)
      then have "subpage_kmalloc sz s = Some (0, s)"
        using b base r(1) None by (simp add: subpage_kmalloc_def)
      then show ?thesis using rep by (intro exI [of _ 0] exI [of _ s]) (simp add: heap_keep_mem)
    next
      case (fresh p iu)
      then have ap: "allocpageref (hp_inuse s) = Some (Some p, iu)"
        by (auto simp: pageref_alloc_def split: option.splits)
      let ?s1' = "?s1\<lparr> hp_inuse := iu \<rparr>"
      have prep: "pm_rep ?s1' own" and one: "(0 :: u32) < 1" using D(1) by simp_all
      from kpages.alloc_returns [OF prep one] obtain pg s2 where al: "alloc_kpages 1 ?s1' = Some (pg, s2)" by auto
      show ?thesis
      proof (cases rule: kpages.alloc_cases [OF prep one al])
        case 1
        note F = hp_frame [OF 1(4), simplified]
        from prefs.release_used [OF fresh(4), of p] fresh(6) obtain iu' where
          iu': "freepageref p (hp_inuse s2) = Some iu'" "length iu' = 8" "inuse_set iu' = inuse_set (hp_inuse s)"
          using F(3) fresh(3) by auto
        let ?s' = "s2\<lparr> hp_inuse := iu', vm_spl := vm_spl s \<rparr>"
        have "subpage_kmalloc sz s = Some (0, ?s')"
          using b base r(1) None ap al 1(1) iu'(1) by (simp add: subpage_kmalloc_def)
        moreover have "heap_inv {} ?s' own ps qs fl"
          using inv 1(2) F iu'(2,3) unfolding heap_inv_def by (elim conjE) simp
        then have "heap_rep ?s' L" by (rule heap_repI) (simp add: L heap_live_def F)
        ultimately show ?thesis
          using F(1) by (intro exI [of _ 0] exI [of _ ?s']) (simp add: heap_keep_mem)
      next
        case 2
        have p: "p \<notin> set ps" "p < NPAGEREFS" using fresh(2,3) D(7) by auto
        have iu: "length iu = 8" "inuse_set iu = insert p (set ps)" using fresh(4,6) D(7) by auto
        from heap_add_page [OF inv1 p b8 iu 2(5) 2(3) [unfolded unsigned_1] 2(2)] obtain s3 fs where
          s3: "fresh_page p b pg s2 = Some s3"
            "heap_inv {p} s3 (own(pg \<mapsto> 1)) (p # ps) (qs(b := p # qs b)) (fl(p := fs))"
            "heap_live s3 (own(pg \<mapsto> 1)) (p # ps) (fl(p := fs)) = L" "fs \<noteq> []" "pr_blk (hp_pagerefs s3 ! p) = b"
            "\<forall>x n w. (x, n) \<in> L \<longrightarrow> unat w \<in> brange (x, n) \<longrightarrow> hp_mem s3 w = hp_mem s w"
          using L by auto
        obtain x fs' where fs: "fs = x # fs'" using s3(4) by (cases fs) auto
        from heap_take [OF s3(2), of p x fs'] fs s3(3,5) obtain s4 where
          s4: "doalloc p s3 = Some (x, s4)" "heap_inv {} s4 (own(pg \<mapsto> 1)) (p # ps) (qs(b := p # qs b)) (fl(p := fs'))"
            "heap_live s4 (own(pg \<mapsto> 1)) (p # ps) (fl(p := fs')) = insert (x, bsize b) L" "(x, bsize b) \<notin> L"
            "hp_mem s4 = hp_mem s3" by auto
        have "subpage_kmalloc sz s = Some (x, s4\<lparr> vm_spl := vm_spl s \<rparr>)"
          using b base r(1) None ap al 2(1) s3(1) s4(1) by (simp add: subpage_kmalloc_def)
        moreover have "heap_rep (s4\<lparr> vm_spl := vm_spl s \<rparr>) (insert (x, bsize b) L)"
          using heap_repI [OF s4(2,3)] by simp
        moreover have "x \<noteq> 0" using live_within [OF s4(2), of x "bsize b"] s4(3) by auto
        moreover have "heap_keep L s (s4\<lparr> vm_spl := vm_spl s \<rparr>)" using s3(6) s4(5) by (auto simp: heap_keep_def)
        ultimately show ?thesis using fit s4(4) by (intro exI [of _ x] exI) auto
      qed
    qed
  qed
qed

section \<open>The outcome of a release\<close>

lemma fill_deadbeef_outside:
  assumes "unat ptr + unat len \<le> 2 ^ 32" "unat y \<notin> {unat ptr..<unat ptr + unat len}"
  shows "fill_deadbeef ptr len mem y = mem y"
proof -
  have ne: "ptr + 4 * word_of_nat i \<noteq> y" if "i < unat len div 4" for i
  proof -
    have i: "4 * i < unat len" using that by simp
    then have "unat (ptr + word_of_nat (4 * i)) = unat ptr + 4 * i" using assms(1) by (intro unat_add_small) simp
    then have "unat (ptr + 4 * word_of_nat i) \<in> {unat ptr..<unat ptr + unat len}" using i by simp
    then show ?thesis using assms(2) by metis
  qed
  have "foldl (\<lambda>m i. m(ptr + 4 * word_of_nat i := 0xdeadbeef)) mem [0..<k] y = mem y" if "k \<le> unat len div 4" for k
    using that by (induction k) (simp_all add: ne [symmetric])
  then show ?thesis unfolding fill_deadbeef_def by blast
qed

lemma in_page_unat:
  assumes "kseg0_page (PR_PAGEADDR pr)"
  shows "in_page addr pr \<longleftrightarrow> unat (PR_PAGEADDR pr) \<le> unat addr \<and> unat addr < unat (PR_PAGEADDR pr) + 4096"
proof -
  have "unat (PR_PAGEADDR pr + word_of_nat 4096) = unat (PR_PAGEADDR pr) + 4096"
    using assms by (intro unat_add_small) (simp add: kseg0_page_def)
  then show ?thesis by (simp add: in_page_def PAGE_SIZE_def word_le_nat_alt word_less_nat_alt)
qed

lemma owner_found:
  assumes inv: "heap_inv {} s own ps qs fl"
  shows "\<exists>r. find_owner NPAGEREFS addr (hp_allbase s) (hp_pagerefs s) = Some r \<and>
    (case r of None \<Rightarrow> \<forall>p\<in>set ps. \<not> in_page addr (hp_pagerefs s ! p)
     | Some p \<Rightarrow> p \<in> set ps \<and> in_page addr (hp_pagerefs s ! p))"
  using heap_inv_page(1) [OF inv] heap_invD(15) [OF inv]
  by (intro find_owner_chain [OF heap_invD(5,16) [OF inv]]) blast

text \<open>The page of a small live block.\<close>

lemma owner_of_small:
  assumes inv: "heap_inv {} s own ps qs fl" and p: "p \<in> set ps"
    and x: "x \<in> page_blocks (PR_PAGEADDR (hp_pagerefs s ! p)) (pr_blk (hp_pagerefs s ! p))"
  shows "find_owner NPAGEREFS x (hp_allbase s) (hp_pagerefs s) = Some (Some p)"
proof -
  note P = heap_inv_page [OF inv p]
  note B = page_blocksD(2,3) [OF P(2,1) x] bsize_bounds(6) [OF P(1)]
  have inp: "in_page x (hp_pagerefs s ! p)" using B in_page_unat [OF P(2)] by simp
  from owner_found [OF inv] obtain r where r: "find_owner NPAGEREFS x (hp_allbase s) (hp_pagerefs s) = Some r"
    "case r of None \<Rightarrow> \<forall>p\<in>set ps. \<not> in_page x (hp_pagerefs s ! p)
     | Some p \<Rightarrow> p \<in> set ps \<and> in_page x (hp_pagerefs s ! p)" by blast
  then obtain q where q: "r = Some q" "q \<in> set ps" "in_page x (hp_pagerefs s ! q)"
    using inp p by (cases r) auto
  have "q = p"
  proof (rule ccontr)
    assume "q \<noteq> p"
    then have "PR_PAGEADDR (hp_pagerefs s ! q) \<noteq> PR_PAGEADDR (hp_pagerefs s ! p)"
      using inj_onD [OF heap_invD(14) [OF inv]] q(2) p by blast
    from pm_blocks_apart [OF heap_invD(1) [OF inv] heap_invD(13) [OF inv q(2)] heap_invD(13) [OF inv p] this]
      in_page_unat [OF heap_inv_page(2) [OF inv q(2)], of x] q(3) B show False by simp
  qed
  then show ?thesis using r(1) q(1) by simp
qed

lemma subpage_kfree_outcome:
  assumes inv: "heap_inv {} s own ps qs fl" and p: "p \<in> set ps"
    and x: "x \<in> page_blocks (PR_PAGEADDR (hp_pagerefs s ! p)) (pr_blk (hp_pagerefs s ! p))" "x \<notin> set (fl p)"
  defines "n \<equiv> bsize (pr_blk (hp_pagerefs s ! p))"
  shows "\<exists>s'. subpage_kfree x s = Some (True, s') \<and> vm_spl s' = vm_spl s \<and>
    heap_rep s' (heap_live s own ps fl - {(x, n)}) \<and> heap_keep (heap_live s own ps fl - {(x, n)}) s s'"
proof -
  note D = heap_invD [OF inv]
  let ?s1 = "s\<lparr> vm_spl := SPL_HIGH \<rparr>"
  define pr where "pr = hp_pagerefs s ! p"
  define a where "a = PR_PAGEADDR pr"
  define b where "b = pr_blk pr"
  define L where "L = heap_live s own ps fl"
  have inv1: "heap_inv {} ?s1 own ps qs fl" using inv by simp
  have P: "b < 8" "kseg0_page a" unfolding a_def b_def pr_def by (rule heap_inv_page [OF inv p])+
  have xb: "x \<in> page_blocks a b" using x(1) by (simp add: a_def b_def pr_def)
  have xl: "(x, n) \<in> L" using live_in_page [OF inv p refl x(1), of n] x(2) by (simp add: L_def n_def)
  note B = page_blocksD [OF P(2,1) xb] and S = bsize_bounds [OF P(1)]
  have xlt: "unat x < unat a + 4096" using B(3) S(6) by simp
  note O = page_offset [OF P(2) B(2) xlt]
  obtain j where j: "unat x = unat a + j * bsize b" using B(1) by blast
  have "unat ((x - a) mod sizes ! b) = 0" using O(1) j unat_sizes [OF P(1)] by (simp add: unat_mod)
  then have al: "(x - a) mod sizes ! b = 0" by (simp add: unat_eq_zero)
  define next' where "next' = (if pr_freelist_offset pr = INVALID_OFFSET then 0 else a + ucast (pr_freelist_offset pr))"
  define mem where "mem = (fill_deadbeef x (sizes ! b) (hp_mem s))(x := next')"
  have memx: "mem x = pr_first (hp_pagerefs s ! p)" by (simp add: mem_def next'_def pr_first_def pr_def a_def)
  have memo: "mem y = hp_mem s y" if "unat y \<notin> brange (x, bsize (pr_blk (hp_pagerefs ?s1 ! p)))" for y
  proof -
    have "unat x + unat (sizes ! b) \<le> 2 ^ 32" using unat_sizes [OF P(1)] B(3) P(2) by (simp add: kseg0_page_def)
    moreover have "unat y \<notin> {unat x..<unat x + unat (sizes ! b)}"
      using that unat_sizes [OF P(1)] by (simp add: brange_def b_def pr_def)
    moreover from this have "y \<noteq> x" using S(6) unat_sizes [OF P(1)] by auto
    ultimately show ?thesis using fill_deadbeef_outside [of x "sizes ! b" y] by (simp add: mem_def)
  qed
  let ?pr' = "pr\<lparr> pr_freelist_offset := ucast (x - a), pr_nfree := pr_nfree pr + 1 \<rparr>"
  let ?s2 = "?s1\<lparr> hp_mem := mem, hp_pagerefs := (hp_pagerefs s)[p := ?pr'] \<rparr>"
  note U = heap_push [where mem = mem and x = x, OF inv1 p, simplified, OF x memx memo [simplified],
      folded pr_def, folded a_def]
  have inv2: "heap_inv {p} ?s2 own ps qs (fl(p := x # fl p))"
    and live2: "heap_live ?s2 own ps (fl(p := x # fl p)) = L - {(x, n)}"
    and nf: "unat (pr_nfree pr + 1) = length (fl p) + 1"
    using U by (simp_all add: L_def n_def pr_def)
  have keep2: "heap_keep (L - {(x, n)}) s s'" if "hp_mem s' = mem" for s' :: "'a kheap_scheme"
  proof -
    have "mem w = hp_mem s w" if "bl \<in> L - {(x, n)}" "unat w \<in> brange bl" for bl w
    proof (cases bl)
      case (Pair y m)
      have "brange (y, m) \<inter> brange (x, n) = {}"
        using live_disjoint [OF inv, of y m x n] that(1) xl Pair by (auto simp: L_def)
      then have "unat w \<notin> brange (x, n)" using that(2) Pair by blast
      then show ?thesis using memo [of w] by (simp add: n_def)
    qed
    then show ?thesis using \<open>hp_mem s' = mem\<close> unfolding heap_keep_def by blast
  qed
  have len: "length (x # fl p) \<le> nblk b"
    using page_ok_length(1) [OF heap_invD(11) [OF inv2 p]] D(15) [OF p] by (simp add: b_def PR_BLOCKTYPE_def)
  have "unat (PAGE_SIZE div sizes ! b) = nblk b"
    by (simp add: unat_div unat_sizes [OF P(1)] PAGE_SIZE_def nblk_def)
  moreover have un: "unat (ucast (pr_nfree pr + 1) :: u32) = length (fl p) + 1"
    using nf len S(5) by (simp add: unsigned_ucast_eq take_bit_nat_eq_self)
  ultimately have cmp: "(ucast (pr_nfree pr + 1) :: u32) \<le> PAGE_SIZE div sizes ! b"
    "(ucast (pr_nfree pr + 1) :: u32) = PAGE_SIZE div sizes ! b \<longleftrightarrow> length (fl p) + 1 = nblk b"
    using len by (simp_all add: word_le_nat_alt word_unat_eq_iff)
  define fin where "fin = (if length (fl p) + 1 = nblk b
      then do { s3 \<leftarrow> remove_lists p b ?s2; s4 \<leftarrow> free_kpages a s3; inuse \<leftarrow> freepageref p (hp_inuse s4);
                Some (s4\<lparr> hp_inuse := inuse \<rparr>) }
      else Some ?s2)"
  have run: "subpage_kfree x s = (do { s3 \<leftarrow> fin; Some (True, s3\<lparr> vm_spl := vm_spl s \<rparr>) })"
    unfolding subpage_kfree_def fin_def
    using owner_of_small [OF inv p x(1)] O(6) al cmp
    by (simp add: ksimps Let_def pr_def [symmetric] a_def [symmetric] b_def [symmetric] mem_def next'_def)
  show ?thesis
  proof (cases "length (fl p) + 1 = nblk b")
    case False
    then have lt: "length (x # fl p) < nblk b" using len by simp
    have "heap_inv {} ?s2 own ps qs (fl(p := x # fl p))"
      using inv2 lt D(15) [OF p] unfolding heap_inv_def
      by (simp add: b_def PR_BLOCKTYPE_def) (metis empty_iff insert_iff nth_list_update_eq)
    then have "heap_rep ?s2 (L - {(x, n)})" using live2 by (rule heap_repI)
    then have "heap_rep (?s2\<lparr> vm_spl := vm_spl s \<rparr>) (L - {(x, n)})" by (simp only: heap_rep_spl)
    moreover have "subpage_kfree x s = Some (True, ?s2\<lparr> vm_spl := vm_spl s \<rparr>)"
      using run False by (simp add: fin_def)
    moreover have "heap_keep (L - {(x, n)}) s (?s2\<lparr> vm_spl := vm_spl s \<rparr>)" by (rule keep2) simp
    ultimately show ?thesis
      by (intro exI [of _ "?s2\<lparr> vm_spl := vm_spl s \<rparr>"]) (simp add: L_def)
  next
    case True
    have pf: "pr_blk (hp_pagerefs ?s2 ! p) = b" "PR_PAGEADDR (hp_pagerefs ?s2 ! p) = a"
      using D(15) [OF p] by (simp_all add: b_def a_def PR_BLOCKTYPE_def PR_PAGEADDR_def)
    from heap_drop_page [OF inv2 p, unfolded pf] True obtain s3 s4 iu where
      d: "remove_lists p b ?s2 = Some s3" "free_kpages a s3 = Some s4" "freepageref p (hp_inuse s4) = Some iu"
        "heap_inv {} (s4\<lparr> hp_inuse := iu \<rparr>) (own(a := None)) (remove1 p ps) (qs(b := remove1 p (qs b))) (fl(p := x # fl p))"
        "heap_live (s4\<lparr> hp_inuse := iu \<rparr>) (own(a := None)) (remove1 p ps) (fl(p := x # fl p)) = L - {(x, n)}"
        "hp_mem s4 = mem" using live2 by auto
    have "heap_rep (s4\<lparr> hp_inuse := iu \<rparr>) (L - {(x, n)})" by (rule heap_repI [OF d(4,5)])
    then have "heap_rep (s4\<lparr> hp_inuse := iu, vm_spl := vm_spl s \<rparr>) (L - {(x, n)})" by (simp only: heap_rep_spl)
    moreover have "subpage_kfree x s = Some (True, s4\<lparr> hp_inuse := iu, vm_spl := vm_spl s \<rparr>)"
      using run True d(1-3) by (simp add: fin_def)
    moreover have "heap_keep (L - {(x, n)}) s (s4\<lparr> hp_inuse := iu, vm_spl := vm_spl s \<rparr>)"
      by (rule keep2) (simp add: d(6))
    ultimately show ?thesis
      by (intro exI [of _ "s4\<lparr> hp_inuse := iu, vm_spl := vm_spl s \<rparr>"]) (simp add: L_def)
  qed
qed

section \<open>The interface of the heap\<close>

text \<open>
  A heap hands out blocks of bytes. \<open>rep s L\<close>: in state \<open>s\<close> the live blocks are the pairs of
  address and size in \<open>L\<close>; \<open>keep L s s'\<close>: memory inside the blocks of \<open>L\<close> is the same in \<open>s\<close> and \<open>s'\<close>.
\<close>

locale block_heap =
  fixes rep :: "'s \<Rightarrow> (u32 \<times> nat) set \<Rightarrow> bool"
    and malloc :: "u32 \<Rightarrow> 's \<Rightarrow> (u32 \<times> 's) option"
    and free :: "u32 \<Rightarrow> 's \<Rightarrow> 's option"
    and keep :: "(u32 \<times> nat) set \<Rightarrow> 's \<Rightarrow> 's \<Rightarrow> bool"
  assumes malloc_outcome: "rep s L \<Longrightarrow> \<exists>p s'. malloc sz s = Some (p, s') \<and> keep L s s' \<and>
      (p = 0 \<and> rep s' L \<or> (\<exists>n. p \<noteq> 0 \<and> unat sz \<le> n \<and> (p, n) \<notin> L \<and> rep s' (insert (p, n) L)))"
    and free_live: "rep s L \<Longrightarrow> (p, n) \<in> L \<Longrightarrow>
      \<exists>s'. free p s = Some s' \<and> rep s' (L - {(p, n)}) \<and> keep (L - {(p, n)}) s s'"
    and live_apart: "rep s L \<Longrightarrow> bl \<in> L \<Longrightarrow> bl' \<in> L \<Longrightarrow> bl \<noteq> bl' \<Longrightarrow> brange bl \<inter> brange bl' = {}"
    and live_block: "rep s L \<Longrightarrow> (p, n) \<in> L \<Longrightarrow> 0 < n \<and> 16 dvd unat p \<and> 2 ^ 31 \<le> unat p \<and> unat p + n \<le> 0xa0000000"
begin

lemma malloc_returns: "rep s L \<Longrightarrow> \<exists>p s'. malloc sz s = Some (p, s')"
  using malloc_outcome by blast

lemma malloc_cases:
  assumes "rep s L" "malloc sz s = Some (p, s')"
  obtains "p = 0" "rep s' L" "keep L s s'"
  | n where "p \<noteq> 0" "unat sz \<le> n" "(p, n) \<notin> L" "rep s' (insert (p, n) L)" "keep L s s'"
  using malloc_outcome [OF assms(1), of sz] assms(2) that by force

lemma malloc_fresh:
  assumes "rep s L" "malloc sz s = Some (p, s')" "p \<noteq> 0" "bl \<in> L"
  shows "\<exists>n. unat sz \<le> n \<and> rep s' (insert (p, n) L) \<and> brange (p, n) \<inter> brange bl = {}"
proof (cases rule: malloc_cases [OF assms(1,2)])
  case (2 n)
  then show ?thesis using live_apart [OF 2(4), of "(p, n)" bl] assms(4) by blast
qed (use assms in simp)

lemma malloc_free:
  assumes "rep s L" "malloc sz s = Some (p, s')" "p \<noteq> 0"
  shows "\<exists>s''. free p s' = Some s'' \<and> rep s'' L"
proof (cases rule: malloc_cases [OF assms(1,2)])
  case (2 n)
  have "insert (p, n) L - {(p, n)} = L" using 2(3) by blast
  then show ?thesis using free_live [OF 2(4), of p n] by auto
qed (use assms in simp)

end

lemma kmalloc_outcome:
  assumes rep: "heap_rep s L"
  shows "\<exists>p s'. kmalloc sz s = Some (p, s') \<and> heap_keep L s s' \<and>
    (p = 0 \<and> heap_rep s' L \<or> (\<exists>n. p \<noteq> 0 \<and> unat sz \<le> n \<and> (p, n) \<notin> L \<and> heap_rep s' (insert (p, n) L)))"
proof (cases "sz \<ge> LARGEST_SUBPAGE_SIZE")
  case False
  then have "sz \<le> 2048" by (simp add: LARGEST_SUBPAGE_SIZE_def word_le_nat_alt)
  from subpage_kmalloc_outcome [OF rep this] False show ?thesis unfolding kmalloc_def if_not_P [OF False] by blast
next
  case True
  obtain own ps qs fl where inv: "heap_inv {} s own ps qs fl" and L: "heap_live s own ps fl = L"
    using rep by (auto simp: heap_rep_def)
  note prep = heap_invD(1) [OF inv]
  define np where "np = (sz + PAGE_SIZE - 1) div PAGE_SIZE"
  have k: "kmalloc sz s = alloc_kpages np s" using True by (simp add: kmalloc_def np_def)
  show ?thesis
  proof (cases "np = 0")
    case True
    then show ?thesis using k alloc_zero_pages [OF prep] rep by (simp add: heap_keep_mem)
  next
    case False
    then have n0: "0 < np" by (simp add: word_gt_0)
    from kpages.alloc_returns [OF prep n0] obtain p s' where al: "alloc_kpages np s = Some (p, s')" by auto
    show ?thesis
    proof (cases rule: kpages.alloc_cases [OF prep n0 al])
      case 1
      have "heap_inv {} s' own ps qs fl"
        using heap_invD(13) [OF inv] by (intro heap_inv_frame [OF inv 1(4,2)]) simp
      then have "heap_rep s' L" by (rule heap_repI) (use L hp_frame [OF 1(4)] in \<open>simp add: heap_live_def\<close>)
      then show ?thesis using k al 1(1) hp_frame(1) [OF 1(4)] by (simp add: heap_keep_mem)
    next
      case 2
      note A = heap_big_alloc [OF inv 2(2,5,3)]
      have "unat (sz + PAGE_SIZE - 1) = unat sz + 4095"
      proof -
        have e: "sz + PAGE_SIZE - 1 = sz + word_of_nat 4095" by (simp add: PAGE_SIZE_def)
        show ?thesis
        proof (cases "unat sz + 4095 < 2 ^ 32")
          case True
          then show ?thesis unfolding e by (rule unat_add_small)
        next
          case False
          then have "unat (sz + word_of_nat 4095) < 4096"
            using unat_less_2p32 [of sz] by (simp add: unat_word_ariths mod_if) linarith
          then have "unat (sz + PAGE_SIZE - 1) < 4096" unfolding e .
          moreover have "unat np = unat (sz + PAGE_SIZE - 1) div 4096"
            unfolding np_def unat_div by (simp add: PAGE_SIZE_def)
          ultimately have "unat np = 0" by simp
          then show ?thesis using n0 by (simp add: word_less_nat_alt)
        qed
      qed
      then have "unat np = (unat sz + 4095) div 4096" by (simp add: np_def unat_div PAGE_SIZE_def)
      then have "unat sz \<le> 4096 * unat np" by linarith
      then show ?thesis
        using k al 2(1) A hp_frame(1) [OF 2(5)] heap_repI [OF A(1,2)] unfolding L by (auto simp: heap_keep_mem)
    qed
  qed
qed

lemma kfree_pages:
  assumes inv: "heap_inv {} s own ps qs fl" and p: "own p = Some k" "\<And>q. q \<in> set ps \<Longrightarrow> PR_PAGEADDR (hp_pagerefs s ! q) \<noteq> p"
  shows "kfree p s = free_kpages p s"
proof -
  note D = heap_invD [OF inv]
  note B = pm_block_bounds [OF D(1) p(1)]
  have out: "\<not> in_page p (hp_pagerefs s ! q)" if "q \<in> set ps" for q
    using pm_blocks_apart [OF D(1) D(13) [OF that] p(1) p(2) [OF that]] B(1)
      in_page_unat [OF heap_inv_page(2) [OF inv that], of p] by auto
  from owner_found [OF inv, of p] obtain r where "find_owner NPAGEREFS p (hp_allbase s) (hp_pagerefs s) = Some r"
    "case r of None \<Rightarrow> True | Some q \<Rightarrow> q \<in> set ps \<and> in_page p (hp_pagerefs s ! q)"
    by (auto split: option.splits)
  then have "find_owner NPAGEREFS p (hp_allbase s) (hp_pagerefs s) = Some None" using out by (cases r) auto
  then have "subpage_kfree p s = Some (False, s)" by (simp add: subpage_kfree_def)
  moreover have "p mod PAGE_SIZE = 0" using B(2) by (simp add: PAGE_SIZE_def word_unat_eq_iff unat_mod)
  moreover have "p \<noteq> 0" using B(3) by auto
  ultimately show ?thesis by (simp add: kfree_def ksimps)
qed

lemma kfree_outcome:
  assumes rep: "heap_rep s L" and p: "(p, n) \<in> L"
  shows "\<exists>s'. kfree p s = Some s' \<and> heap_rep s' (L - {(p, n)}) \<and> heap_keep (L - {(p, n)}) s s'"
proof -
  obtain own ps qs fl where inv: "heap_inv {} s own ps qs fl" and L: "heap_live s own ps fl = L"
    using rep by (auto simp: heap_rep_def)
  have p0: "p \<noteq> 0" using live_within [OF inv] p L by blast
  show ?thesis
    using p [folded L]
  proof (cases rule: live_cases)
    case (sub q)
    from subpage_kfree_outcome [OF inv sub(1-3)] p0 sub(4) show ?thesis
      unfolding kfree_def L by auto
  next
    case (big k)
    note D = heap_invD [OF inv]
    have run: "kfree p s = free_kpages p s" by (rule kfree_pages [OF inv big(1) big(3)])
    from kpages.release_block [OF D(1) big(1)] obtain s' where
      s': "free_kpages p s = Some s'" "pm_rep s' (own(p := None))" "pm_frame s s'" by blast
    note F = heap_big_free [OF inv big(1) big(3) s'(3,2)]
    show ?thesis
      using run s'(1) heap_repI [OF F(1) F(2)] hp_frame(1) [OF s'(3)] big(2) L by (auto simp: heap_keep_mem)
  qed
qed

interpretation kh: block_heap heap_rep kmalloc kfree heap_keep
proof (unfold_locales, goal_cases)
  case (1 s L sz)
  then show ?case by (rule kmalloc_outcome)
next
  case (2 s L p n)
  then show ?case by (rule kfree_outcome)
next
  case (3 s L bl bl')
  then obtain own ps qs fl where inv: "heap_inv {} s own ps qs fl" and L: "heap_live s own ps fl = L"
    by (auto simp: heap_rep_def)
  have "brange (fst bl, snd bl) \<inter> brange (fst bl', snd bl') = {}"
    by (rule live_disjoint [OF inv]) (use 3 L in auto)
  then show ?case by simp
next
  case (4 s L p n)
  then obtain own ps qs fl where inv: "heap_inv {} s own ps qs fl" "(p, n) \<in> heap_live s own ps fl"
    by (auto simp: heap_rep_def)
  from live_within [OF this] obtain a k where "own a = Some k" "unat a \<le> unat p" "unat p + n \<le> unat a + 4096 * k"
    "0 < n" "16 dvd unat p" by blast
  with pm_block_bounds [OF heap_invD(1) [OF inv(1)], of a k] show ?case by simp
qed

section \<open>Sequences of calls\<close>






text \<open>An empty heap on the small machine of the coremap's theory.\<close>

definition small_heap :: kheap where
  "small_heap = vm_bootstrap (\<lambda>_. blank_entry)
     \<lparr> ram_firstpaddr = 0x40000, ram_lastpaddr = 0x45000, vm_toppage_ptr = 0,
       vm_indicator = False, vm_pagenumber = 0, vm_pageleft = 0, vm_coremap_ptr = 0, vm_coremap = [],
       vm_spl = 0, vm_curpid = Some 0,
       hp_pagerefs = replicate NPAGEREFS \<lparr> pr_next_samesize = None, pr_next_all = None, pr_pab = 0,
         pr_freelist_offset = 0, pr_nfree = 0 \<rparr>,
       hp_inuse = replicate INUSE_WORDS 0, hp_sizebases = replicate NSIZES None, hp_allbase = None,
       hp_mem = (\<lambda>_. 0) \<rparr>"

lemma small_heap_fields:
  "length (hp_pagerefs small_heap) = NPAGEREFS" "hp_inuse small_heap = replicate INUSE_WORDS 0"
  "hp_sizebases small_heap = replicate NSIZES None" "hp_allbase small_heap = None"
  by (simp_all add: small_heap_def vm_bootstrap_def Let_def ram_getsize_def)

lemma small_heap_rep: "heap_rep small_heap {}"
proof -
  have "pm_rep small_heap Map.empty"
    unfolding small_heap_def by (rule vm_bootstrap_rep [of _ "0x40000" "0x45000"]) simp_all
  moreover have "inuse_set (replicate INUSE_WORDS 0) = {}" by (auto simp: inuse_set_def INUSE_WORDS_def)
  ultimately have "heap_inv {} small_heap Map.empty [] (\<lambda>_. []) (\<lambda>_. [])"
    by (simp add: heap_inv_def small_heap_fields INUSE_WORDS_def NSIZES_def)
  then show ?thesis by (rule heap_repI) (simp add: heap_live_def)
qed


text \<open>
  C16. \<^verbatim>\<open>kmalloc\<close> and \<^verbatim>\<open>kfree\<close> are inverse and leave the blocks of others alone: from a legal heap whose
  live blocks are \<open>L\<close>, a successful \<^verbatim>\<open>kmalloc\<close> adds one block at least as large as asked for that overlaps no
  block of \<open>L\<close>, a failing one adds nothing, and neither writes to memory inside \<open>L\<close>; freeing the new block
  restores \<open>L\<close>, again without writing into it.
\<close>

theorem kmalloc_kfree_roundtrip:
  assumes "heap_rep s L" "kmalloc sz s = Some (p, s1)"
  shows "heap_keep L s s1 \<and>
    (if p = 0 then heap_rep s1 L
     else \<exists>n. unat sz \<le> n \<and> heap_rep s1 (insert (p, n) L) \<and> (\<forall>bl\<in>L. brange (p, n) \<inter> brange bl = {}) \<and>
       (\<exists>s2. kfree p s1 = Some s2 \<and> heap_rep s2 L \<and> heap_keep L s1 s2))"
proof (cases rule: kh.malloc_cases [OF assms])
  case (2 n)
  have "insert (p, n) L - {(p, n)} = L" using 2(3) by blast
  with kh.free_live [OF 2(4), of p n] obtain s2 where "kfree p s1 = Some s2" "heap_rep s2 L" "heap_keep L s1 s2" by auto
  moreover have "brange (p, n) \<inter> brange bl = {}" if "bl \<in> L" for bl
    using kh.live_apart [OF 2(4), of "(p, n)" bl] that 2(3) by blast
  ultimately show ?thesis using 2 by (auto intro!: exI [of _ n])
qed simp

theorem kmalloc_kfree_roundtrip_witness:
  "\<exists>p s1 s2. kmalloc 3000 small_heap = Some (p, s1) \<and> p \<noteq> 0 \<and> kfree p s1 = Some s2 \<and> heap_rep s2 {}"
proof -
  have "map_option fst (kmalloc 3000 small_heap) = Some 0x80041000" by code_simp
  then obtain s where s: "kmalloc 3000 small_heap = Some (0x80041000, s)" by auto
  from kmalloc_kfree_roundtrip [OF small_heap_rep s] show ?thesis using s by auto
qed

end
