(* ===== verification/Kern_VM.thy ===== *)
theory Kern_VM
  imports Kern_Heap_Props
begin

text \<open>
  Address spaces and page faults: the second half of \<^verbatim>\<open>kern/vm/vm.c\<close>.

  A \<^verbatim>\<open>struct addrspace\<close> is 2060 bytes: three words and 512 pointers to second-level tables; a
  \<^verbatim>\<open>struct pagetable2\<close> is 16384 bytes: 1024 entries of four words. Both live in the memory of the
  kernel heap, so their fields are words of \<open>hp_mem\<close> at the offsets the compiler gives them,
  and a pointer to one is its address. Every access goes through \<open>kload\<close> and \<open>kstore\<close>: an
  access outside the directly mapped segment, or not on a word boundary, stops the kernel.
\<close>

section \<open>State and memory\<close>

definition MIPS_KSEG1 :: u32 where
  "MIPS_KSEG1 = 0xa0000000"

definition NUM_TLB :: nat where
  "NUM_TLB = 64"

text \<open>\<open>vm_as\<close> is \<^verbatim>\<open>curthread->t_vmspace\<close>; the TLB is its list of pairs of high and low word.\<close>

record vmstate = kheap +
  vm_as :: u32
  vm_tlb :: "(u32 \<times> u32) list"

definition kptr :: "u32 \<Rightarrow> bool" where
  "kptr p \<longleftrightarrow> MIPS_KSEG0 \<le> p \<and> p < MIPS_KSEG1 \<and> p AND 3 = 0"

definition kload :: "u32 \<Rightarrow> 'a kheap_scheme \<Rightarrow> u32 option" where
  "kload p s = do { kassert (kptr p); Some (hp_mem s p) }"

definition kstore :: "u32 \<Rightarrow> u32 \<Rightarrow> 'a kheap_scheme \<Rightarrow> 'a kheap_scheme option" where
  "kstore p v s = do { kassert (kptr p); Some (s\<lparr> hp_mem := (hp_mem s)(p := v) \<rparr>) }"

text \<open>
  The loops of \<^verbatim>\<open>bzero\<close>, \<^verbatim>\<open>memcpy\<close> and \<^verbatim>\<open>memmove\<close> over whole words, which are the ones that run for
  page-aligned blocks.
\<close>

definition zero_words :: "u32 \<Rightarrow> nat \<Rightarrow> (u32 \<Rightarrow> u32) \<Rightarrow> u32 \<Rightarrow> u32" where
  "zero_words p n m = foldl (\<lambda>m i. m(p + 4 * word_of_nat i := 0)) m [0..<n]"

definition copy_words_up :: "u32 \<Rightarrow> u32 \<Rightarrow> nat \<Rightarrow> (u32 \<Rightarrow> u32) \<Rightarrow> u32 \<Rightarrow> u32" where
  "copy_words_up d s n m =
     foldl (\<lambda>m i. m(d + 4 * word_of_nat i := m (s + 4 * word_of_nat i))) m [0..<n]"

definition copy_words_down :: "u32 \<Rightarrow> u32 \<Rightarrow> nat \<Rightarrow> (u32 \<Rightarrow> u32) \<Rightarrow> u32 \<Rightarrow> u32" where
  "copy_words_down d s n m =
     foldl (\<lambda>m i. m(d + 4 * word_of_nat i := m (s + 4 * word_of_nat i))) m (rev [0..<n])"

definition kbzero :: "u32 \<Rightarrow> u32 \<Rightarrow> 'a kheap_scheme \<Rightarrow> 'a kheap_scheme option" where
  "kbzero p len s = do {
     kassert (kptr p \<and> len AND 3 = 0);
     Some (s\<lparr> hp_mem := zero_words p (unat (len div 4)) (hp_mem s) \<rparr>)
   }"

definition kmemmove :: "u32 \<Rightarrow> u32 \<Rightarrow> u32 \<Rightarrow> 'a kheap_scheme \<Rightarrow> 'a kheap_scheme option" where
  "kmemmove dst src len s = do {
     kassert (kptr dst \<and> kptr src \<and> len AND 3 = 0);
     if dst < src
     then Some (s\<lparr> hp_mem := copy_words_up dst src (unat (len div 4)) (hp_mem s) \<rparr>)
     else Some (s\<lparr> hp_mem := copy_words_down dst src (unat (len div 4)) (hp_mem s) \<rparr>)
   }"

section \<open>The structures\<close>

definition sizeof_addrspace :: u32 where
  "sizeof_addrspace = 2060"

definition sizeof_pagetable2 :: u32 where
  "sizeof_pagetable2 = 16384"

definition as_vbase1 :: "u32 \<Rightarrow> u32" where
  "as_vbase1 as = as"

definition as_vbase2 :: "u32 \<Rightarrow> u32" where
  "as_vbase2 as = as + 4"

definition as_stackpbase :: "u32 \<Rightarrow> u32" where
  "as_stackpbase as = as + 8"

text \<open>\<^verbatim>\<open>&as->pagetable.pagetable2[i]\<close>\<close>

definition pagetable2 :: "u32 \<Rightarrow> u32 \<Rightarrow> u32" where
  "pagetable2 as i = as + 12 + 4 * i"

text \<open>\<^verbatim>\<open>&t->pageentry[j].phyaddr\<close> and \<^verbatim>\<open>&t->pageentry[j].valid\<close>\<close>

definition pe_phyaddr :: "u32 \<Rightarrow> u32 \<Rightarrow> u32" where
  "pe_phyaddr t j = t + 16 * j"

definition pe_valid :: "u32 \<Rightarrow> u32 \<Rightarrow> u32" where
  "pe_valid t j = t + 16 * j + 12"

text \<open>The two-level accesses \<^verbatim>\<open>as->pagetable.pagetable2[i]->pageentry[j].field\<close>.\<close>

definition pe_load :: "(u32 \<Rightarrow> u32 \<Rightarrow> u32) \<Rightarrow> u32 \<Rightarrow> u32 \<Rightarrow> u32 \<Rightarrow> 'a kheap_scheme \<Rightarrow> u32 option" where
  "pe_load field as i j s = do { t \<leftarrow> kload (pagetable2 as i) s; kload (field t j) s }"

definition pe_store :: "(u32 \<Rightarrow> u32 \<Rightarrow> u32) \<Rightarrow> u32 \<Rightarrow> u32 \<Rightarrow> u32 \<Rightarrow> u32 \<Rightarrow> 'a kheap_scheme \<Rightarrow> 'a kheap_scheme option" where
  "pe_store field as i j v s = do { t \<leftarrow> kload (pagetable2 as i) s; kstore (field t j) v s }"

section \<open>Page faults\<close>

definition VM_FAULT_READ :: int where
  "VM_FAULT_READ = 0"

definition VM_FAULT_WRITE :: int where
  "VM_FAULT_WRITE = 1"

definition VM_FAULT_READONLY :: int where
  "VM_FAULT_READONLY = 2"

definition TLBLO_DIRTY :: u32 where
  "TLBLO_DIRTY = 0x400"

definition TLBLO_VALID :: u32 where
  "TLBLO_VALID = 0x200"

definition TLBHI_INVALID :: "nat \<Rightarrow> u32" where
  "TLBHI_INVALID entryno = push_bit 12 (0x80000 + word_of_nat entryno)"

definition TLBLO_INVALID :: u32 where
  "TLBLO_INVALID = 0"

text \<open>The second-level table of an index, and the test that makes it on first use.\<close>

definition new_table :: "u32 \<Rightarrow> u32 \<Rightarrow> 'a kheap_scheme \<Rightarrow> 'a kheap_scheme option" where
  "new_table as i s = do {
     (t, s1) \<leftarrow> kmalloc sizeof_pagetable2 s;
     s2 \<leftarrow> kstore (pagetable2 as i) t s1;
     t' \<leftarrow> kload (pagetable2 as i) s2;
     kbzero t' sizeof_pagetable2 s2
   }"

definition need_table :: "u32 \<Rightarrow> u32 \<Rightarrow> 'a kheap_scheme \<Rightarrow> 'a kheap_scheme option" where
  "need_table as index1 s = do {
     t \<leftarrow> kload (pagetable2 as index1) s;
     if t = 0 then new_table as index1 s else Some s
   }"

text \<open>
  The page of an entry, made on first use. When \<^verbatim>\<open>alloc_kpages\<close> fails, its 0 is not the error code the code
  tests for: the physical address becomes \<open>0x80000000\<close>, and clearing the page at kernel address 0 stops
  the kernel.
\<close>

definition need_page :: "u32 \<Rightarrow> u32 \<Rightarrow> u32 \<Rightarrow> 'a kheap_scheme \<Rightarrow> ((errno + unit) \<times> 'a kheap_scheme) option" where
  "need_page as index1 index2 s = do {
     v \<leftarrow> pe_load pe_valid as index1 index2 s;
     if v = 0
     then do {
       (p, s1) \<leftarrow> alloc_kpages 1 s;
       s2 \<leftarrow> pe_store pe_phyaddr as index1 index2 p s1;
       p2 \<leftarrow> pe_load pe_phyaddr as index1 index2 s2;
       if p2 = errno_code ENOMEM then Some (Inl ENOMEM, s2)
       else do {
         s3 \<leftarrow> pe_store pe_phyaddr as index1 index2 (p2 - 0x80000000) s2;
         p3 \<leftarrow> pe_load pe_phyaddr as index1 index2 s3;
         kassert (vm_coremap_ptr s3 - 0x80000000 < p3);
         s4 \<leftarrow> pe_store pe_valid as index1 index2 1 s3;
         p4 \<leftarrow> pe_load pe_phyaddr as index1 index2 s4;
         s5 \<leftarrow> kbzero (PADDR_TO_KVADDR p4) PAGE_SIZE s4;
         Some (Inr (), s5)
       }
     }
     else Some (Inr (), s)
   }"

text \<open>The scan for a TLB slot that is not valid.\<close>

fun tlb_slot :: "nat \<Rightarrow> (u32 \<times> u32) list \<Rightarrow> nat option" where
  "tlb_slot i [] = None"
| "tlb_slot i ((ehi, elo) # es) = (if elo AND TLBLO_VALID \<noteq> 0 then tlb_slot (i + 1) es else Some i)"

definition tlb_load :: "u32 \<Rightarrow> u32 \<Rightarrow> 'a vmstate_scheme \<Rightarrow> (errno + unit) \<times> 'a vmstate_scheme" where
  "tlb_load faultaddress paddr s =
     (case tlb_slot 0 (vm_tlb s) of
        Some i \<Rightarrow> (Inr (), s\<lparr> vm_tlb := (vm_tlb s)[i := (faultaddress, paddr OR TLBLO_DIRTY OR TLBLO_VALID)] \<rparr>)
      | None \<Rightarrow> (Inl EFAULT, s))"

definition vm_fault :: "int \<Rightarrow> u32 \<Rightarrow> 'a vmstate_scheme \<Rightarrow> ((errno + unit) \<times> 'a vmstate_scheme) option" where
  "vm_fault faulttype faultaddress0 s0 =
     (if faultaddress0 > 0x80000000 then Some (Inl EFAULT, s0)
      else if faultaddress0 = 0 then Some (Inl EFAULT, s0)
      else if faultaddress0 AND 3 \<noteq> 0 then Some (Inl EFAULT, s0)
      else do {
        let spl = vm_spl s0;
        let s = s0\<lparr> vm_spl := SPL_HIGH \<rparr>;
        let faultaddress = faultaddress0 AND PAGE_FRAME;
        if faulttype = VM_FAULT_READONLY then None
        else if faulttype \<noteq> VM_FAULT_READ \<and> faulttype \<noteq> VM_FAULT_WRITE
        then Some (Inl EINVAL, s\<lparr> vm_spl := spl \<rparr>)
        else do {
          kassert (vm_curpid s \<noteq> None);
          let as = vm_as s;
          if as = 0 then Some (Inl EFAULT, s)
          else do {
            let index1 = drop_bit 22 (faultaddress AND 0xffc00000);
            let index2 = drop_bit 12 (faultaddress AND 0x003ff000);
            s1 \<leftarrow> need_table as index1 s;
            (r, s2) \<leftarrow> need_page as index1 index2 s1;
            case r of
              Inl e \<Rightarrow> Some (Inl e, s2)
            | Inr _ \<Rightarrow> do {
                paddr \<leftarrow> pe_load pe_phyaddr as index1 index2 s2;
                kassert (paddr AND PAGE_FRAME = paddr);
                let (r, s3) = tlb_load faultaddress paddr s2;
                Some (r, s3\<lparr> vm_spl := spl \<rparr>)
              }
          }
        }
      })"

section \<open>Address spaces\<close>

fun for_each :: "('i \<Rightarrow> 's \<Rightarrow> 's option) \<Rightarrow> 'i list \<Rightarrow> 's \<Rightarrow> 's option" where
  "for_each body [] s = Some s"
| "for_each body (i # is) s = do { s' \<leftarrow> body i s; for_each body is s' }"

definition as_create :: "'a kheap_scheme \<Rightarrow> (u32 \<times> 'a kheap_scheme) option" where
  "as_create s = do {
     (as, s1) \<leftarrow> kmalloc sizeof_addrspace s;
     if as = 0 then Some (0, s1)
     else do {
       s2 \<leftarrow> kstore (as_vbase1 as) 0 s1;
       s3 \<leftarrow> kstore (as_vbase2 as) 0 s2;
       s4 \<leftarrow> kstore (as_stackpbase as) 0 s3;
       s5 \<leftarrow> for_each (\<lambda>i. kstore (pagetable2 as (word_of_nat i)) 0) [0..<512] s4;
       Some (as, s5)
     }
   }"

text \<open>
  \<^verbatim>\<open>freepagetable\<close> gets the first-level table by value: \<open>pt\<close> is the copy made for the call, and
  resetting its entries changes nothing outside.
\<close>

definition free_page_entry :: "u32 \<Rightarrow> nat \<Rightarrow> 'a kheap_scheme \<Rightarrow> 'a kheap_scheme option" where
  "free_page_entry t j s = do {
     v \<leftarrow> kload (pe_valid t (word_of_nat j)) s;
     if v \<noteq> 0
     then do {
       p \<leftarrow> kload (pe_phyaddr t (word_of_nat j)) s;
       free_kpages (PADDR_TO_KVADDR p) s
     }
     else Some s
   }"

definition free_table :: "(nat \<Rightarrow> u32) \<Rightarrow> nat \<Rightarrow> 'a kheap_scheme \<Rightarrow> 'a kheap_scheme option" where
  "free_table pt i s =
     (if pt i \<noteq> 0
      then do {
        s1 \<leftarrow> for_each (free_page_entry (pt i)) [0..<1024] s;
        kfree (pt i) s1
      }
      else Some s)"

definition freepagetable :: "(nat \<Rightarrow> u32) \<Rightarrow> 'a kheap_scheme \<Rightarrow> 'a kheap_scheme option" where
  "freepagetable pt s = for_each (free_table pt) [0..<512] s"

definition as_destroy :: "u32 \<Rightarrow> 'a kheap_scheme \<Rightarrow> 'a kheap_scheme option" where
  "as_destroy as s = do {
     kassert (kptr as);
     s1 \<leftarrow> freepagetable (\<lambda>i. hp_mem s (pagetable2 as (word_of_nat i))) s;
     kfree as s1
   }"

definition as_activate :: "u32 \<Rightarrow> 'a vmstate_scheme \<Rightarrow> 'a vmstate_scheme option" where
  "as_activate as s =
     for_each (\<lambda>i s. do {
       tlb \<leftarrow> slot_set (vm_tlb s) (int i) (TLBHI_INVALID i, TLBLO_INVALID);
       Some (s\<lparr> vm_tlb := tlb \<rparr>)
     }) [0..<NUM_TLB] s"

definition as_define_region ::
  "u32 \<Rightarrow> u32 \<Rightarrow> u32 \<Rightarrow> 'a kheap_scheme \<Rightarrow> ((errno + unit) \<times> 'a kheap_scheme) option" where
  "as_define_region as vaddr sz s = do {
     v1 \<leftarrow> kload (as_vbase1 as) s;
     if v1 = 0 then do { s1 \<leftarrow> kstore (as_vbase1 as) vaddr s; Some (Inr (), s1) }
     else do {
       v2 \<leftarrow> kload (as_vbase2 as) s;
       if v2 = 0 then do { s1 \<leftarrow> kstore (as_vbase2 as) vaddr s; Some (Inr (), s1) }
       else Some (Inl EUNIMP, s)
     }
   }"

definition as_prepare_load :: "u32 \<Rightarrow> 'a kheap_scheme \<Rightarrow> (errno + unit) option" where
  "as_prepare_load as s = do {
     p \<leftarrow> kload (as_stackpbase as) s;
     kassert (p = 0);
     Some (Inr ())
   }"

definition as_complete_load :: "u32 \<Rightarrow> errno + unit" where
  "as_complete_load as = Inr ()"

definition as_define_stack :: "u32 \<Rightarrow> (errno + u32) option" where
  "as_define_stack as = do { kassert (as \<noteq> 0); Some (Inr MIPS_KSEG0) }"

text \<open>\<^verbatim>\<open>as_copy\<close>: one page, one second-level table, all of them; each may return early with an error.\<close>

definition copy_page :: "u32 \<Rightarrow> u32 \<Rightarrow> nat \<Rightarrow> nat \<Rightarrow> 'a kheap_scheme \<Rightarrow> ((errno + unit) \<times> 'a kheap_scheme) option" where
  "copy_page old new i j s = do {
     let iw = word_of_nat i;
     let jw = word_of_nat j;
     v \<leftarrow> pe_load pe_valid old iw jw s;
     if v = 1
     then do {
       (p, s1) \<leftarrow> alloc_kpages 1 s;
       s2 \<leftarrow> pe_store pe_phyaddr new iw jw p s1;
       p2 \<leftarrow> pe_load pe_phyaddr new iw jw s2;
       if p2 = errno_code ENOMEM then Some (Inl ENOMEM, s2)
       else do {
         s3 \<leftarrow> pe_store pe_phyaddr new iw jw (p2 - 0x80000000) s2;
         pn \<leftarrow> pe_load pe_phyaddr new iw jw s3;
         kassert (vm_coremap_ptr s3 - 0x80000000 < pn);
         po \<leftarrow> pe_load pe_phyaddr old iw jw s3;
         kassert (vm_coremap_ptr s3 - 0x80000000 < po);
         s4 \<leftarrow> pe_store pe_valid new iw jw 1 s3;
         pn' \<leftarrow> pe_load pe_phyaddr new iw jw s4;
         po' \<leftarrow> pe_load pe_phyaddr old iw jw s4;
         s5 \<leftarrow> kmemmove (PADDR_TO_KVADDR pn') (PADDR_TO_KVADDR po') PAGE_SIZE s4;
         Some (Inr (), s5)
       }
     }
     else Some (Inr (), s)
   }"

fun until_error ::
  "('i \<Rightarrow> 's \<Rightarrow> ((errno + unit) \<times> 's) option) \<Rightarrow> 'i list \<Rightarrow> 's \<Rightarrow> ((errno + unit) \<times> 's) option" where
  "until_error body [] s = Some (Inr (), s)"
| "until_error body (i # is) s = do {
     (r, s') \<leftarrow> body i s;
     case r of Inl e \<Rightarrow> Some (Inl e, s') | Inr _ \<Rightarrow> until_error body is s'
   }"

definition copy_table :: "u32 \<Rightarrow> u32 \<Rightarrow> nat \<Rightarrow> 'a kheap_scheme \<Rightarrow> ((errno + unit) \<times> 'a kheap_scheme) option" where
  "copy_table old new i s = do {
     t \<leftarrow> kload (pagetable2 old (word_of_nat i)) s;
     if t \<noteq> 0
     then do {
       s1 \<leftarrow> new_table new (word_of_nat i) s;
       until_error (copy_page old new i) [0..<1024] s1
     }
     else Some (Inr (), s)
   }"

definition as_copy :: "u32 \<Rightarrow> 'a kheap_scheme \<Rightarrow> ((errno + u32) \<times> 'a kheap_scheme) option" where
  "as_copy old s = do {
     (new, s1) \<leftarrow> as_create s;
     if new = 0 then Some (Inl ENOMEM, s1)
     else do {
       b1 \<leftarrow> kload (as_vbase1 old) s1;
       s2 \<leftarrow> kstore (as_vbase1 new) b1 s1;
       b2 \<leftarrow> kload (as_vbase2 old) s2;
       s3 \<leftarrow> kstore (as_vbase2 new) b2 s2;
       sp \<leftarrow> kload (as_stackpbase old) s3;
       s4 \<leftarrow> kstore (as_stackpbase new) sp s3;
       r \<leftarrow> as_prepare_load new s4;
       case r of
         Inl _ \<Rightarrow> do { s5 \<leftarrow> as_destroy new s4; Some (Inl ENOMEM, s5) }
       | Inr _ \<Rightarrow> do {
           (r, s5) \<leftarrow> until_error (copy_table old new) [0..<512] s4;
           case r of Inl e \<Rightarrow> Some (Inl e, s5) | Inr _ \<Rightarrow> Some (Inr new, s5)
         }
     }
   }"

end
