(* ===== verification/Kern_Heap_Client.thy ===== *)
theory Kern_Heap_Client
  imports Kern_Heap_Props
begin

text \<open>
  What the users of the kernel heap may rely on beyond the interface of \<^verbatim>\<open>kmalloc\<close> and \<^verbatim>\<open>kfree\<close>: writing
  into a live block does not disturb the heap, and blocks of whole pages come from \<^verbatim>\<open>alloc_kpages\<close> and
  may go back through \<^verbatim>\<open>free_kpages\<close> or \<^verbatim>\<open>kfree\<close> alike.
\<close>

section \<open>Writing into live blocks\<close>

lemma live_mono: "(\<And>p. p \<in> set ps \<Longrightarrow> set (fl' p) \<subseteq> set (fl p)) \<Longrightarrow> heap_live s own ps fl \<subseteq> heap_live s own ps fl'"
  unfolding heap_live_def by blast

lemma free_not_live:
  assumes inv: "heap_inv X s own ps qs fl" and p: "p \<in> set ps" "x \<in> set (fl p)" and bl: "bl \<in> heap_live s own ps fl"
  shows "unat x \<notin> brange bl"
proof -
  let ?pr = "hp_pagerefs s ! p" and ?fl = "\<lambda>_. []"
  have xb: "x \<in> page_blocks (PR_PAGEADDR ?pr) (pr_blk ?pr)"
    using page_okD(4) [OF heap_invD(11) [OF inv p(1)]] p(2) by blast
  then have x: "(x, bsize (pr_blk ?pr)) \<in> heap_live s own ps ?fl"
    using p(1) unfolding heap_live_def by auto
  have y: "(fst bl, snd bl) \<in> heap_live s own ps ?fl" using live_mono [of ps ?fl fl] bl by auto
  have "bl \<noteq> (x, bsize (pr_blk ?pr))" using live_in_page [OF inv p(1) refl xb] p(2) bl by blast
  then have "brange (x, bsize (pr_blk ?pr)) \<inter> brange (fst bl, snd bl) = {}"
    by (intro blocks_disjoint [OF inv x y]) auto
  moreover have "unat x \<in> brange (x, bsize (pr_blk ?pr))"
    using bsize_bounds(6) [OF heap_inv_page(1) [OF inv p(1)]] by (simp add: brange_def)
  ultimately show ?thesis by auto
qed

lemma heap_rep_write:
  assumes rep: "heap_rep s L" and m: "\<And>w. (\<And>bl. bl \<in> L \<Longrightarrow> unat w \<notin> brange bl) \<Longrightarrow> m w = hp_mem s w"
  shows "heap_rep (s\<lparr> hp_mem := m \<rparr>) L"
proof -
  obtain own ps qs fl where inv: "heap_inv {} s own ps qs fl" and L: "heap_live s own ps fl = L"
    using rep by (auto simp: heap_rep_def)
  have "page_ok m (hp_pagerefs s ! p) (fl p)" if "p \<in> set ps" for p
    using heap_invD(11) [OF inv that] page_ok_mem_cong [of "fl p" "hp_mem s" m] free_not_live [OF inv that] m L by metis
  then have "heap_inv {} (s\<lparr> hp_mem := m \<rparr>) own ps qs fl"
    using inv unfolding heap_inv_def by (elim conjE) simp
  then show ?thesis by (rule heap_repI) (use L in \<open>simp add: heap_live_def\<close>)
qed

section \<open>Blocks of whole pages\<close>

lemma bsize_less_page: "b < 8 \<Longrightarrow> bsize b < 4096"
  using bsize_bounds(2) by force

lemma alloc_pageleft:
  assumes "pm_rep s own" "pm_rep s' (own(a \<mapsto> k))" "own a = None" "pm_frame s s'"
  shows "unat (vm_pageleft s') + k = unat (vm_pageleft s)"
proof -
  have fin: "finite (dom own)"
    using assms(1) unfolding pm_rep_def by (meson finite_imageI finite_lessThan finite_subset)
  have "(\<Sum>x\<in>dom own. the ((own(a \<mapsto> k)) x)) = (\<Sum>x\<in>dom own. the (own x))"
    using assms(3) by (intro sum.cong) auto
  moreover have "(\<Sum>x\<in>insert a (dom own). the ((own(a \<mapsto> k)) x)) = k + (\<Sum>x\<in>dom own. the ((own(a \<mapsto> k)) x))"
    using fin assms(3) by (subst sum.insert) auto
  ultimately have "(\<Sum>x\<in>dom (own(a \<mapsto> k)). the ((own(a \<mapsto> k)) x)) = k + (\<Sum>x\<in>dom own. the (own x))"
    by simp
  then show ?thesis
    using free_and_owned [OF assms(1)] free_and_owned [OF assms(2)] pm_frameD(2) [OF assms(4)] by simp
qed

lemma alloc_pages_outcome:
  assumes rep: "heap_rep s L" and np: "0 < np"
  shows "\<exists>p s'. alloc_kpages np s = Some (p, s') \<and> hp_mem s' = hp_mem s \<and> pm_frame s s' \<and>
    (p = 0 \<and> heap_rep s' L \<and> \<not> pm_room s (unat np) \<or>
     p \<noteq> 0 \<and> (p, 4096 * unat np) \<notin> L \<and> heap_rep s' (insert (p, 4096 * unat np) L) \<and> pm_room s (unat np) \<and>
       unat (vm_pageleft s') + unat np = unat (vm_pageleft s) \<and>
       (\<forall>N. pm_room s N \<and> unat np \<le> N \<longrightarrow> pm_room s' (N - unat np)))"
proof -
  obtain own ps qs fl where inv: "heap_inv {} s own ps qs fl" and L: "heap_live s own ps fl = L"
    using rep by (auto simp: heap_rep_def)
  note prep = heap_invD(1) [OF inv]
  from kpages.alloc_returns [OF prep np] obtain p s' where al: "alloc_kpages np s = Some (p, s')" by auto
  show ?thesis
  proof (cases rule: kpages.alloc_cases [OF prep np al])
    case 1
    have "heap_inv {} s' own ps qs fl" using heap_invD(13) [OF inv] by (intro heap_inv_frame [OF inv 1(4,2)]) simp
    then have "heap_rep s' L" by (rule heap_repI) (use L hp_frame [OF 1(4)] in \<open>simp add: heap_live_def\<close>)
    then show ?thesis using al 1 hp_frame(1) [OF 1(4)] by blast
  next
    case 2
    note A = heap_big_alloc [OF inv 2(2,5,3)]
    have "unat (vm_pageleft s') + unat np = unat (vm_pageleft s)" by (rule alloc_pageleft [OF prep 2(3,2,5)])
    then show ?thesis
      using al 2 A(3) heap_repI [OF A(1,2)] hp_frame(1) [OF 2(5)] alloc_room_left [OF prep np _ _ al] unfolding L by blast
  qed
qed

lemma live_pages:
  assumes inv: "heap_inv X s own ps qs fl" and p: "(p, n) \<in> heap_live s own ps fl" "4096 \<le> n"
  obtains k where "own p = Some k" "n = 4096 * k" "\<And>q. q \<in> set ps \<Longrightarrow> PR_PAGEADDR (hp_pagerefs s ! q) \<noteq> p"
  using p(1)
proof (cases rule: live_cases)
  case (sub q)
  then show thesis using bsize_less_page [OF heap_inv_page(1) [OF inv sub(1)]] p(2) by simp
qed (rule that)

lemma live_page_aligned:
  assumes "heap_rep s L" "(p, n) \<in> L" "4096 \<le> n"
  shows "4096 dvd unat p"
proof -
  obtain own ps qs fl where inv: "heap_inv {} s own ps qs fl" and L: "heap_live s own ps fl = L"
    using assms(1) by (auto simp: heap_rep_def)
  from live_pages [OF inv _ assms(3), of p] assms(2) L obtain k where "own p = Some k" by metis
  from pm_block_bounds(2) [OF heap_invD(1) [OF inv] this] show ?thesis .
qed

lemma free_pages_outcome:
  assumes rep: "heap_rep s L" and p: "(p, n) \<in> L" "4096 \<le> n"
  shows "\<exists>s'. free_kpages p s = Some s' \<and> kfree p s = Some s' \<and> hp_mem s' = hp_mem s \<and> pm_frame s s' \<and>
    heap_rep s' (L - {(p, n)})"
proof -
  obtain own ps qs fl where inv: "heap_inv {} s own ps qs fl" and L: "heap_live s own ps fl = L"
    using rep by (auto simp: heap_rep_def)
  from live_pages [OF inv _ p(2), of p] p(1) L obtain k where
    k: "own p = Some k" "n = 4096 * k" "\<And>q. q \<in> set ps \<Longrightarrow> PR_PAGEADDR (hp_pagerefs s ! q) \<noteq> p" by metis
  from kfree_pages [OF inv k(1,3)] have run: "kfree p s = free_kpages p s" by simp
  from kpages.release_block [OF heap_invD(1) [OF inv] k(1)] obtain s' where
    s': "free_kpages p s = Some s'" "pm_rep s' (own(p := None))" "pm_frame s s'" by blast
  note F = heap_big_free [OF inv k(1) k(3) s'(3,2)]
  show ?thesis
    using run s'(1,3) heap_repI [OF F(1) F(2)] hp_frame(1) [OF s'(3)] k(2) L by auto
qed

section \<open>What users of the heap may change\<close>

text \<open>
  The fields of the state that allocation, release and writes to memory change.
\<close>

definition kframe :: "'a kheap_scheme \<Rightarrow> 'a kheap_scheme \<Rightarrow> bool" where
  "kframe s s' \<longleftrightarrow> (\<exists>c l sp m. s' = s\<lparr> vm_coremap := c, vm_pageleft := l, vm_spl := sp, hp_mem := m \<rparr>)"

lemma kframe_refl [simp]: "kframe s s"
  unfolding kframe_def by (rule exI [of _ "vm_coremap s"], rule exI [of _ "vm_pageleft s"],
      rule exI [of _ "vm_spl s"], rule exI [of _ "hp_mem s"]) simp

lemma kframe_trans: "kframe s s' \<Longrightarrow> kframe s' s'' \<Longrightarrow> kframe s s''"
  unfolding kframe_def by (elim exE) (simp, blast)

lemma kframe_mem: "kframe s s' \<Longrightarrow> kframe s (s'\<lparr> hp_mem := m \<rparr>)"
  unfolding kframe_def by (elim exE) (simp, blast)

lemma kframe_spl:
  assumes "kframe s s'"
  shows "kframe s (s'\<lparr> vm_spl := sp \<rparr>)"
proof -
  from assms obtain c l x m where "s' = s\<lparr> vm_coremap := c, vm_pageleft := l, vm_spl := x, hp_mem := m \<rparr>"
    unfolding kframe_def by blast
  then have "s'\<lparr> vm_spl := sp \<rparr> = s\<lparr> vm_coremap := c, vm_pageleft := l, vm_spl := sp, hp_mem := m \<rparr>" by simp
  then show ?thesis unfolding kframe_def by blast
qed

lemma pm_kframe:
  assumes "pm_frame s s'"
  shows "kframe s s'"
proof -
  from assms obtain c l sp where "s' = s\<lparr> vm_coremap := c, vm_pageleft := l, vm_spl := sp \<rparr>"
    unfolding pm_frame_def by blast
  then have "s' = s\<lparr> vm_coremap := c, vm_pageleft := l, vm_spl := sp, hp_mem := hp_mem s \<rparr>" by simp
  then show ?thesis unfolding kframe_def by blast
qed

lemma kframeD:
  assumes "kframe s s'"
  shows "vm_coremap_ptr s' = vm_coremap_ptr s" "vm_curpid s' = vm_curpid s" "kheap.more s' = kheap.more s"
  using assms by (auto simp: kframe_def)

text \<open>Whole pages lie above the coremap.\<close>

lemma live_above_coremap:
  assumes rep: "heap_rep s L" and p: "(p, n) \<in> L" "4096 \<le> n"
  shows "vm_coremap_ptr s - 0x80000000 < p - 0x80000000"
proof -
  obtain own ps qs fl where inv: "heap_inv {} s own ps qs fl" and L: "heap_live s own ps fl = L"
    using rep by (auto simp: heap_rep_def)
  from live_pages [OF inv _ p(2), of p] p(1) L obtain k where "own p = Some k" by metis
  with pm_repD(5) [OF heap_invD(1) [OF inv]] obtain i where
    i: "i < length (vm_coremap s)" "p = kpage s i" by blast
  have wf: "cm_wf s" by (rule pm_repD(1) [OF heap_invD(1) [OF inv]])
  have "p - 0x80000000 = vm_toppage_ptr s + 4096 * word_of_nat i"
    using i wf by (simp add: kpage_def PADDR_TO_KVADDR_def MIPS_KSEG0_def cm_wf_def)
  moreover have "unat (vm_toppage_ptr s + 4096 * word_of_nat i) = unat (vm_toppage_ptr s) + 4096 * i"
    using unat_page_addr(1) [where base = "vm_toppage_ptr s" and n = "length (vm_coremap s)" and k = i] wf i(1)
    by (simp add: cm_wf_def)
  ultimately have "vm_toppage_ptr s \<le> p - 0x80000000" by (simp add: word_le_nat_alt)
  then show ?thesis using wf unfolding cm_wf_def by (meson order_less_le_trans)
qed


lemma pm_room_mem [simp]: "pm_room (s\<lparr> hp_mem := m \<rparr>) n = pm_room s n"
  by (simp add: pm_room_def)

lemma pm_room_one:
  assumes "heap_rep s L"
  shows "pm_room s 1 \<longleftrightarrow> 0 < vm_pageleft s"
proof -
  have wf: "cm_wf s" using assms heap_invD(1) pm_repD(1) unfolding heap_rep_def by blast
  have "pm_room s 1 \<longleftrightarrow> free_pages (vm_coremap s) \<noteq> {}"
    using less_Suc_eq_le by (fastforce simp: pm_room_def free_run_def free_pages_def)
  also have "\<dots> \<longleftrightarrow> 0 < card (free_pages (vm_coremap s))" by (simp add: card_gt_0_iff free_pages_finite)
  finally show ?thesis using wf by (simp add: cm_wf_def word_less_nat_alt)
qed

end
