(* ===== verification/Kern_VM_Inv.thy ===== *)
theory Kern_VM_Inv
  imports Kern_VM Kern_Heap_Client
begin

text \<open>
  The memory of an address space: addresses inside live blocks of the heap, the effect of the
  word loops, the invariant of an address space, and what adding a table or a page does to it.
\<close>

section \<open>Addresses inside live blocks\<close>

definition arena :: "(u32 \<times> nat) set \<Rightarrow> bool" where
  "arena L \<longleftrightarrow> (\<forall>p n. (p, n) \<in> L \<longrightarrow> 0 < n \<and> 16 dvd unat p \<and> 2 ^ 31 \<le> unat p \<and> unat p + n \<le> 0xa0000000 \<and>
      (4096 \<le> n \<longrightarrow> 4096 dvd unat p)) \<and>
     (\<forall>bl\<in>L. \<forall>bl'\<in>L. bl \<noteq> bl' \<longrightarrow> brange bl \<inter> brange bl' = {})"

lemma heap_arena:
  assumes "heap_rep s L"
  shows "arena L"
  using kh.live_block [OF assms] live_page_aligned [OF assms] kh.live_apart [OF assms]
  unfolding arena_def by blast

lemma arena_subset: "arena L \<Longrightarrow> L' \<subseteq> L \<Longrightarrow> arena L'"
  unfolding arena_def by blast

lemma arena_fresh:
  assumes "arena (insert b L)" "b \<notin> L" "bl \<in> L" "x \<in> brange bl"
  shows "x \<notin> brange b"
proof -
  have "\<forall>bl\<in>insert b L. \<forall>bl'\<in>insert b L. bl \<noteq> bl' \<longrightarrow> brange bl \<inter> brange bl' = {}" 
    using assms(1) unfolding arena_def by (rule conjunct2)
  moreover have "bl \<noteq> b" using assms(2,3) by auto
  ultimately have "brange bl \<inter> brange b = {}" using assms(3) by blast
  then show ?thesis using assms(4) by blast
qed

definition wd :: "u32 \<Rightarrow> nat \<Rightarrow> u32" where
  "wd p off = p + word_of_nat off"

lemma unat_wd:
  assumes "arena L" "(p, n) \<in> L" "off < n"
  shows "unat (wd p off) = unat p + off"
proof -
  have "unat p + n \<le> 0xa0000000" using assms(1,2) unfolding arena_def by blast
  then show ?thesis unfolding wd_def using assms(3) by (intro unat_add_small) simp
qed

lemma wd_in_block:
  assumes "arena L" "(p, n) \<in> L" "off < n"
  shows "unat (wd p off) \<in> brange (p, n)"
  using unat_wd [OF assms] assms(3) by (simp add: brange_def)

lemma in_block_wd:
  assumes "unat w \<in> brange (p, n)"
  shows "\<exists>off<n. w = wd p off"
proof -
  have "w = wd p (unat w - unat p)" using assms by (simp add: wd_def brange_def of_nat_diff)
  moreover have "unat w - unat p < n" using assms by (auto simp: brange_def)
  ultimately show ?thesis by blast
qed

lemma wd_eq_iff:
  assumes "arena L" "(p, n) \<in> L" "off < n" "(q, m) \<in> L" "off' < m"
  shows "wd p off = wd q off' \<longleftrightarrow> p = q \<and> off = off'"
proof
  assume eq: "wd p off = wd q off'"
  have "(p, n) = (q, m)"
  proof (rule ccontr)
    assume "(p, n) \<noteq> (q, m)"
    then have "brange (p, n) \<inter> brange (q, m) = {}" using assms(1,2,4) unfolding arena_def by blast
    then show False using wd_in_block [OF assms(1-3)] wd_in_block [OF assms(1,4,5)] eq by auto
  qed
  then have pq: "p = q" by blast
  have "unat p + off = unat q + off'"
    unfolding unat_wd [OF assms(1-3), symmetric] unat_wd [OF assms(1,4,5), symmetric] eq ..
  then show "p = q \<and> off = off'" unfolding pq by simp
qed simp

lemma arena_unique:
  assumes "arena L" "(p, n) \<in> L" "(p, m) \<in> L"
  shows "n = m"
proof (rule ccontr)
  assume "n \<noteq> m"
  moreover have D: "\<And>bl bl'. bl \<in> L \<Longrightarrow> bl' \<in> L \<Longrightarrow> bl \<noteq> bl' \<Longrightarrow> brange bl \<inter> brange bl' = {}" "0 < n" "0 < m"
    using assms unfolding arena_def by blast+
  ultimately have "brange (p, n) \<inter> brange (p, m) = {}" using assms(2,3) by simp
  moreover have "unat p \<in> brange (p, n) \<inter> brange (p, m)" using D(2,3) by (simp add: brange_def)
  ultimately show False by simp
qed

lemma and_3_iff: "p AND 3 = (0 :: u32) \<longleftrightarrow> 4 dvd unat p"
proof -
  have "p AND 3 = take_bit 2 p" by (simp add: take_bit_eq_mask mask_eq_exp_minus_1)
  moreover have "unat (take_bit 2 p) = take_bit 2 (unat p)" by (rule unsigned_take_bit_eq)
  moreover have "take_bit 2 (unat p) = unat p mod 4" by (simp add: take_bit_eq_mod)
  ultimately show ?thesis by (metis dvd_eq_mod_eq_0 unat_eq_zero)
qed

lemma kptr_wd:
  assumes "arena L" "(p, n) \<in> L" "off < n" "4 dvd off"
  shows "kptr (wd p off)"
proof -
  note U = unat_wd [OF assms(1-3)]
  have b: "16 dvd unat p" "2 ^ 31 \<le> unat p" "unat p + n \<le> 0xa0000000" using assms(1,2) unfolding arena_def by blast+
  have "4 dvd unat p" using b(1) by (rule dvd_trans [rotated]) simp
  then have "wd p off AND 3 = 0" using U assms(4) by (simp add: and_3_iff)
  moreover have "MIPS_KSEG0 \<le> wd p off" "wd p off < MIPS_KSEG1"
    using U b(2,3) assms(3) by (simp_all add: word_le_nat_alt word_less_nat_alt MIPS_KSEG0_def MIPS_KSEG1_def)
  ultimately show ?thesis by (simp add: kptr_def)
qed

lemma kptr_0 [simp]: "\<not> kptr 0"
  by (simp add: kptr_def MIPS_KSEG0_def)

lemma wd_0 [simp]: "wd p 0 = p"
  by (simp add: wd_def)

lemma field_offsets:
  "as_vbase1 a = wd a 0" "as_vbase2 a = wd a 4" "as_stackpbase a = wd a 8"
  "pagetable2 a (word_of_nat i) = wd a (12 + 4 * i)"
  "pe_phyaddr t (word_of_nat j) = wd t (16 * j)" "pe_valid t (word_of_nat j) = wd t (16 * j + 12)"
  by (simp_all add: wd_def as_vbase1_def as_vbase2_def as_stackpbase_def pagetable2_def pe_phyaddr_def pe_valid_def)

section \<open>The word loops\<close>

text \<open>Memories that agree inside a set of blocks.\<close>

definition mem_keep :: "(u32 \<times> nat) set \<Rightarrow> (u32 \<Rightarrow> u32) \<Rightarrow> (u32 \<Rightarrow> u32) \<Rightarrow> bool" where
  "mem_keep B m m' \<longleftrightarrow> (\<forall>bl w. bl \<in> B \<and> unat w \<in> brange bl \<longrightarrow> m' w = m w)"

lemma mem_keepD: "mem_keep B m m' \<Longrightarrow> (p, n) \<in> B \<Longrightarrow> unat w \<in> brange (p, n) \<Longrightarrow> m' w = m w"
  unfolding mem_keep_def by blast

lemma mem_keep_refl [simp]: "mem_keep B m m"
  by (simp add: mem_keep_def)

lemma mem_keep_trans: "mem_keep B m m' \<Longrightarrow> mem_keep B m' m'' \<Longrightarrow> mem_keep B m m''"
  unfolding mem_keep_def by metis

lemma mem_keep_mono: "mem_keep B m m' \<Longrightarrow> B' \<subseteq> B \<Longrightarrow> mem_keep B' m m'"
  unfolding mem_keep_def by blast

lemma zero_words_step: "zero_words p (Suc n) m = (zero_words p n m)(wd p (4 * n) := 0)"
  by (simp add: zero_words_def wd_def)

lemma zero_words_spec:
  assumes "arena L" "(p, n) \<in> L" "4 * k \<le> n"
  shows "\<And>i. i < k \<Longrightarrow> zero_words p k m (wd p (4 * i)) = 0"
    and "\<And>w. unat w \<notin> brange (p, n) \<Longrightarrow> zero_words p k m w = m w"
proof -
  show "zero_words p k m (wd p (4 * i)) = 0" if "i < k" for i
    using that assms(3)
  proof (induction k)
    case (Suc k)
    then show ?case by (cases "i = k") (auto simp: zero_words_step)
  qed simp
  show "zero_words p k m w = m w" if w: "unat w \<notin> brange (p, n)" for w
    using assms(3)
  proof (induction k)
    case (Suc k)
    have "wd p (4 * k) \<noteq> w" using wd_in_block [OF assms(1,2), of "4 * k"] Suc.prems w by auto
    then show ?case using Suc by (simp add: zero_words_step)
  qed (simp add: zero_words_def)
qed

lemma copy_words_up_step:
  "copy_words_up d s (Suc n) m =
     (copy_words_up d s n m)(wd d (4 * n) := copy_words_up d s n m (wd s (4 * n)))"
  by (simp add: copy_words_up_def wd_def)

lemma copy_words_down_step:
  "copy_words_down d s (Suc n) m = copy_words_down d s n (m(wd d (4 * n) := m (wd s (4 * n))))"
  by (simp add: copy_words_down_def wd_def)

lemma copy_words_spec:
  assumes "arena L" "(d, n) \<in> L" "(s, n) \<in> L" "d \<noteq> s" "4 * k \<le> n"
  shows "\<And>i. i < k \<Longrightarrow> copy_words_up d s k m (wd d (4 * i)) = m (wd s (4 * i))"
    "\<And>w. unat w \<notin> brange (d, n) \<Longrightarrow> copy_words_up d s k m w = m w"
    "\<And>i. i < k \<Longrightarrow> copy_words_down d s k m (wd d (4 * i)) = m (wd s (4 * i))"
    "\<And>w. unat w \<notin> brange (d, n) \<Longrightarrow> copy_words_down d s k m w = m w"
proof -
  have ne: "wd d (4 * i) \<noteq> wd s (4 * j)" if "4 * i < n" "4 * j < n" for i j
    using wd_eq_iff [OF assms(1,2) that(1) assms(3) that(2)] assms(4) by simp
  have dd: "wd d (4 * i) = wd d (4 * j) \<longleftrightarrow> i = j" if "4 * i < n" "4 * j < n" for i j
    using wd_eq_iff [OF assms(1,2) that(1) assms(2) that(2)] by simp
  have up: "(\<forall>i<k. copy_words_up d s k m (wd d (4 * i)) = m (wd s (4 * i))) \<and>
      (\<forall>w. (\<forall>i<k. w \<noteq> wd d (4 * i)) \<longrightarrow> copy_words_up d s k m w = m w)"
    using assms(5)
  proof (induction k)
    case (Suc k)
    then have IH: "\<And>i. i < k \<Longrightarrow> copy_words_up d s k m (wd d (4 * i)) = m (wd s (4 * i))"
      "\<And>w. \<forall>i<k. w \<noteq> wd d (4 * i) \<Longrightarrow> copy_words_up d s k m w = m w" by simp_all
    have "copy_words_up d s k m (wd s (4 * k)) = m (wd s (4 * k))"
    proof (intro IH(2) allI impI)
      fix i
      assume "i < k"
      then show "wd s (4 * k) \<noteq> wd d (4 * i)" using ne [of i k] Suc.prems by simp
    qed
    moreover have "wd d (4 * i) \<noteq> wd d (4 * k)" if "i < k" for i using dd [of i k] that Suc.prems by simp
    ultimately show ?case unfolding copy_words_up_step using IH by (simp add: less_Suc_eq)
  qed (simp add: copy_words_up_def)
  have down: "(\<forall>i<k. copy_words_down d s k m (wd d (4 * i)) = m (wd s (4 * i))) \<and>
      (\<forall>w. (\<forall>i<k. w \<noteq> wd d (4 * i)) \<longrightarrow> copy_words_down d s k m w = m w)"
    using assms(5)
  proof (induction k arbitrary: m)
    case (Suc k)
    define m1 where "m1 = m(wd d (4 * k) := m (wd s (4 * k)))"
    have IH: "\<And>i. i < k \<Longrightarrow> copy_words_down d s k m1 (wd d (4 * i)) = m1 (wd s (4 * i))"
      "\<And>w. \<forall>i<k. w \<noteq> wd d (4 * i) \<Longrightarrow> copy_words_down d s k m1 w = m1 w"
      using Suc.IH [of m1] Suc.prems by auto
    have s: "m1 (wd s (4 * i)) = m (wd s (4 * i))" if "i < Suc k" for i
      using ne [of k i] that Suc.prems by (simp add: m1_def)
    have o: "m1 w = m w" if "w \<noteq> wd d (4 * k)" for w using that by (simp add: m1_def)
    have dk: "\<forall>i<k. wd d (4 * k) \<noteq> wd d (4 * i)"
    proof (intro allI impI)
      fix i
      assume "i < k"
      then show "wd d (4 * k) \<noteq> wd d (4 * i)" using dd [of k i] Suc.prems by simp
    qed
    have "copy_words_down d s k m1 (wd d (4 * k)) = m (wd s (4 * k))"
      using IH(2) [OF dk] by (simp add: m1_def)
    then have "\<forall>i<Suc k. copy_words_down d s k m1 (wd d (4 * i)) = m (wd s (4 * i))"
      using IH(1) s by (simp add: less_Suc_eq)
    moreover have "\<forall>w. (\<forall>i<Suc k. w \<noteq> wd d (4 * i)) \<longrightarrow> copy_words_down d s k m1 w = m w"
      using IH(2) o by simp
    ultimately show ?case unfolding copy_words_down_step m1_def by blast
  qed (simp add: copy_words_down_def)
  have out: "\<forall>i<k. w \<noteq> wd d (4 * i)" if "unat w \<notin> brange (d, n)" for w
  proof (intro allI impI)
    fix i
    assume "i < k"
    then have "unat (wd d (4 * i)) \<in> brange (d, n)" using assms(5) by (intro wd_in_block [OF assms(1,2)]) simp
    then show "w \<noteq> wd d (4 * i)" using that by auto
  qed
  show "\<And>i. i < k \<Longrightarrow> copy_words_up d s k m (wd d (4 * i)) = m (wd s (4 * i))"
    "\<And>w. unat w \<notin> brange (d, n) \<Longrightarrow> copy_words_up d s k m w = m w"
    "\<And>i. i < k \<Longrightarrow> copy_words_down d s k m (wd d (4 * i)) = m (wd s (4 * i))"
    "\<And>w. unat w \<notin> brange (d, n) \<Longrightarrow> copy_words_down d s k m w = m w"
    using up down out by blast+
qed

section \<open>The invariant of an address space\<close>

text \<open>
  Second-level table \<open>i\<close>; the entries that are valid; the kernel address of the page of an entry.
\<close>

definition tab :: "(u32 \<Rightarrow> u32) \<Rightarrow> u32 \<Rightarrow> nat \<Rightarrow> u32" where
  "tab m a i = m (wd a (12 + 4 * i))"

definition tabs :: "(u32 \<Rightarrow> u32) \<Rightarrow> u32 \<Rightarrow> nat set" where
  "tabs m a = {i. i < 512 \<and> tab m a i \<noteq> 0}"

definition pval :: "(u32 \<Rightarrow> u32) \<Rightarrow> u32 \<Rightarrow> nat \<times> nat \<Rightarrow> u32" where
  "pval m a ij = m (wd (tab m a (fst ij)) (16 * snd ij + 12))"

definition pphy :: "(u32 \<Rightarrow> u32) \<Rightarrow> u32 \<Rightarrow> nat \<times> nat \<Rightarrow> u32" where
  "pphy m a ij = m (wd (tab m a (fst ij)) (16 * snd ij))"

definition mapped :: "(u32 \<Rightarrow> u32) \<Rightarrow> u32 \<Rightarrow> (nat \<times> nat) set" where
  "mapped m a = {ij. fst ij \<in> tabs m a \<and> snd ij < 1024 \<and> pval m a ij \<noteq> 0}"

definition upage :: "(u32 \<Rightarrow> u32) \<Rightarrow> u32 \<Rightarrow> nat \<times> nat \<Rightarrow> u32" where
  "upage m a ij = PADDR_TO_KVADDR (pphy m a ij)"

text \<open>The blocks of the heap that hold the tables, and those that hold the pages.\<close>

definition as_meta :: "(u32 \<Rightarrow> u32) \<Rightarrow> u32 \<Rightarrow> (u32 \<times> nat) set" where
  "as_meta m a = insert (a, 4096) ((\<lambda>i. (tab m a i, 16384)) ` tabs m a)"

definition as_data :: "(u32 \<Rightarrow> u32) \<Rightarrow> u32 \<Rightarrow> (u32 \<times> nat) set" where
  "as_data m a = (\<lambda>ij. (upage m a ij, 4096)) ` mapped m a"

definition as_blocks :: "(u32 \<Rightarrow> u32) \<Rightarrow> u32 \<Rightarrow> (u32 \<times> nat) set" where
  "as_blocks m a = as_meta m a \<union> as_data m a"

definition as_ok :: "(u32 \<Rightarrow> u32) \<Rightarrow> (u32 \<times> nat) set \<Rightarrow> u32 \<Rightarrow> bool" where
  "as_ok m L a \<longleftrightarrow> as_blocks m a \<subseteq> L \<and> inj_on (tab m a) (tabs m a) \<and> inj_on (upage m a) (mapped m a) \<and>
     a \<notin> upage m a ` mapped m a \<and> (\<forall>ij\<in>mapped m a. pval m a ij = 1) \<and> m (wd a 8) = 0"

lemma as_okD:
  assumes "as_ok m L a"
  shows "(a, 4096) \<in> L" "\<And>i. i \<in> tabs m a \<Longrightarrow> (tab m a i, 16384) \<in> L"
    "\<And>ij. ij \<in> mapped m a \<Longrightarrow> (upage m a ij, 4096) \<in> L"
    "inj_on (tab m a) (tabs m a)" "inj_on (upage m a) (mapped m a)"
    "\<And>ij. ij \<in> mapped m a \<Longrightarrow> upage m a ij \<noteq> a" "\<And>ij. ij \<in> mapped m a \<Longrightarrow> pval m a ij = 1" "m (wd a 8) = 0"
proof -
  have sub: "insert (a, 4096) ((\<lambda>i. (tab m a i, 16384)) ` tabs m a) \<subseteq> L" "(\<lambda>ij. (upage m a ij, 4096)) ` mapped m a \<subseteq> L"
    using assms unfolding as_ok_def as_blocks_def as_meta_def as_data_def by simp_all
  show "(a, 4096) \<in> L" "\<And>i. i \<in> tabs m a \<Longrightarrow> (tab m a i, 16384) \<in> L"
    "\<And>ij. ij \<in> mapped m a \<Longrightarrow> (upage m a ij, 4096) \<in> L" using sub by auto
  show "upage m a ij \<noteq> a" if "ij \<in> mapped m a" for ij using assms that unfolding as_ok_def by (metis imageI)
qed (use assms in \<open>simp_all add: as_ok_def\<close>)

lemma tabsD: "i \<in> tabs m a \<Longrightarrow> i < 512" "i \<in> tabs m a \<Longrightarrow> tab m a i \<noteq> 0"
  by (simp_all add: tabs_def)

lemma mappedD: "ij \<in> mapped m a \<Longrightarrow> fst ij \<in> tabs m a" "ij \<in> mapped m a \<Longrightarrow> snd ij < 1024"
  by (simp_all add: mapped_def)

text \<open>Two memories that agree on the tables describe the same address space.\<close>

lemma as_view_cong:
  assumes ar: "arena L" and sub: "as_meta m a \<subseteq> L" and keep: "mem_keep (as_meta m a) m m'"
  shows "\<And>i. i < 512 \<Longrightarrow> tab m' a i = tab m a i" "tabs m' a = tabs m a"
    "\<And>ij. fst ij \<in> tabs m a \<Longrightarrow> snd ij < 1024 \<Longrightarrow> pval m' a ij = pval m a ij \<and> pphy m' a ij = pphy m a ij"
    "mapped m' a = mapped m a" "\<And>ij. ij \<in> mapped m a \<Longrightarrow> upage m' a ij = upage m a ij"
    "m' (wd a 8) = m (wd a 8)"
proof -
  have A: "(a, 4096) \<in> as_meta m a" by (simp add: as_meta_def)
  have T: "(tab m a i, 16384) \<in> as_meta m a" if "i \<in> tabs m a" for i using that by (simp add: as_meta_def)
  have a: "(a, 4096) \<in> L" "\<And>i. i \<in> tabs m a \<Longrightarrow> (tab m a i, 16384) \<in> L" using A T sub by blast+
  show tab: "tab m' a i = tab m a i" if "i < 512" for i
    unfolding tab_def using that by (intro mem_keepD [OF keep A] wd_in_block [OF ar a(1)]) simp
  then show tabs: "tabs m' a = tabs m a" by (auto simp: tabs_def)
  show ent: "pval m' a ij = pval m a ij \<and> pphy m' a ij = pphy m a ij" if "fst ij \<in> tabs m a" "snd ij < 1024" for ij
    unfolding pval_def pphy_def tab [OF tabsD(1) [OF that(1)]] using that(2)
    by (intro conjI mem_keepD [OF keep T [OF that(1)]] wd_in_block [OF ar a(2) [OF that(1)]]) simp_all
  then show map: "mapped m' a = mapped m a" by (auto simp: mapped_def tabs)
  show "upage m' a ij = upage m a ij" if "ij \<in> mapped m a" for ij
    using ent [OF mappedD [OF that]] by (simp add: upage_def)
  show "m' (wd a 8) = m (wd a 8)" by (intro mem_keepD [OF keep A] wd_in_block [OF ar a(1)]) simp
qed

lemma as_ok_keep:
  assumes "arena L" "as_ok m L a" "mem_keep (as_meta m a) m m'" "as_blocks m a \<subseteq> L'"
  shows "as_ok m' L' a" "mapped m' a = mapped m a" "\<And>ij. ij \<in> mapped m a \<Longrightarrow> upage m' a ij = upage m a ij"
    "as_blocks m' a = as_blocks m a" "as_meta m' a = as_meta m a"
proof -
  have "as_meta m a \<subseteq> L" using assms(2) by (simp add: as_ok_def as_blocks_def)
  note C = as_view_cong [OF assms(1) this assms(3)]
  show meta: "as_meta m' a = as_meta m a" using C(1) tabsD(1) by (auto simp: as_meta_def C(2))
  have "as_data m' a = as_data m a" unfolding as_data_def C(4) by (rule image_cong) (simp_all add: C(5))
  then show bl: "as_blocks m' a = as_blocks m a" by (simp add: as_blocks_def meta)
  have "inj_on (tab m' a) (tabs m' a)"
    using as_okD(4) [OF assms(2)] C(1) tabsD(1) unfolding C(2) by (simp add: inj_on_def)
  moreover have "inj_on (upage m' a) (mapped m' a)"
    using as_okD(5) [OF assms(2)] C(5) unfolding C(4) by (simp add: inj_on_def)
  moreover have "\<forall>ij\<in>mapped m' a. pval m' a ij = 1" using as_okD(7) [OF assms(2)] C(3,4) mappedD by auto
  ultimately show "as_ok m' L' a"
    using assms(2,4) C(4-6) unfolding as_ok_def bl by auto
  show "mapped m' a = mapped m a" "\<And>ij. ij \<in> mapped m a \<Longrightarrow> upage m' a ij = upage m a ij" by (rule C)+
qed

section \<open>Adding a table and adding a page\<close>

lemma as_add_table:
  assumes ar: "arena (insert (t, 16384) L)" and ok: "as_ok m L a" and i: "i < 512" "tab m a i = 0"
    and t: "(t, 16384) \<notin> L" "t \<noteq> 0" "m' (wd a (12 + 4 * i)) = t"
    and keep: "\<forall>bl w. bl \<in> L \<longrightarrow> unat w \<in> brange bl \<longrightarrow> w \<noteq> wd a (12 + 4 * i) \<longrightarrow> m' w = m w"
    and zero: "\<forall>j<1024. m' (wd t (16 * j + 12)) = 0"
  shows "as_ok m' (insert (t, 16384) L) a" "mapped m' a = mapped m a" "tabs m' a = insert i (tabs m a)" "tab m' a i = t"
    "\<And>ij. ij \<in> mapped m a \<Longrightarrow> upage m' a ij = upage m a ij"
    "as_blocks m' a = insert (t, 16384) (as_blocks m a)" "as_meta m' a = insert (t, 16384) (as_meta m a)"
proof -
  note D = as_okD [OF ok]
  have arL: "arena L" by (rule arena_subset [OF ar]) blast
  have same: "m' (wd p off) = m (wd p off)" if "(p, n) \<in> L" "off < n" "p \<noteq> a \<or> off \<noteq> 12 + 4 * i" for p n off
    using that wd_eq_iff [OF arL that(1,2) D(1), of "12 + 4 * i"] i
    by (intro keep [rule_format, OF that(1) wd_in_block [OF arL that(1,2)]]) auto
  have tab: "tab m' a k = (if k = i then t else tab m a k)" if "k < 512" for k
    using same [OF D(1), of "12 + 4 * k"] that t(3) by (simp add: tab_def)
  show ti: "tab m' a i = t" using tab i by simp
  show tabs: "tabs m' a = insert i (tabs m a)" using tab t(2) i by (auto simp: tabs_def split: if_splits)
  have it: "i \<notin> tabs m a" using i(2) by (simp add: tabs_def)
  have tk: "tab m' a k = tab m a k" "tab m a k \<noteq> t" "tab m a k \<noteq> a" if "k \<in> tabs m a" for k
    using tab [OF tabsD(1) [OF that]] that it D(2) [OF that] t(1) arena_unique [OF arL D(1), of 16384] by auto
  have ent: "pval m' a ij = pval m a ij" "pphy m' a ij = pphy m a ij" if "fst ij \<in> tabs m a" "snd ij < 1024" for ij
    unfolding pval_def pphy_def tk(1) [OF that(1)] using that tk(3) [OF that(1)] by (intro same [OF D(2)]; simp)+
  have "pval m' a (i, j) = 0" if "j < 1024" for j using zero that ti by (simp add: pval_def)
  then show map: "mapped m' a = mapped m a" using ent(1) it by (auto simp: mapped_def tabs)
  show up: "upage m' a ij = upage m a ij" if "ij \<in> mapped m a" for ij
    using ent(2) mappedD [OF that] by (simp add: upage_def)
  show "as_meta m' a = insert (t, 16384) (as_meta m a)"
    unfolding as_meta_def tabs using ti tk(1) by auto
  moreover have "as_data m' a = as_data m a" unfolding as_data_def map using up by auto
  ultimately show bl: "as_blocks m' a = insert (t, 16384) (as_blocks m a)" by (simp add: as_blocks_def)
  have "inj_on (tab m' a) (tabs m' a)"
    unfolding tabs inj_on_insert using D(4) ti tk(1,2) it by (auto simp: inj_on_def) metis
  moreover have "inj_on (upage m' a) (mapped m' a)" unfolding map using D(5) up by (simp add: inj_on_def)
  moreover have "\<forall>ij\<in>mapped m' a. pval m' a ij = 1" using D(7) ent(1) mappedD unfolding map by auto
  moreover have "m' (wd a 8) = 0" using same [OF D(1), of 8] D(8) by simp
  moreover have "as_blocks m' a \<subseteq> insert (t, 16384) L" using ok unfolding bl as_ok_def by blast
  ultimately show "as_ok m' (insert (t, 16384) L) a" unfolding as_ok_def map using D(6) up by (metis imageE)
qed

lemma as_add_page:
  assumes ar: "arena (insert (p, 4096) L)" and ok: "as_ok m L a" and i: "i \<in> tabs m a" and j: "j < 1024"
    and new: "(i, j) \<notin> mapped m a" "(p, 4096) \<notin> L"
    and ent: "m' (wd (tab m a i) (16 * j)) = p - 0x80000000" "m' (wd (tab m a i) (16 * j + 12)) = 1"
    and keep: "\<forall>bl w. bl \<in> L \<longrightarrow> unat w \<in> brange bl \<longrightarrow> w \<noteq> wd (tab m a i) (16 * j) \<longrightarrow>
      w \<noteq> wd (tab m a i) (16 * j + 12) \<longrightarrow> m' w = m w"
  shows "as_ok m' (insert (p, 4096) L) a" "mapped m' a = insert (i, j) (mapped m a)" "upage m' a (i, j) = p"
    "tabs m' a = tabs m a" "\<And>k. k < 512 \<Longrightarrow> tab m' a k = tab m a k"
    "\<And>ij. ij \<in> mapped m a \<Longrightarrow> upage m' a ij = upage m a ij"
    "as_blocks m' a = insert (p, 4096) (as_blocks m a)" "as_meta m' a = as_meta m a"
proof -
  note D = as_okD [OF ok]
  let ?t = "tab m a i"
  have arL: "arena L" by (rule arena_subset [OF ar]) blast
  have same: "m' (wd q off) = m (wd q off)" if "(q, n) \<in> L" "off < n" "q \<noteq> ?t \<or> (off \<noteq> 16 * j \<and> off \<noteq> 16 * j + 12)" for q n off
    using that wd_eq_iff [OF arL that(1,2) D(2) [OF i], of "16 * j"] wd_eq_iff [OF arL that(1,2) D(2) [OF i], of "16 * j + 12"] j
    by (intro keep [rule_format, OF that(1) wd_in_block [OF arL that(1,2)]]) auto
  have ta: "?t \<noteq> a" using D(2) [OF i] arena_unique [OF arL D(1), of 16384] by auto
  show tab: "tab m' a k = tab m a k" if "k < 512" for k
    unfolding tab_def using that ta by (intro same [OF D(1)]) (auto simp: tab_def)
  then show tabs: "tabs m' a = tabs m a" by (auto simp: tabs_def)
  have e: "pval m' a kl = pval m a kl \<and> pphy m' a kl = pphy m a kl" if "fst kl \<in> tabs m a" "snd kl < 1024" "kl \<noteq> (i, j)" for kl
  proof -
    have "tab m a (fst kl) \<noteq> ?t \<or> snd kl \<noteq> j" using inj_onD [OF D(4) _ that(1) i] that(3) by (cases kl) auto
    then have "m' (wd (tab m a (fst kl)) (16 * snd kl + 12)) = m (wd (tab m a (fst kl)) (16 * snd kl + 12))"
      "m' (wd (tab m a (fst kl)) (16 * snd kl)) = m (wd (tab m a (fst kl)) (16 * snd kl))"
      using that(2) by (auto intro!: same [OF D(2) [OF that(1)]])
    then show ?thesis unfolding pval_def pphy_def tab [OF tabsD(1) [OF that(1)]] by simp
  qed
  have ij: "pval m' a (i, j) = 1" "pphy m' a (i, j) = p - 0x80000000"
    using ent tab [OF tabsD(1) [OF i]] by (simp_all add: pval_def pphy_def)
  then show up: "upage m' a (i, j) = p" by (simp add: upage_def PADDR_TO_KVADDR_def MIPS_KSEG0_def)
  show map: "mapped m' a = insert (i, j) (mapped m a)"
  proof (rule set_eqI)
    fix kl
    show "kl \<in> mapped m' a \<longleftrightarrow> kl \<in> insert (i, j) (mapped m a)"
    proof (cases "kl = (i, j)")
      case True
      then show ?thesis using ij(1) i j by (simp add: mapped_def tabs)
    next
      case False
      then show ?thesis using e [of kl] by (auto simp: mapped_def tabs)
    qed
  qed
  show old: "upage m' a kl = upage m a kl" if "kl \<in> mapped m a" for kl
  proof -
    have "kl \<noteq> (i, j)" using new(1) that by auto
    from e [OF mappedD [OF that] this] show ?thesis by (simp add: upage_def)
  qed
  show "as_meta m' a = as_meta m a" using tab tabsD(1) by (auto simp: as_meta_def tabs)
  moreover have "as_data m' a = insert (p, 4096) (as_data m a)" unfolding as_data_def map using up old by auto
  ultimately show bl: "as_blocks m' a = insert (p, 4096) (as_blocks m a)" by (simp add: as_blocks_def)
  have pn: "upage m a kl \<noteq> p" if "kl \<in> mapped m a" for kl using D(3) [OF that] new(2) by auto
  have "inj_on (tab m' a) (tabs m' a)" unfolding tabs using D(4) tab tabsD(1) by (simp add: inj_on_def)
  moreover have "inj_on (upage m' a) (mapped m' a)"
    unfolding map inj_on_insert using D(5) old up pn new(1) by (auto simp: inj_on_def) metis
  moreover have "p \<noteq> a" using D(1) new(2) by auto
  then have ap: "upage m' a kl \<noteq> a \<and> pval m' a kl = 1" if "kl \<in> mapped m' a" for kl
  proof (cases "kl = (i, j)")
    case False
    then have kl: "kl \<in> mapped m a" using that by (simp add: map)
    show ?thesis using D(6,7) [OF kl] old [OF kl] e [OF mappedD [OF kl] False] by simp
  qed (use up ij(1) in simp)
  then have "a \<notin> upage m' a ` mapped m' a" "\<forall>kl\<in>mapped m' a. pval m' a kl = 1" by (metis imageE, simp)
  moreover have "m' (wd a 8) = 0" using same [OF D(1), of 8] D(8) ta by simp
  moreover have "as_blocks m' a \<subseteq> insert (p, 4096) L" using ok unfolding bl as_ok_def by blast
  ultimately show "as_ok m' (insert (p, 4096) L) a" unfolding as_ok_def by (intro conjI)
qed

end
