(* ===== verification/Kern_VM_Props.thy ===== *)
theory Kern_VM_Props
  imports Kern_VM_Inv
begin

text \<open>
  What the operations on address spaces do: page faults, creation, destruction and copying.
\<close>

section \<open>Accesses through the tables\<close>

definition tab_at :: "(u32 \<times> nat) set \<Rightarrow> (u32 \<Rightarrow> u32) \<Rightarrow> u32 \<Rightarrow> nat \<Rightarrow> u32 \<Rightarrow> bool" where
  "tab_at L m a i t \<longleftrightarrow> arena L \<and> (a, 4096) \<in> L \<and> (t, 16384) \<in> L \<and> i < 512 \<and> m (wd a (12 + 4 * i)) = t"

lemma kload_wd: "kptr p \<Longrightarrow> kload p s = Some (hp_mem s p)"
  by (simp add: kload_def)

lemma kstore_wd: "kptr p \<Longrightarrow> kstore p v s = Some (s\<lparr> hp_mem := (hp_mem s)(p := v) \<rparr>)"
  by (simp add: kstore_def)

lemma kbzero_wd:
  "kptr p \<Longrightarrow> kbzero p sizeof_pagetable2 s = Some (s\<lparr> hp_mem := zero_words p 4096 (hp_mem s) \<rparr>)"
  "kptr p \<Longrightarrow> kbzero p PAGE_SIZE s = Some (s\<lparr> hp_mem := zero_words p 1024 (hp_mem s) \<rparr>)"
  by (simp_all add: kbzero_def sizeof_pagetable2_def PAGE_SIZE_def and_3_iff)

lemma tab_at_access:
  assumes "tab_at L (hp_mem s) a i t" "j < 1024"
  shows "pe_load pe_valid a (word_of_nat i) (word_of_nat j) s = Some (hp_mem s (wd t (16 * j + 12)))"
    "pe_load pe_phyaddr a (word_of_nat i) (word_of_nat j) s = Some (hp_mem s (wd t (16 * j)))"
    "pe_store pe_valid a (word_of_nat i) (word_of_nat j) v s =
       Some (s\<lparr> hp_mem := (hp_mem s)(wd t (16 * j + 12) := v) \<rparr>)"
    "pe_store pe_phyaddr a (word_of_nat i) (word_of_nat j) v s =
       Some (s\<lparr> hp_mem := (hp_mem s)(wd t (16 * j) := v) \<rparr>)"
proof -
  have A: "arena L" "(a, 4096) \<in> L" "(t, 16384) \<in> L" "i < 512" "hp_mem s (wd a (12 + 4 * i)) = t"
    using assms(1) by (simp_all add: tab_at_def)
  have "kptr (wd a (12 + 4 * i))" "kptr (wd t (16 * j + 12))" "kptr (wd t (16 * j))"
    using A(4) assms(2) by (intro kptr_wd [OF A(1,2)] kptr_wd [OF A(1,3)]; simp)+
  then show "pe_load pe_valid a (word_of_nat i) (word_of_nat j) s = Some (hp_mem s (wd t (16 * j + 12)))"
    "pe_load pe_phyaddr a (word_of_nat i) (word_of_nat j) s = Some (hp_mem s (wd t (16 * j)))"
    "pe_store pe_valid a (word_of_nat i) (word_of_nat j) v s =
       Some (s\<lparr> hp_mem := (hp_mem s)(wd t (16 * j + 12) := v) \<rparr>)"
    "pe_store pe_phyaddr a (word_of_nat i) (word_of_nat j) v s =
       Some (s\<lparr> hp_mem := (hp_mem s)(wd t (16 * j) := v) \<rparr>)"
    using A(5) by (simp_all add: pe_load_def pe_store_def field_offsets kload_wd kstore_wd)
qed

lemma tab_at_ne: "tab_at L m a i t \<Longrightarrow> off < 16384 \<Longrightarrow> wd a (12 + 4 * i) \<noteq> wd t off"
  using wd_eq_iff [of L a 4096 "12 + 4 * i" t 16384 off] arena_unique [of L a 4096 16384]
  by (auto simp: tab_at_def)

lemma tab_at_upd:
  assumes "tab_at L m a i t" "off < 16384"
  shows "tab_at L (m(wd t off := v)) a i t"
  using assms(1) tab_at_ne [OF assms] by (simp add: tab_at_def)

lemma tab_at_mono:
  assumes "tab_at L m a i t" "arena L'" "L \<subseteq> L'"
  shows "tab_at L' m a i t"
  using assms unfolding tab_at_def by blast

lemma as_ok_tab_at:
  assumes "arena L" "as_ok m L a" "i \<in> tabs m a"
  shows "tab_at L m a i (tab m a i)"
  using assms(1) as_okD(1,2) [OF assms(2)] assms(3) tabsD(1) unfolding tab_at_def by (simp add: tab_def)

section \<open>Making a table and making a page\<close>

lemma size_pages: "kmalloc sizeof_pagetable2 s = alloc_kpages 4 s" "kmalloc sizeof_addrspace s = alloc_kpages 1 s"
  by (simp_all add: kmalloc_def sizeof_pagetable2_def sizeof_addrspace_def LARGEST_SUBPAGE_SIZE_def PAGE_SIZE_def)

text \<open>
  \<open>new_table\<close> either gets its four pages or stops the kernel; it writes only the pointer and
  the new table.
\<close>

lemma new_table_outcome:
  assumes rep: "heap_rep s L" and a: "(a, 4096) \<in> L" and i: "i < 512"
  shows "(\<not> pm_room s 4 \<and> new_table a (word_of_nat i) s = None) \<or>
    (pm_room s 4 \<and> (\<exists>t s'. new_table a (word_of_nat i) s = Some s' \<and> t \<noteq> 0 \<and> (t, 16384) \<notin> L \<and> heap_rep s' (insert (t, 16384) L) \<and>
       kframe s s' \<and> unat (vm_pageleft s') + 4 = unat (vm_pageleft s) \<and>
       (\<forall>N. pm_room s N \<and> 4 \<le> N \<longrightarrow> pm_room s' (N - 4)) \<and> hp_mem s' (wd a (12 + 4 * i)) = t \<and> (\<forall>j<1024. hp_mem s' (wd t (16 * j + 12)) = 0) \<and>
       (\<forall>bl w. bl \<in> L \<longrightarrow> unat w \<in> brange bl \<longrightarrow> w \<noteq> wd a (12 + 4 * i) \<longrightarrow> hp_mem s' w = hp_mem s w)))"
proof -
  have ar: "arena L" by (rule heap_arena [OF rep])
  have ka: "kptr (wd a (12 + 4 * i))" using i by (intro kptr_wd [OF ar a]) auto
  from alloc_pages_outcome [OF rep, of 4] obtain t s1 where
    al: "alloc_kpages 4 s = Some (t, s1)" "hp_mem s1 = hp_mem s" "pm_frame s s1"
      "t = 0 \<and> heap_rep s1 L \<and> \<not> pm_room s 4 \<or>
       t \<noteq> 0 \<and> (t, 16384) \<notin> L \<and> heap_rep s1 (insert (t, 16384) L) \<and> pm_room s 4 \<and>
         unat (vm_pageleft s1) + 4 = unat (vm_pageleft s) \<and> (\<forall>N. pm_room s N \<and> 4 \<le> N \<longrightarrow> pm_room s1 (N - 4))" by auto
  show ?thesis
  proof (cases "t = 0")
    case True
    then have "new_table a (word_of_nat i) s = None"
      using al ka by (simp add: new_table_def size_pages field_offsets kstore_wd kload_wd kbzero_def)
    then show ?thesis using al(4) True by blast
  next
    case False
    then have t: "(t, 16384) \<notin> L" "heap_rep s1 (insert (t, 16384) L)" "pm_room s 4"
      "unat (vm_pageleft s1) + 4 = unat (vm_pageleft s)" "\<forall>N. pm_room s N \<and> 4 \<le> N \<longrightarrow> pm_room s1 (N - 4)" using al(4) by auto
    let ?L = "insert (t, 16384) L"
    have ar': "arena ?L" by (rule heap_arena [OF t(2)])
    have kt: "kptr t" using kptr_wd [OF ar', of t 16384 0] by simp
    define m where "m = zero_words t 4096 ((hp_mem s)(wd a (12 + 4 * i) := t))"
    have Z: "\<And>k. k < 4096 \<Longrightarrow> m (wd t (4 * k)) = 0"
      "\<And>w. unat w \<notin> brange (t, 16384) \<Longrightarrow> m w = ((hp_mem s)(wd a (12 + 4 * i) := t)) w"
      unfolding m_def using zero_words_spec [OF ar', of t 16384 4096] by auto
    let ?s' = "s1\<lparr> hp_mem := m \<rparr>"
    have run: "new_table a (word_of_nat i) s = Some ?s'"
      using al ka kt by (simp add: new_table_def size_pages field_offsets kstore_wd kload_wd kbzero_wd m_def)
    have out: "unat w \<notin> brange (t, 16384)" if "bl \<in> L" "unat w \<in> brange bl" for bl and w :: u32
      by (rule arena_fresh [OF ar' t(1) that])
    have keep: "m w = ((hp_mem s)(wd a (12 + 4 * i) := t)) w" if "bl \<in> L" "unat w \<in> brange bl" for bl w
      using Z(2) out [OF that] by blast
    have aw: "unat (wd a (12 + 4 * i)) \<in> brange (a, 4096)" using i by (intro wd_in_block [OF ar a]) simp
    have "heap_rep ?s' ?L"
    proof (rule heap_rep_write [OF t(2)])
      fix w :: u32
      assume w: "\<And>bl. bl \<in> ?L \<Longrightarrow> unat w \<notin> brange bl"
      then have "unat w \<notin> brange (t, 16384)" "w \<noteq> wd a (12 + 4 * i)" using aw a by auto
      then show "m w = hp_mem s1 w" using Z(2) [of w] al(2) by simp
    qed
    moreover have "\<forall>j<1024. m (wd t (16 * j + 12)) = 0"
    proof (intro allI impI)
      fix j :: nat
      assume "j < 1024"
      then show "m (wd t (16 * j + 12)) = 0" using Z(1) [of "4 * j + 3"] by (simp add: algebra_simps)
    qed
    moreover have "m (wd a (12 + 4 * i)) = t" using keep [OF a aw] by simp
    ultimately show ?thesis
      using run False t(1,3,4,5) keep kframe_mem [OF pm_kframe [OF al(3)]] by (intro disjI2 conjI exI [of _ t] exI [of _ ?s']) auto
  qed
qed

text \<open>
  \<open>need_page\<close> on an entry that is not valid: with no free page it stops the kernel; otherwise it
  enters the new page, clears it, and writes nothing else.
\<close>

lemma kvaddr_paddr [simp]: "PADDR_TO_KVADDR (p - 0x80000000) = p"
  by (simp add: PADDR_TO_KVADDR_def MIPS_KSEG0_def)

lemma big_ne_enomem:
  assumes "arena L" "(p, n) \<in> L"
  shows "p \<noteq> errno_code ENOMEM"
proof
  assume "p = errno_code ENOMEM"
  then have "unat p = 4" by simp
  moreover have "2 ^ 31 \<le> unat p" using assms unfolding arena_def by blast
  ultimately show False by simp
qed

text \<open>What a memory has to look like after a page was entered.\<close>

definition page_entered :: "(u32 \<times> nat) set \<Rightarrow> u32 \<Rightarrow> nat \<Rightarrow> u32 \<Rightarrow> (nat \<Rightarrow> u32) \<Rightarrow> (u32 \<Rightarrow> u32) \<Rightarrow> (u32 \<Rightarrow> u32) \<Rightarrow> bool" where
  "page_entered L t j p content m m' \<longleftrightarrow>
     m' (wd t (16 * j)) = p - 0x80000000 \<and> m' (wd t (16 * j + 12)) = 1 \<and>
     (\<forall>bl w. bl \<in> L \<longrightarrow> unat w \<in> brange bl \<longrightarrow> w \<noteq> wd t (16 * j) \<longrightarrow> w \<noteq> wd t (16 * j + 12) \<longrightarrow> m' w = m w) \<and>
     (\<forall>k<1024. m' (wd p (4 * k)) = content k)"

text \<open>The entry is written first, then the page is filled.\<close>

lemma page_filled:
  assumes rep: "heap_rep s (insert (p, 4096) L)" and t: "(t, 16384) \<in> L" "j < 1024" and p: "(p, 4096) \<notin> L"
    and fill: "\<And>k. k < 1024 \<Longrightarrow> m' (wd p (4 * k)) = content k"
      "\<And>w. unat w \<notin> brange (p, 4096) \<Longrightarrow>
         m' w = ((hp_mem s)(wd t (16 * j) := p - 0x80000000, wd t (16 * j + 12) := 1)) w"
  shows "heap_rep (s\<lparr> hp_mem := m' \<rparr>) (insert (p, 4096) L)" "page_entered L t j p content (hp_mem s) m'"
proof -
  let ?L = "insert (p, 4096) L"
  have ar: "arena ?L" by (rule heap_arena [OF rep])
  have tl: "(t, 16384) \<in> ?L" using t(1) by simp
  have ne: "wd t (16 * j) \<noteq> wd t (16 * j + 12)" using wd_eq_iff [OF ar tl _ tl, of "16 * j" "16 * j + 12"] t(2) by simp
  have tb: "unat (wd t (16 * j)) \<in> brange (t, 16384)" "unat (wd t (16 * j + 12)) \<in> brange (t, 16384)"
    using t(2) by (intro wd_in_block [OF ar tl]; simp)+
  have old: "m' w = ((hp_mem s)(wd t (16 * j) := p - 0x80000000, wd t (16 * j + 12) := 1)) w"
    if "bl \<in> L" "unat w \<in> brange bl" for bl w
    by (rule fill(2) [OF arena_fresh [OF ar p that]])
  show "heap_rep (s\<lparr> hp_mem := m' \<rparr>) ?L"
  proof (rule heap_rep_write [OF rep])
    fix w :: u32
    assume w: "\<And>bl. bl \<in> ?L \<Longrightarrow> unat w \<notin> brange bl"
    have "w \<noteq> wd t (16 * j)" "w \<noteq> wd t (16 * j + 12)" using w [OF tl] tb by auto
    then show "m' w = hp_mem s w" using fill(2) w by simp
  qed
  show "page_entered L t j p content (hp_mem s) m'"
    unfolding page_entered_def using old [OF t(1) tb(1)] old [OF t(1) tb(2)] ne old fill(1) by auto
qed

lemma need_page_outcome:
  assumes rep: "heap_rep s L" and at: "tab_at L (hp_mem s) a i t" and j: "j < 1024"
    and v: "hp_mem s (wd t (16 * j + 12)) = 0"
  shows "(\<not> pm_room s 1 \<and> need_page a (word_of_nat i) (word_of_nat j) s = None) \<or>
    (pm_room s 1 \<and> (\<exists>p s'. need_page a (word_of_nat i) (word_of_nat j) s = Some (Inr (), s') \<and> (p, 4096) \<notin> L \<and>
       heap_rep s' (insert (p, 4096) L) \<and> kframe s s' \<and> (\<forall>N. pm_room s N \<and> 1 \<le> N \<longrightarrow> pm_room s' (N - 1)) \<and>
       page_entered L t j p (\<lambda>_. 0) (hp_mem s) (hp_mem s')))"
proof -
  from alloc_pages_outcome [OF rep, of 1] obtain p s1 where
    al: "alloc_kpages 1 s = Some (p, s1)" "hp_mem s1 = hp_mem s" "pm_frame s s1"
      "p = 0 \<and> heap_rep s1 L \<and> \<not> pm_room s 1 \<or>
       p \<noteq> 0 \<and> (p, 4096) \<notin> L \<and> heap_rep s1 (insert (p, 4096) L) \<and> pm_room s 1 \<and>
       (\<forall>N. pm_room s N \<and> 1 \<le> N \<longrightarrow> pm_room s1 (N - 1))" by auto
  have t: "(t, 16384) \<in> L" using at by (simp add: tab_at_def)
  have ne: "wd t (16 * j) \<noteq> wd t (16 * j + 12)"
    using wd_eq_iff [of L t 16384 "16 * j" t 16384 "16 * j + 12"] at j by (simp add: tab_at_def)
  have U: "tab_at K (hp_mem s) a i t \<Longrightarrow> tab_at K ((hp_mem s)(wd t (16 * j) := x)) a i t"
    "tab_at K (hp_mem s) a i t \<Longrightarrow> tab_at K ((hp_mem s)(wd t (16 * j) := x, wd t (16 * j + 12) := y)) a i t" for K x y
    using j by (simp_all add: tab_at_upd)
  note acc = tab_at_access [where L = L and a = a and i = i and t = t and j = j]
  show ?thesis
  proof (cases "p = 0")
    case True
    have "need_page a (word_of_nat i) (word_of_nat j) s = None"
      using al(1,2) True v j U [OF at] at ne
      by (simp add: need_page_def acc kbzero_def PADDR_TO_KVADDR_def MIPS_KSEG0_def ksimps)
    then show ?thesis using al(4) True by blast
  next
    case False
    then have p: "(p, 4096) \<notin> L" "heap_rep s1 (insert (p, 4096) L)" "pm_room s 1"
      "\<forall>N. pm_room s N \<and> 1 \<le> N \<longrightarrow> pm_room s1 (N - 1)" using al(4) by auto
    have ar: "arena (insert (p, 4096) L)" by (rule heap_arena [OF p(2)])
    have kp: "kptr p" using kptr_wd [OF ar, of p 4096 0] by simp
    have above: "vm_coremap_ptr s1 - 0x80000000 < p - 0x80000000" by (rule live_above_coremap [OF p(2)]) auto
    define m where "m = zero_words p 1024 ((hp_mem s)(wd t (16 * j) := p - 0x80000000, wd t (16 * j + 12) := 1))"
    have Z: "\<And>k. k < 1024 \<Longrightarrow> m (wd p (4 * k)) = 0"
      "\<And>w. unat w \<notin> brange (p, 4096) \<Longrightarrow>
         m w = ((hp_mem s1)(wd t (16 * j) := p - 0x80000000, wd t (16 * j + 12) := 1)) w"
      unfolding m_def al(2) using zero_words_spec [OF ar, of p 4096 1024] by auto
    note F = page_filled [OF p(2) t j p(1) Z]
    have "need_page a (word_of_nat i) (word_of_nat j) s = Some (Inr (), s1\<lparr> hp_mem := m \<rparr>)"
      using al(1,2) v j U [OF at] at ne kp big_ne_enomem [OF ar, of p 4096] above
      by (simp add: need_page_def acc kbzero_wd m_def ksimps)
    then show ?thesis
      using p(1,3,4) F al(2) kframe_mem [OF pm_kframe [OF al(3)]] by (intro disjI2 conjI exI [of _ p] exI [of _ "s1\<lparr> hp_mem := m \<rparr>"]) auto
  qed
qed

section \<open>Growing an address space\<close>

lemma pm_room_less:
  assumes "pm_room s N" "n \<le> N"
  shows "pm_room s n"
proof -
  obtain k where "free_run (vm_coremap s) k N" using assms(1) by (auto simp: pm_room_def)
  then have "free_run (vm_coremap s) k n" using assms(2) by (simp add: free_run_def)
  then show ?thesis by (auto simp: pm_room_def)
qed

lemma pm_room_diff: "pm_room s N \<Longrightarrow> pm_room s (N - k)"
  using pm_room_less diff_le_self by blast

text \<open>
  The address space at \<open>a\<close> has grown at most by page \<open>ij\<close>: everything allocated belongs to it, old pages
  stay where they are, and no memory but its tables has changed.
\<close>

definition grown :: "(u32 \<times> nat) set \<Rightarrow> (u32 \<Rightarrow> u32) \<Rightarrow> (u32 \<times> nat) set \<Rightarrow> (u32 \<Rightarrow> u32) \<Rightarrow> u32 \<Rightarrow> bool" where
  "grown L m L' m' a \<longleftrightarrow> as_ok m' L' a \<and> L' = L \<union> as_blocks m' a \<and> as_blocks m' a \<inter> L = as_blocks m a \<and>
     mapped m a \<subseteq> mapped m' a \<and> (\<forall>kl\<in>mapped m a. upage m' a kl = upage m a kl) \<and>
     L - as_meta m a \<subseteq> L' - as_meta m' a \<and> mem_keep (L - as_meta m a) m m'"

lemma as_ok_blocks: "as_ok m L a \<Longrightarrow> as_blocks m a \<subseteq> L"
  by (simp add: as_ok_def)

lemma as_blocksI:
  "(a, 4096) \<in> as_blocks m a" "i \<in> tabs m a \<Longrightarrow> (tab m a i, 16384) \<in> as_blocks m a"
  "ij \<in> mapped m a \<Longrightarrow> (upage m a ij, 4096) \<in> as_blocks m a"
  by (simp_all add: as_blocks_def as_meta_def as_data_def)

lemma heap_rep_tlb [simp]: "heap_rep (s\<lparr> vm_tlb := tlb \<rparr>) L = heap_rep s L"
  by (simp add: heap_rep_def heap_inv_def heap_live_def pm_rep_def cm_rep_def cm_wf_def pm_own_def kpage_def cong: if_cong)

lemma grown_ok: "grown L m L' m' a \<Longrightarrow> as_ok m' L' a"
  unfolding grown_def by blast

lemma grown_refl: "as_ok m L a \<Longrightarrow> grown L m L m a"
  using as_ok_blocks [of m L a] by (auto simp: grown_def)

lemma grown_trans:
  assumes "grown L m L' m' a" "grown L' m' L'' m'' a"
  shows "grown L m L'' m'' a"
proof -
  note A = assms(1) [unfolded grown_def] and B = assms(2) [unfolded grown_def]
  have sub: "as_blocks m' a \<subseteq> as_blocks m'' a" "L \<subseteq> L'" using A B by blast+
  have "L'' = L \<union> as_blocks m'' a" using A B sub(1) by blast
  moreover have "as_blocks m'' a \<inter> L = as_blocks m a" using A B sub by blast
  moreover have "mem_keep (L - as_meta m a) m' m''" using B A mem_keep_mono by blast
  then have "mem_keep (L - as_meta m a) m m''" using A mem_keep_trans by blast
  moreover have "mapped m a \<subseteq> mapped m'' a" "\<forall>kl\<in>mapped m a. upage m'' a kl = upage m a kl"
    using A B by (blast, metis subsetD)
  moreover have "L - as_meta m a \<subseteq> L'' - as_meta m'' a" using A B by blast
  ultimately show ?thesis using B unfolding grown_def by blast
qed

lemma table_grown:
  assumes rep: "heap_rep s L" and ok: "as_ok (hp_mem s) L a" and i: "i < 512" "i \<notin> tabs (hp_mem s) a"
  shows "(\<not> pm_room s 4 \<and> new_table a (word_of_nat i) s = None) \<or>
    (pm_room s 4 \<and> (\<exists>s' L'. new_table a (word_of_nat i) s = Some s' \<and> heap_rep s' L' \<and> kframe s s' \<and>
       unat (vm_pageleft s') + 4 = unat (vm_pageleft s) \<and> (\<forall>N. pm_room s N \<and> 4 \<le> N \<longrightarrow> pm_room s' (N - 4)) \<and> grown L (hp_mem s) L' (hp_mem s') a \<and> tabs (hp_mem s') a = insert i (tabs (hp_mem s) a) \<and>
       mapped (hp_mem s') a = mapped (hp_mem s) a))"
  using new_table_outcome [OF rep as_okD(1) [OF ok] i(1)]
proof (elim disjE conjE exE)
  fix t s'
  assume room: "pm_room s 4" and run: "new_table a (word_of_nat i) s = Some s'" and t: "t \<noteq> 0" "(t, 16384) \<notin> L"
    and rep': "heap_rep s' (insert (t, 16384) L)" and f: "kframe s s'"
    and left: "unat (vm_pageleft s') + 4 = unat (vm_pageleft s)" "\<forall>N. pm_room s N \<and> 4 \<le> N \<longrightarrow> pm_room s' (N - 4)" and mt: "hp_mem s' (wd a (12 + 4 * i)) = t"
    and z: "\<forall>j<1024. hp_mem s' (wd t (16 * j + 12)) = 0"
    and k: "\<forall>bl w. bl \<in> L \<longrightarrow> unat w \<in> brange bl \<longrightarrow> w \<noteq> wd a (12 + 4 * i) \<longrightarrow> hp_mem s' w = hp_mem s w"
  have ar: "arena (insert (t, 16384) L)" by (rule heap_arena [OF rep'])
  have arL: "arena L" by (rule heap_arena [OF rep])
  have ti: "tab (hp_mem s) a i = 0" using i by (simp add: tabs_def)
  note D = as_okD [OF ok]
  note T = as_add_table [OF ar ok i(1) ti t(2,1) mt k z]
  have sub: "as_blocks (hp_mem s) a \<subseteq> L" by (rule as_ok_blocks [OF ok])
  have aw: "unat (wd a (12 + 4 * i)) \<in> brange (a, 4096)" using i(1) by (intro wd_in_block [OF arL D(1)]) simp
  have keep: "mem_keep (L - as_meta (hp_mem s) a) (hp_mem s) (hp_mem s')"
    unfolding mem_keep_def
  proof (intro allI impI, elim conjE)
    fix bl and w :: u32
    assume bl: "bl \<in> L - as_meta (hp_mem s) a" "unat w \<in> brange bl"
    have "w \<noteq> wd a (12 + 4 * i)"
    proof
      assume w: "w = wd a (12 + 4 * i)"
      have "bl \<noteq> (a, 4096)" using bl(1) by (auto simp: as_meta_def)
      then have "brange bl \<inter> brange (a, 4096) = {}" using kh.live_apart [OF rep, of bl "(a, 4096)"] bl(1) D(1) by blast
      then show False using aw bl(2) w by blast
    qed
    then show "hp_mem s' w = hp_mem s w" using k bl by blast
  qed
  have "grown L (hp_mem s) (insert (t, 16384) L) (hp_mem s') a"
    unfolding grown_def using T(1,2,5-7) keep sub t(2) by auto
  then show ?thesis using room run rep' f left T(2,3) by blast
qed blast

lemma page_grown:
  assumes rep: "heap_rep s L" and ok: "as_ok m L a" and i: "i \<in> tabs m a" and j: "j < 1024" and new: "(i, j) \<notin> mapped m a"
    and p: "(p, 4096) \<notin> L" "heap_rep s' (insert (p, 4096) L)" and e: "page_entered L (tab m a i) j p content m m'"
  shows "grown L m (insert (p, 4096) L) m' a" "mapped m' a = insert (i, j) (mapped m a)" "upage m' a (i, j) = p"
    "tabs m' a = tabs m a"
proof -
  have ar: "arena L" "arena (insert (p, 4096) L)" by (rule heap_arena [OF rep], rule heap_arena [OF p(2)])
  note D = as_okD [OF ok]
  let ?t = "tab m a i"
  have E: "m' (wd ?t (16 * j)) = p - 0x80000000" "m' (wd ?t (16 * j + 12)) = 1"
    "\<forall>bl w. bl \<in> L \<longrightarrow> unat w \<in> brange bl \<longrightarrow> w \<noteq> wd ?t (16 * j) \<longrightarrow> w \<noteq> wd ?t (16 * j + 12) \<longrightarrow> m' w = m w"
    using e by (simp_all add: page_entered_def)
  note P = as_add_page [OF ar(2) ok i j new p(1) E]
  show "mapped m' a = insert (i, j) (mapped m a)" "upage m' a (i, j) = p" "tabs m' a = tabs m a" by (rule P)+
  have sub: "as_blocks m a \<subseteq> L" by (rule as_ok_blocks [OF ok])
  have "mem_keep (L - as_meta m a) m m'"
    unfolding mem_keep_def
  proof (intro allI impI, elim conjE)
    fix bl and w :: u32
    assume bl: "bl \<in> L - as_meta m a" "unat w \<in> brange bl"
    have "bl \<noteq> (?t, 16384)" using bl(1) i by (auto simp: as_meta_def)
    then have "brange bl \<inter> brange (?t, 16384) = {}"
      using kh.live_apart [OF rep, of bl "(?t, 16384)"] bl(1) D(2) [OF i] by blast
    moreover have "unat (wd ?t (16 * j)) \<in> brange (?t, 16384)" "unat (wd ?t (16 * j + 12)) \<in> brange (?t, 16384)"
      using j by (intro wd_in_block [OF ar(1) D(2) [OF i]]; simp)+
    ultimately have "w \<noteq> wd ?t (16 * j)" "w \<noteq> wd ?t (16 * j + 12)" using bl(2) by blast+
    then show "m' w = m w" using E(3) bl by blast
  qed
  then show "grown L m (insert (p, 4096) L) m' a"
    unfolding grown_def using P(1,2,6-8) sub p(1) by (auto simp: as_meta_def)
qed

section \<open>The page of an address\<close>

definition va_index :: "u32 \<Rightarrow> nat \<times> nat" where
  "va_index va = (unat va div 2 ^ 22, unat va div 2 ^ 12 mod 2 ^ 10)"

definition vpage :: "nat \<times> nat \<Rightarrow> u32" where
  "vpage ij = word_of_nat (fst ij * 2 ^ 22 + snd ij * 2 ^ 12)"

lemma index_masks: "(0xffc00000 :: u32) = push_bit 22 (mask 10)" "(0x003ff000 :: u32) = push_bit 12 (mask 10)"
  "PAGE_FRAME = push_bit 12 (mask 20)"
  by (simp_all add: PAGE_FRAME_def mask_eq_exp_minus_1 push_bit_eq_mult)

lemma fault_index:
  "drop_bit 22 ((va AND PAGE_FRAME) AND 0xffc00000) = word_of_nat (fst (va_index va))"
  "drop_bit 12 ((va AND PAGE_FRAME) AND 0x003ff000) = word_of_nat (snd (va_index va))"
proof -
  have "drop_bit 22 ((va AND PAGE_FRAME) AND 0xffc00000) = drop_bit 22 va"
    unfolding index_masks by (rule bit_word_eqI) (auto simp: bit_simps dest: bit_imp_le_length)
  moreover have "unat (drop_bit 22 va) = unat va div 2 ^ 22"
    by (simp only: unsigned_drop_bit_eq) (simp add: drop_bit_eq_div take_bit_nat_eq_self [OF unat_less_2p32])
  ultimately show "drop_bit 22 ((va AND PAGE_FRAME) AND 0xffc00000) = word_of_nat (fst (va_index va))"
    using word_of_nat_of_unat [of "drop_bit 22 va"] by (simp add: va_index_def)
  have "drop_bit 12 ((va AND PAGE_FRAME) AND 0x003ff000) = take_bit 10 (drop_bit 12 va)"
    unfolding index_masks by (rule bit_word_eqI) (auto simp: bit_simps)
  moreover have "unat (take_bit 10 (drop_bit 12 va)) = unat va div 2 ^ 12 mod 2 ^ 10"
    using unat_less_2p32 [of va]
    by (simp only: unsigned_take_bit_eq unsigned_drop_bit_eq) (simp add: drop_bit_eq_div take_bit_eq_mod)
  ultimately show "drop_bit 12 ((va AND PAGE_FRAME) AND 0x003ff000) = word_of_nat (snd (va_index va))"
    using word_of_nat_of_unat [of "take_bit 10 (drop_bit 12 va)"] by (simp add: va_index_def)
qed

lemma va_index_bounds:
  assumes "va < 0x80000000"
  shows "fst (va_index va) < 512" "snd (va_index va) < 1024"
proof -
  have "unat va < 2 ^ 31" using assms by (simp add: word_less_nat_alt)
  then show "fst (va_index va) < 512" by (simp add: va_index_def less_mult_imp_div_less)
  show "snd (va_index va) < 1024" by (simp add: va_index_def)
qed

lemma vpage_index: "vpage (va_index va) = va AND PAGE_FRAME"
proof -
  have "fst (va_index va) * 2 ^ 22 + snd (va_index va) * 2 ^ 12 = (unat va div 4096 div 1024 * 1024 + unat va div 4096 mod 1024) * 4096"
    by (simp add: va_index_def div_mult2_eq [symmetric])
  also have "\<dots> = unat va div 4096 * 4096" by simp
  also have "\<dots> = unat (va AND PAGE_FRAME)" by (simp add: unat_page_frame)
  finally show ?thesis unfolding vpage_def by simp
qed

section \<open>The TLB\<close>

definition tlb_ok :: "(u32 \<Rightarrow> u32) \<Rightarrow> u32 \<Rightarrow> (u32 \<times> u32) list \<Rightarrow> bool" where
  "tlb_ok m a tlb \<longleftrightarrow> (\<forall>(hi, lo)\<in>set tlb. lo AND TLBLO_VALID \<noteq> 0 \<longrightarrow>
     (\<exists>ij\<in>mapped m a. hi = vpage ij \<and> lo AND PAGE_FRAME = pphy m a ij))"

lemma tlb_slot_spec:
  "case tlb_slot k tlb of
     None \<Rightarrow> \<forall>(hi, lo)\<in>set tlb. lo AND TLBLO_VALID \<noteq> 0
   | Some i \<Rightarrow> k \<le> i \<and> i - k < length tlb"
  by (induction k tlb rule: tlb_slot.induct) (auto split: option.splits)

lemma upage_pphy: "upage m' a' kl = upage m a ij \<longleftrightarrow> pphy m' a' kl = pphy m a ij"
  by (simp add: upage_def PADDR_TO_KVADDR_def)

lemma tlb_ok_grown: "tlb_ok m a tlb \<Longrightarrow> grown L m L' m' a \<Longrightarrow> tlb_ok m' a tlb"
  unfolding tlb_ok_def grown_def by (fastforce simp: upage_pphy)

lemma page_paddr:
  assumes "arena L" "as_ok m L a" "ij \<in> mapped m a"
  shows "pphy m a ij AND PAGE_FRAME = pphy m a ij"
    "(pphy m a ij OR TLBLO_DIRTY OR TLBLO_VALID) AND PAGE_FRAME = pphy m a ij"
    "(pphy m a ij OR TLBLO_DIRTY OR TLBLO_VALID) AND TLBLO_VALID \<noteq> 0"
proof -
  let ?p = "pphy m a ij"
  have "(upage m a ij, 4096) \<in> L" using as_okD(3) [OF assms(2,3)] .
  then have u: "4096 dvd unat (upage m a ij)" "2 ^ 31 \<le> unat (upage m a ij)" using assms(1) unfolding arena_def by blast+
  have "?p = upage m a ij - 0x80000000" by (simp add: upage_def PADDR_TO_KVADDR_def MIPS_KSEG0_def)
  moreover have "(0x80000000 :: u32) \<le> upage m a ij" using u(2) by (simp add: word_le_nat_alt)
  ultimately have "unat ?p = unat (upage m a ij) - 0x80000000" by (simp add: unat_sub)
  then have d: "4096 dvd unat ?p" using u(1) by (simp add: dvd_diff_nat)
  then have "unat (?p AND PAGE_FRAME) = unat ?p" by (simp add: unat_page_frame)
  then show p: "?p AND PAGE_FRAME = ?p" by (metis word_of_nat_of_unat)
  have "(?p OR TLBLO_DIRTY OR TLBLO_VALID) AND PAGE_FRAME = ?p AND PAGE_FRAME"
    by (simp add: bit.conj_disj_distrib2 TLBLO_DIRTY_def TLBLO_VALID_def PAGE_FRAME_def)
  then show "(?p OR TLBLO_DIRTY OR TLBLO_VALID) AND PAGE_FRAME = ?p" using p by simp
  have "(?p OR TLBLO_DIRTY OR TLBLO_VALID) AND TLBLO_VALID = TLBLO_VALID"
    by (rule bit_word_eqI) (auto simp: bit_simps)
  then show "(?p OR TLBLO_DIRTY OR TLBLO_VALID) AND TLBLO_VALID \<noteq> 0" by (simp add: TLBLO_VALID_def)
qed

lemma tlb_load_spec:
  assumes "arena L" "as_ok m L a" "ij \<in> mapped m a" "tlb_ok m a (vm_tlb s)"
  shows "\<exists>r tlb. tlb_load (vpage ij) (pphy m a ij) s = (r, s\<lparr> vm_tlb := tlb \<rparr>) \<and> tlb_ok m a tlb \<and> length tlb = length (vm_tlb s) \<and>
    (r = Inr () \<and> (vpage ij, pphy m a ij OR TLBLO_DIRTY OR TLBLO_VALID) \<in> set tlb \<or>
     r = Inl EFAULT \<and> tlb = vm_tlb s \<and> (\<forall>(hi, lo)\<in>set tlb. lo AND TLBLO_VALID \<noteq> 0))"
proof (cases "tlb_slot 0 (vm_tlb s)")
  case None
  then show ?thesis using tlb_slot_spec [where k = 0 and tlb = "vm_tlb s"] assms(4) by (simp add: tlb_load_def)
next
  case (Some i)
  then have i: "i < length (vm_tlb s)" using tlb_slot_spec [where k = 0 and tlb = "vm_tlb s"] by simp
  let ?e = "(vpage ij, pphy m a ij OR TLBLO_DIRTY OR TLBLO_VALID)"
  have "tlb_ok m a ((vm_tlb s)[i := ?e])"
    unfolding tlb_ok_def
  proof (intro ballI)
    fix e
    assume "e \<in> set ((vm_tlb s)[i := ?e])"
    then have "e = ?e \<or> e \<in> set (vm_tlb s)" using set_update_subset_insert by fastforce
    then show "case e of (hi, lo) \<Rightarrow> lo AND TLBLO_VALID \<noteq> 0 \<longrightarrow>
        (\<exists>ij\<in>mapped m a. hi = vpage ij \<and> lo AND PAGE_FRAME = pphy m a ij)"
      using assms(3,4) page_paddr(2) [OF assms(1-3)] unfolding tlb_ok_def by auto
  qed
  moreover have "?e \<in> set ((vm_tlb s)[i := ?e])" using i by (rule set_update_memI)
  ultimately show ?thesis
    using Some by (intro exI [of _ "Inr ()"] exI [of _ "(vm_tlb s)[i := ?e]"]) (simp add: tlb_load_def)
qed

section \<open>Page faults\<close>

lemma as_ok_ptr: "arena L \<Longrightarrow> as_ok m L a \<Longrightarrow> i < 512 \<Longrightarrow> kptr (wd a (12 + 4 * i))"
  using kptr_wd [OF _ as_okD(1)] by simp

lemma need_table_grown:
  assumes rep: "heap_rep s L" and ok: "as_ok (hp_mem s) L a" and i: "i < 512"
  shows "(i \<notin> tabs (hp_mem s) a \<and> \<not> pm_room s 4 \<and> need_table a (word_of_nat i) s = None) \<or>
    ((\<exists>s' L'. need_table a (word_of_nat i) s = Some s' \<and> heap_rep s' L' \<and>
       kframe s s' \<and> grown L (hp_mem s) L' (hp_mem s') a \<and> tabs (hp_mem s') a = insert i (tabs (hp_mem s) a) \<and> mapped (hp_mem s') a = mapped (hp_mem s) a \<and>
       (\<forall>N. pm_room s N \<and> 4 \<le> N \<longrightarrow> pm_room s' (N - 4)) \<and> unat (vm_pageleft s) \<le> unat (vm_pageleft s') + 4))"
proof -
  have load: "kload (pagetable2 a (word_of_nat i)) s = Some (tab (hp_mem s) a i)"
    using as_ok_ptr [OF heap_arena [OF rep] ok i] by (simp add: field_offsets kload_wd tab_def)
  show ?thesis
  proof (cases "i \<in> tabs (hp_mem s) a")
    case True
    then have "need_table a (word_of_nat i) s = Some s" using load tabsD(2) by (simp add: need_table_def)
    then show ?thesis using rep grown_refl [OF ok] True pm_room_diff by (auto simp: insert_absorb)
  next
    case False
    then have "need_table a (word_of_nat i) s = new_table a (word_of_nat i) s"
      using load i by (simp add: need_table_def tabs_def)
    then show ?thesis using table_grown [OF rep ok i False] False by fastforce
  qed
qed

lemma need_page_grown:
  assumes rep: "heap_rep s L" and ok: "as_ok (hp_mem s) L a" and i: "i \<in> tabs (hp_mem s) a" and j: "j < 1024"
  shows "((i, j) \<notin> mapped (hp_mem s) a \<and> \<not> pm_room s 1 \<and> need_page a (word_of_nat i) (word_of_nat j) s = None) \<or>
    ((\<exists>s' L'. need_page a (word_of_nat i) (word_of_nat j) s = Some (Inr (), s') \<and>
       heap_rep s' L' \<and> kframe s s' \<and> grown L (hp_mem s) L' (hp_mem s') a \<and> tabs (hp_mem s') a = tabs (hp_mem s) a \<and>
       mapped (hp_mem s') a = insert (i, j) (mapped (hp_mem s) a) \<and> (\<forall>N. pm_room s N \<and> 1 \<le> N \<longrightarrow> pm_room s' (N - 1)) \<and>
       ((i, j) \<notin> mapped (hp_mem s) a \<longrightarrow> (\<forall>k<1024. hp_mem s' (wd (upage (hp_mem s') a (i, j)) (4 * k)) = 0))))"
proof -
  let ?m = "hp_mem s"
  have at: "tab_at L ?m a i (tab ?m a i)" by (rule as_ok_tab_at [OF heap_arena [OF rep] ok i])
  show ?thesis
  proof (cases "(i, j) \<in> mapped ?m a")
    case True
    then have "?m (wd (tab ?m a i) (16 * j + 12)) \<noteq> 0" by (simp add: mapped_def pval_def)
    then have "need_page a (word_of_nat i) (word_of_nat j) s = Some (Inr (), s)"
      by (simp add: need_page_def tab_at_access [OF at j])
    then show ?thesis using rep grown_refl [OF ok] i True pm_room_diff by (auto simp: insert_absorb)
  next
    case False
    then have "?m (wd (tab ?m a i) (16 * j + 12)) = 0" using i j by (simp add: mapped_def pval_def)
    from need_page_outcome [OF rep at j this] show ?thesis
    proof (elim disjE conjE exE)
      fix p s'
      assume room: "pm_room s 1" and run: "need_page a (word_of_nat i) (word_of_nat j) s = Some (Inr (), s')"
        and p: "(p, 4096) \<notin> L" "heap_rep s' (insert (p, 4096) L)" and f: "kframe s s'"
        and left: "\<forall>N. pm_room s N \<and> 1 \<le> N \<longrightarrow> pm_room s' (N - 1)" and e: "page_entered L (tab ?m a i) j p (\<lambda>_. 0) ?m (hp_mem s')"
      note P = page_grown [OF rep ok i j False p e]
      have "\<forall>k<1024. hp_mem s' (wd p (4 * k)) = 0" using e by (simp add: page_entered_def)
      then show ?thesis using room run p(2) f left P i by auto
    qed (use False in blast)
  qed
qed

text \<open>
  One fault: \<open>fault_pages\<close> is the part of \<^verbatim>\<open>vm_fault\<close> that brings the page in.
\<close>

lemma fault_pages:
  assumes rep: "heap_rep s L" and ok: "as_ok (hp_mem s) L a" and i: "i < 512" and j: "j < 1024"
  shows "do { s1 \<leftarrow> need_table a (word_of_nat i) s; need_page a (word_of_nat i) (word_of_nat j) s1 } = None \<and>
      (i, j) \<notin> mapped (hp_mem s) a \<and>
      \<not> (pm_room s 4 \<and> 5 \<le> vm_pageleft s) \<or>
    (\<exists>s1 s' L'. need_table a (word_of_nat i) s = Some s1 \<and> need_page a (word_of_nat i) (word_of_nat j) s1 = Some (Inr (), s') \<and>
       heap_rep s' L' \<and> kframe s s' \<and> grown L (hp_mem s) L' (hp_mem s') a \<and> tabs (hp_mem s') a = insert i (tabs (hp_mem s) a) \<and>
       mapped (hp_mem s') a = insert (i, j) (mapped (hp_mem s) a) \<and> (\<forall>N. pm_room s N \<and> 5 \<le> N \<longrightarrow> pm_room s' (N - 5)) \<and>
       ((i, j) \<notin> mapped (hp_mem s) a \<longrightarrow> (\<forall>k<1024. hp_mem s' (wd (upage (hp_mem s') a (i, j)) (4 * k)) = 0)))"
  using need_table_grown [OF rep ok i]
proof (elim disjE conjE exE)
  assume "i \<notin> tabs (hp_mem s) a" "\<not> pm_room s 4" "need_table a (word_of_nat i) s = None"
  then show ?thesis by (auto simp: mapped_def)
next
  fix s1 L1
  assume run: "need_table a (word_of_nat i) s = Some s1" and rep1: "heap_rep s1 L1" and f1: "kframe s s1"
    and g1: "grown L (hp_mem s) L1 (hp_mem s1) a" and t0: "tabs (hp_mem s1) a = insert i (tabs (hp_mem s) a)"
    and mp: "mapped (hp_mem s1) a = mapped (hp_mem s) a" and left: "unat (vm_pageleft s) \<le> unat (vm_pageleft s1) + 4"
    and room1: "\<forall>N. pm_room s N \<and> 4 \<le> N \<longrightarrow> pm_room s1 (N - 4)"
  have t: "i \<in> tabs (hp_mem s1) a" using t0 by simp
  have ok1: "as_ok (hp_mem s1) L1 a" using g1 by (rule grown_ok)
  from need_page_grown [OF rep1 ok1 t j] show ?thesis
  proof (elim disjE conjE exE)
    assume "(i, j) \<notin> mapped (hp_mem s1) a" "\<not> pm_room s1 1" "need_page a (word_of_nat i) (word_of_nat j) s1 = None"
    then show ?thesis using run mp left pm_room_one [OF rep1] by (auto simp: word_less_nat_alt word_le_nat_alt)
  next
    fix s' L'
    assume "need_page a (word_of_nat i) (word_of_nat j) s1 = Some (Inr (), s')" "heap_rep s' L'" "kframe s1 s'"
      "grown L1 (hp_mem s1) L' (hp_mem s') a" "tabs (hp_mem s') a = tabs (hp_mem s1) a"
      "mapped (hp_mem s') a = insert (i, j) (mapped (hp_mem s1) a)" and room2: "\<forall>N. pm_room s1 N \<and> 1 \<le> N \<longrightarrow> pm_room s' (N - 1)"
      and "(i, j) \<notin> mapped (hp_mem s1) a \<longrightarrow> (\<forall>k<1024. hp_mem s' (wd (upage (hp_mem s') a (i, j)) (4 * k)) = 0)"
    moreover have "pm_room s' (N - 5)" if "pm_room s N" "5 \<le> N" for N
      using room1 [rule_format, of N] room2 [rule_format, of "N - 4"] that by simp
    ultimately show ?thesis using run mp t0 kframe_trans [OF f1] grown_trans [OF g1] by auto
  qed
qed


text \<open>
  C8. Page faults. In a legal heap, let the current address space be well-formed and the TLB agree with its page
  tables, and let a read or write fault at a word-aligned user address other than 0. With four consecutive free pages,
  and five in all, \<^verbatim>\<open>vm_fault\<close> never stops the kernel; nor does it for a page that is already mapped. When it
  returns, the page of the address is mapped; every page mapped before still is, at the same place; all memory
  outside the page tables, in particular the contents of every page of every process, is as before; a new page
  is filled with zeros and belongs to nobody else; nothing is allocated that the address space does not own; the TLB
  still agrees with the page tables, and holds the translation of the address unless all its
  entries were valid already, in which case the error is \<^verbatim>\<open>EFAULT\<close>. The interrupt level is kept.
\<close>

theorem vm_fault_maps:
  assumes "heap_rep s L" "as_ok (hp_mem s) L (vm_as s)" "tlb_ok (hp_mem s) (vm_as s) (vm_tlb s)"
    "ft = VM_FAULT_READ \<or> ft = VM_FAULT_WRITE" "va < 0x80000000" "va \<noteq> 0" "va AND 3 = 0"
  shows "case vm_fault ft va s of
      None \<Rightarrow> va_index va \<notin> mapped (hp_mem s) (vm_as s) \<and> \<not> (pm_room s 4 \<and> 5 \<le> vm_pageleft s)
    | Some (r, s') \<Rightarrow> \<exists>L'. heap_rep s' L' \<and> vm_as s' = vm_as s \<and> vm_spl s' = vm_spl s \<and>
        grown L (hp_mem s) L' (hp_mem s') (vm_as s) \<and>
        mapped (hp_mem s') (vm_as s) = insert (va_index va) (mapped (hp_mem s) (vm_as s)) \<and>
        (va_index va \<notin> mapped (hp_mem s) (vm_as s) \<longrightarrow>
           (\<forall>k<1024. hp_mem s' (wd (upage (hp_mem s') (vm_as s) (va_index va)) (4 * k)) = 0)) \<and>
        tlb_ok (hp_mem s') (vm_as s) (vm_tlb s') \<and>
        (r = Inr () \<and> (va AND PAGE_FRAME, pphy (hp_mem s') (vm_as s) (va_index va) OR TLBLO_DIRTY OR TLBLO_VALID) \<in> set (vm_tlb s') \<or>
         r = Inl EFAULT \<and> (\<forall>(hi, lo)\<in>set (vm_tlb s). lo AND TLBLO_VALID \<noteq> 0))"
proof -
  let ?s = "s\<lparr> vm_spl := SPL_HIGH \<rparr>" and ?a = "vm_as s" and ?m = "hp_mem s"
  obtain i j where ij: "va_index va = (i, j)" by (cases "va_index va")
  have i: "i < 512" "j < 1024" using va_index_bounds [OF assms(5)] by (simp_all add: ij)
  have rep: "heap_rep ?s L" using assms(1) by simp
  have ok: "as_ok (hp_mem ?s) L ?a" using assms(2) by simp
  have a0: "?a \<noteq> 0"
    using heap_arena [OF assms(1)] as_okD(1) [OF assms(2)] unfolding arena_def by fastforce
  have pid: "vm_curpid s \<noteq> None"
    using assms(1) heap_invD(1) pm_repD(4) unfolding heap_rep_def by blast
  have nle: "\<not> 0x80000000 < va" using assms(5) by simp
  have as_spl: "vm_as ?s = ?a" by simp
  have start: "vm_fault ft va s = do {
      s1 \<leftarrow> need_table ?a (word_of_nat i) ?s;
      (r, s2) \<leftarrow> need_page ?a (word_of_nat i) (word_of_nat j) s1;
      case r of
        Inl e \<Rightarrow> Some (Inl e, s2)
      | Inr _ \<Rightarrow> do {
          paddr \<leftarrow> pe_load pe_phyaddr ?a (word_of_nat i) (word_of_nat j) s2;
          kassert (paddr AND PAGE_FRAME = paddr);
          let (r, s3) = tlb_load (va AND PAGE_FRAME) paddr s2;
          Some (r, s3\<lparr> vm_spl := vm_spl s \<rparr>)
        } }"
    unfolding vm_fault_def Let_def fault_index as_spl ij fst_conv snd_conv
    using assms(4,6,7) nle a0 pid by (auto simp: VM_FAULT_READ_def VM_FAULT_WRITE_def VM_FAULT_READONLY_def kassert_def)
  from fault_pages [OF rep ok i] show ?thesis
  proof (elim disjE conjE exE)
    assume "do { s1 \<leftarrow> need_table ?a (word_of_nat i) ?s; need_page ?a (word_of_nat i) (word_of_nat j) s1 } = None"
      "(i, j) \<notin> mapped (hp_mem ?s) ?a" "\<not> (pm_room ?s 4 \<and> 5 \<le> vm_pageleft ?s)"
    moreover from this(1) have "vm_fault ft va s = None" unfolding start by (auto simp: bind_eq_None_conv)
    ultimately show ?thesis by (simp add: ij pm_room_def)
  next
    fix s1 s' L'
    assume run: "need_table ?a (word_of_nat i) ?s = Some s1" "need_page ?a (word_of_nat i) (word_of_nat j) s1 = Some (Inr (), s')"
      and rep': "heap_rep s' L'" and f: "kframe ?s s'" and g: "grown L (hp_mem ?s) L' (hp_mem s') ?a"
      and t0: "tabs (hp_mem s') ?a = insert i (tabs (hp_mem ?s) ?a)" and mp: "mapped (hp_mem s') ?a = insert (i, j) (mapped (hp_mem ?s) ?a)"
      and z: "(i, j) \<notin> mapped (hp_mem ?s) ?a \<longrightarrow> (\<forall>k<1024. hp_mem s' (wd (upage (hp_mem s') ?a (i, j)) (4 * k)) = 0)"
    have ar: "arena L'" by (rule heap_arena [OF rep'])
    note ok' = grown_ok [OF g]
    have t: "i \<in> tabs (hp_mem s') ?a" using t0 by simp
    have m: "(i, j) \<in> mapped (hp_mem s') ?a" by (simp add: mp)
    have fields: "vm_tlb s' = vm_tlb s" "vm_as s' = vm_as s" using f by (auto simp: kframe_def)
    have tl: "tlb_ok (hp_mem s') ?a (vm_tlb s')" using tlb_ok_grown [OF assms(3)] g by (simp add: fields)
    from tlb_load_spec [OF ar ok' m tl] obtain r tlb where
      ld: "tlb_load (vpage (i, j)) (pphy (hp_mem s') ?a (i, j)) s' = (r, s'\<lparr> vm_tlb := tlb \<rparr>)" "tlb_ok (hp_mem s') ?a tlb"
        "r = Inr () \<and> (vpage (i, j), pphy (hp_mem s') ?a (i, j) OR TLBLO_DIRTY OR TLBLO_VALID) \<in> set tlb \<or>
         r = Inl EFAULT \<and> tlb = vm_tlb s' \<and> (\<forall>(hi, lo)\<in>set tlb. lo AND TLBLO_VALID \<noteq> 0)" by blast
    have pe: "pe_load pe_phyaddr ?a (word_of_nat i) (word_of_nat j) s' = Some (pphy (hp_mem s') ?a (i, j))"
      using tab_at_access(2) [OF as_ok_tab_at [OF ar ok' t] i(2)] by (simp add: pphy_def)
    have vp: "vpage (i, j) = va AND PAGE_FRAME" using vpage_index [of va] by (simp add: ij)
    have "vm_fault ft va s = Some (r, s'\<lparr> vm_tlb := tlb, vm_spl := vm_spl s \<rparr>)"
      unfolding start using run pe ld(1) page_paddr(1) [OF ar ok' m] by (simp add: vp kassert_def)
    moreover have "heap_rep (s'\<lparr> vm_tlb := tlb, vm_spl := vm_spl s \<rparr>) L'" using rep' by (simp add: heap_rep_tlb)
    ultimately show ?thesis
      using g mp z ld(2,3) fields by (auto simp: ij vp intro!: exI [of _ L'])
  qed
qed

section \<open>Creating an address space\<close>

lemma for_each_store:
  assumes "\<And>i. i < n \<Longrightarrow> kptr (f i)"
  shows "for_each (\<lambda>i. kstore (f i) v) [k..<n] s =
    Some (s\<lparr> hp_mem := foldl (\<lambda>m i. m(f i := v)) (hp_mem s) [k..<n] \<rparr>)"
proof (induction "n - k" arbitrary: k s)
  case (Suc d)
  then have "k < n" by simp
  then show ?case using Suc assms by (simp add: upt_conv_Cons kstore_wd)
qed simp

lemma foldl_store: "foldl (\<lambda>m i. m(f i := v)) m is w = (if w \<in> f ` set is then v else m w)"
  by (induction "is" arbitrary: m) auto

lemma as_create_outcome:
  assumes rep: "heap_rep s L"
  shows "\<exists>a s'. as_create s = Some (a, s') \<and> kframe s s' \<and>
    (a = 0 \<and> \<not> pm_room s 1 \<and> heap_rep s' L \<and> hp_mem s' = hp_mem s \<or>
     a \<noteq> 0 \<and> pm_room s 1 \<and> (a, 4096) \<notin> L \<and> heap_rep s' (insert (a, 4096) L) \<and> mem_keep L (hp_mem s) (hp_mem s') \<and>
     as_ok (hp_mem s') (insert (a, 4096) L) a \<and> tabs (hp_mem s') a = {} \<and>
     (\<forall>N. pm_room s N \<and> 1 \<le> N \<longrightarrow> pm_room s' (N - 1)))"
proof -
  from alloc_pages_outcome [OF rep, of 1] obtain a s1 where
    al: "alloc_kpages 1 s = Some (a, s1)" "hp_mem s1 = hp_mem s" "pm_frame s s1"
      "a = 0 \<and> heap_rep s1 L \<and> \<not> pm_room s 1 \<or>
       a \<noteq> 0 \<and> (a, 4096) \<notin> L \<and> heap_rep s1 (insert (a, 4096) L) \<and> pm_room s 1 \<and>
       (\<forall>N. pm_room s N \<and> 1 \<le> N \<longrightarrow> pm_room s1 (N - 1))" by auto
  show ?thesis
  proof (cases "a = 0")
    case True
    then show ?thesis using al pm_kframe [OF al(3)] by (simp add: as_create_def size_pages)
  next
    case False
    let ?L = "insert (a, 4096) L"
    have p: "(a, 4096) \<notin> L" "heap_rep s1 ?L" "pm_room s 1" "\<forall>N. pm_room s N \<and> 1 \<le> N \<longrightarrow> pm_room s1 (N - 1)"
      using al(4) False by auto
    have ar: "arena ?L" by (rule heap_arena [OF p(2)])
    have aL: "(a, 4096) \<in> ?L" by simp
    have k: "kptr (wd a off)" if "off < 4096" "4 dvd off" for off by (rule kptr_wd [OF ar aL that])
    define f where "f i = wd a (12 + 4 * i)" for i
    define m where "m = foldl (\<lambda>m i. m(f i := 0)) ((hp_mem s)(wd a 0 := 0, wd a 4 := 0, wd a 8 := 0)) [0..<512]"
    have kf: "kptr (f i)" if "i < 512" for i unfolding f_def using that by (intro k) auto
    have fe: "for_each (\<lambda>i. kstore (f i) 0) [0..<512] t =
        Some (t\<lparr> hp_mem := foldl (\<lambda>m i. m(f i := 0)) (hp_mem t) [0..<512] \<rparr>)" for t :: "'a kheap_scheme"
      by (rule for_each_store) (rule kf)
    have run: "as_create s = Some (a, s1\<lparr> hp_mem := m \<rparr>)"
      using al(1,2) False k [of 0] k [of 4] k [of 8] fe
      by (simp add: as_create_def size_pages field_offsets kstore_wd m_def f_def [symmetric])
    have mw: "m w = (if w \<in> f ` {0..<512} then 0 else ((hp_mem s)(wd a 0 := 0, wd a 4 := 0, wd a 8 := 0)) w)" for w
      unfolding m_def foldl_store by simp
    have inb: "unat (wd a off) \<in> brange (a, 4096)" if "off < 4096" for off by (rule wd_in_block [OF ar aL that])
    have out: "m w = hp_mem s w" if "unat w \<notin> brange (a, 4096)" for w
    proof -
      have "w \<noteq> wd a off" if "off < 4096" for off using inb [OF that] \<open>unat w \<notin> brange (a, 4096)\<close> by blast
      note ne = this
      have nf: "w \<noteq> f i" if "i < 512" for i unfolding f_def using that by (intro ne) simp
      have "w \<notin> f ` {0..<512}"
      proof
        assume "w \<in> f ` {0..<512}"
        then obtain i where "i \<in> {0..<512}" "w = f i" by (rule imageE)
        then show False using nf [of i] by simp
      qed
      then show ?thesis using ne [of 0] ne [of 4] ne [of 8] by (simp add: mw)
    qed
    have "heap_rep (s1\<lparr> hp_mem := m \<rparr>) ?L"
    proof (rule heap_rep_write [OF p(2)])
      fix w :: u32
      assume "\<And>bl. bl \<in> ?L \<Longrightarrow> unat w \<notin> brange bl"
      then show "m w = hp_mem s1 w" using out al(2) aL by simp
    qed
    moreover have "mem_keep L (hp_mem s) m"
      unfolding mem_keep_def using out arena_fresh [OF ar p(1)] by blast
    moreover have t: "tabs m a = {}" by (auto simp: tabs_def tab_def mw f_def)
    moreover have "as_ok m ?L a"
      using t by (simp add: as_ok_def as_blocks_def as_meta_def as_data_def mapped_def mw)
    ultimately show ?thesis
      using run False p kframe_mem [OF pm_kframe [OF al(3)]] by (intro exI [of _ a] exI [of _ "s1\<lparr> hp_mem := m \<rparr>"]) simp
  qed
qed

section \<open>Destroying an address space\<close>

text \<open>A loop whose iterations each give back a set of blocks.\<close>

lemma for_each_release:
  assumes step: "\<And>i s L. i \<in> set js \<Longrightarrow> heap_rep s L \<Longrightarrow> hp_mem s = m \<Longrightarrow> B i \<subseteq> L \<Longrightarrow>
      \<exists>s'. body i s = Some s' \<and> heap_rep s' (L - B i) \<and> hp_mem s' = m \<and> kframe s s'"
    and disj: "distinct js" "\<And>i j. i \<in> set js \<Longrightarrow> j \<in> set js \<Longrightarrow> i \<noteq> j \<Longrightarrow> B i \<inter> B j = {}"
    and rep: "heap_rep s L" "hp_mem s = m" "\<Union> (B ` set js) \<subseteq> L"
  shows "\<exists>s'. for_each body js s = Some s' \<and> heap_rep s' (L - \<Union> (B ` set js)) \<and> hp_mem s' = m \<and> kframe s s'"
  using assms
proof (induction js arbitrary: s L)
  case (Cons i js)
  obtain s1 where s1: "body i s = Some s1" "heap_rep s1 (L - B i)" "hp_mem s1 = m" "kframe s s1"
    using Cons.prems(1) [of i s L] Cons.prems(4-6) by auto
  have "\<Union> (B ` set js) \<inter> B i = {}" using Cons.prems(2,3) by fastforce
  then have "\<Union> (B ` set js) \<subseteq> L - B i" using Cons.prems(6) by auto
  then obtain s' where "for_each body js s1 = Some s'" "heap_rep s' (L - B i - \<Union> (B ` set js))" "hp_mem s' = m" "kframe s1 s'"
    using Cons.IH [of s1 "L - B i"] Cons.prems(1-3) s1(2,3) by auto
  moreover have "L - B i - \<Union> (B ` set js) = L - \<Union> (B ` set (i # js))" by auto
  ultimately show ?case using s1 kframe_trans [OF s1(4)] by auto
qed auto

definition entry_blocks :: "(u32 \<Rightarrow> u32) \<Rightarrow> u32 \<Rightarrow> nat \<times> nat \<Rightarrow> (u32 \<times> nat) set" where
  "entry_blocks m a ij = (if ij \<in> mapped m a then {(upage m a ij, 4096)} else {})"

definition table_blocks :: "(u32 \<Rightarrow> u32) \<Rightarrow> u32 \<Rightarrow> nat \<Rightarrow> (u32 \<times> nat) set" where
  "table_blocks m a i = (if i \<in> tabs m a then insert (tab m a i, 16384) (\<Union>j<1024. entry_blocks m a (i, j)) else {})"

lemma as_blocks_tables: "as_blocks m a = insert (a, 4096) (\<Union>i<512. table_blocks m a i)"
proof -
  have "as_data m a = (\<Union>i\<in>tabs m a. \<Union>j<1024. entry_blocks m a (i, j))"
    using mappedD unfolding as_data_def entry_blocks_def by (fastforce split: if_splits)
  then show ?thesis
    unfolding as_blocks_def as_meta_def table_blocks_def by (auto simp: tabs_def split: if_splits)
qed

lemma table_blocksE:
  assumes "bl \<in> table_blocks m a i"
  obtains "i \<in> tabs m a" "bl = (tab m a i, 16384)" | j where "(i, j) \<in> mapped m a" "bl = (upage m a (i, j), 4096)"
  using assms by (auto simp: table_blocks_def entry_blocks_def split: if_splits)

lemma table_blocks_disjoint:
  assumes ok: "as_ok m L a" and ne: "i \<noteq> k"
  shows "table_blocks m a i \<inter> table_blocks m a k = {}"
proof -
  note D = as_okD [OF ok]
  have False if x: "bl \<in> table_blocks m a i" and y: "bl \<in> table_blocks m a k" for bl
    using x
  proof (cases rule: table_blocksE)
    case 1
    show False using y 1 inj_onD [OF D(4), of i k] ne by (cases rule: table_blocksE) auto
  next
    case (2 j)
    show False using y
    proof (cases rule: table_blocksE)
      case (2 l)
      with \<open>bl = (upage m a (i, j), 4096)\<close> inj_onD [OF D(5), of "(i, j)" "(k, l)"] \<open>(i, j) \<in> mapped m a\<close> ne
      show False by simp
    qed (use 2 in simp)
  qed
  then show ?thesis by blast
qed

lemma as_destroy_outcome:
  assumes rep: "heap_rep s L" and ok: "as_ok (hp_mem s) L a"
  shows "\<exists>s'. as_destroy a s = Some s' \<and> heap_rep s' (L - as_blocks (hp_mem s) a) \<and> hp_mem s' = hp_mem s \<and> kframe s s'"
proof -
  let ?m = "hp_mem s"
  note D = as_okD [OF ok]
  have ar: "arena L" by (rule heap_arena [OF rep])
  have entry: "\<exists>s'. free_page_entry (tab ?m a i) j s0 = Some s' \<and> heap_rep s' (L0 - entry_blocks ?m a (i, j)) \<and> hp_mem s' = ?m \<and> kframe s0 s'"
    if "i \<in> tabs ?m a" "j < 1024" "heap_rep s0 L0" "hp_mem s0 = ?m" "entry_blocks ?m a (i, j) \<subseteq> L0"
    for i j and s0 :: "'a kheap_scheme" and L0
  proof -
    let ?t = "tab ?m a i"
    note mem = that(4)
    have k: "kptr (wd ?t (16 * j))" "kptr (wd ?t (16 * j + 12))" using that(2) by (intro kptr_wd [OF ar D(2) [OF that(1)]]; simp)+
    show ?thesis
    proof (cases "(i, j) \<in> mapped ?m a")
      case True
      then have v: "?m (wd ?t (16 * j + 12)) \<noteq> 0" by (simp add: mapped_def pval_def)
      have "(upage ?m a (i, j), 4096) \<in> L0" using that(5) True by (simp add: entry_blocks_def)
      from free_pages_outcome [OF that(3) this] obtain s' where
        "free_kpages (upage ?m a (i, j)) s0 = Some s'" "hp_mem s' = ?m" "pm_frame s0 s'"
        "heap_rep s' (L0 - {(upage ?m a (i, j), 4096)})" using mem by auto
      then show ?thesis
        using k v mem True pm_kframe
        by (auto simp: free_page_entry_def field_offsets kload_wd entry_blocks_def upage_def pphy_def)
    next
      case False
      then have "?m (wd ?t (16 * j + 12)) = 0" using that(1,2) by (simp add: mapped_def pval_def)
      then show ?thesis using k that(3,4) False by (simp add: free_page_entry_def field_offsets kload_wd entry_blocks_def)
    qed
  qed
  let ?pt = "\<lambda>i. ?m (pagetable2 a (word_of_nat i))"
  have pt: "?pt i = tab ?m a i" for i by (simp add: field_offsets tab_def)
  have table: "\<exists>s'. free_table ?pt i s0 = Some s' \<and> heap_rep s' (L0 - table_blocks ?m a i) \<and> hp_mem s' = ?m \<and> kframe s0 s'"
    if "i < 512" "heap_rep s0 L0" "hp_mem s0 = ?m" "table_blocks ?m a i \<subseteq> L0" for i and s0 :: "'a kheap_scheme" and L0
  proof (cases "i \<in> tabs ?m a")
    case False
    then show ?thesis using that by (simp add: free_table_def pt table_blocks_def tabs_def)
  next
    case True
    let ?E = "\<Union> ((\<lambda>j. entry_blocks ?m a (i, j)) ` set [0..<1024])"
    note rep0 = that(2,3)
    have "insert (tab ?m a i, 16384) (\<Union>j<1024. entry_blocks ?m a (i, j)) \<subseteq> L0" using that(4) True by (simp add: table_blocks_def)
    then have sub: "?E \<subseteq> L0" "(tab ?m a i, 16384) \<in> L0" by (simp_all add: atLeast0LessThan)
    have "entry_blocks ?m a (i, j) \<inter> entry_blocks ?m a (i, k) = {}" if "j \<noteq> k" for j k
      using inj_onD [OF D(5), of "(i, j)" "(i, k)"] that by (auto simp: entry_blocks_def)
    with entry [OF True] obtain s1 where
      s1: "for_each (free_page_entry (tab ?m a i)) [0..<1024] s0 = Some s1" "heap_rep s1 (L0 - ?E)" "hp_mem s1 = ?m" "kframe s0 s1"
      using for_each_release [where B = "\<lambda>j. entry_blocks ?m a (i, j)" and body = "free_page_entry (tab ?m a i)"
          and js = "[0..<1024]" and m = ?m and s = s0 and L = L0] rep0 sub(1) by auto
    have "(tab ?m a i, 16384) \<in> L0 - ?E" using sub(2) by (auto simp: entry_blocks_def split: if_splits)
    from free_pages_outcome [OF s1(2) this] obtain s' where
      s': "kfree (tab ?m a i) s1 = Some s'" "hp_mem s' = ?m" "pm_frame s1 s'" "heap_rep s' (L0 - ?E - {(tab ?m a i, 16384)})"
      using s1(3) by auto
    have "L0 - ?E - {(tab ?m a i, 16384)} = L0 - table_blocks ?m a i" using True by (auto simp: table_blocks_def)
    then show ?thesis
      using s1(1) s' True tabsD(2) kframe_trans [OF s1(4) pm_kframe [OF s'(3)]] by (simp add: free_table_def pt)
  qed
  let ?T = "\<Union> (table_blocks ?m a ` set [0..<512])"
  have blk: "as_blocks ?m a = insert (a, 4096) ?T" by (simp add: as_blocks_tables atLeast0LessThan)
  have sub: "?T \<subseteq> L" "(a, 4096) \<in> L" using as_ok_blocks [OF ok] unfolding blk by auto
  obtain s1 where s1: "for_each (free_table ?pt) [0..<512] s = Some s1" "heap_rep s1 (L - ?T)" "hp_mem s1 = ?m" "kframe s s1"
    using for_each_release [where B = "table_blocks ?m a" and body = "free_table ?pt" and js = "[0..<512]" and m = ?m
        and s = s and L = L] table table_blocks_disjoint [OF ok] rep sub(1) by auto
  have "(a, 4096) \<notin> ?T"
  proof
    assume "(a, 4096) \<in> ?T"
    then obtain i where "(a, 4096) \<in> table_blocks ?m a i" by blast
    then show False by (cases rule: table_blocksE) (simp, metis D(6) prod.inject)
  qed
  then have "(a, 4096) \<in> L - ?T" using sub(2) by blast
  from free_pages_outcome [OF s1(2) this] obtain s' where
    s': "kfree a s1 = Some s'" "hp_mem s' = ?m" "pm_frame s1 s'" "heap_rep s' (L - ?T - {(a, 4096)})" using s1(3) by auto
  have "L - ?T - {(a, 4096)} = L - as_blocks ?m a" unfolding blk by blast
  moreover have "kptr a" using kptr_wd [OF ar D(1), of 0] by simp
  ultimately show ?thesis
    using s1(1) s' kframe_trans [OF s1(4) pm_kframe [OF s'(3)]] by (simp add: as_destroy_def freepagetable_def)
qed

end
