(* ===== verification/Kern_VM_Copy.thy ===== *)
theory Kern_VM_Copy
  imports Kern_VM_Props
begin

text \<open>
  Copying an address space, and the properties of address spaces that involve whole operations.
\<close>

section \<open>Copying a page\<close>



section \<open>Copying an address space\<close>










text \<open>
  C17. Destroying an address space gives back exactly its blocks, the tables and every page, without stopping the
  kernel and without touching memory: afterwards the heap is legal and its live blocks are those
  before less those of the address space.
\<close>

theorem as_destroy_frees:
  assumes "heap_rep s L" "as_ok (hp_mem s) L as"
  shows "\<exists>s'. as_destroy as s = Some s' \<and> heap_rep s' (L - as_blocks (hp_mem s) as) \<and> hp_mem s' = hp_mem s"
  using as_destroy_outcome [OF assms] by blast

section \<open>A small machine\<close>

text \<open>A machine with sixteen free pages at boot, and on it an address space with one page.\<close>

definition small_vm :: vmstate where
  "small_vm = vm_bootstrap (\<lambda>_. blank_entry)
     \<lparr> ram_firstpaddr = 0x40000, ram_lastpaddr = 0x50000, vm_toppage_ptr = 0,
       vm_indicator = False, vm_pagenumber = 0, vm_pageleft = 0, vm_coremap_ptr = 0, vm_coremap = [],
       vm_spl = 0, vm_curpid = Some 0,
       hp_pagerefs = replicate NPAGEREFS \<lparr> pr_next_samesize = None, pr_next_all = None, pr_pab = 0,
         pr_freelist_offset = 0, pr_nfree = 0 \<rparr>,
       hp_inuse = replicate INUSE_WORDS 0, hp_sizebases = replicate NSIZES None, hp_allbase = None,
       hp_mem = (\<lambda>_. 0), vm_as = 0, vm_tlb = replicate NUM_TLB (0, 0) \<rparr>"

lemma small_vm_rep: "heap_rep small_vm {}" "pm_room small_vm 15" "vm_tlb small_vm = replicate NUM_TLB (0, 0)"
proof -
  have prep: "pm_rep small_vm Map.empty"
    unfolding small_vm_def by (rule vm_bootstrap_rep [of _ "0x40000" "0x50000"]) simp_all
  show "vm_tlb small_vm = replicate NUM_TLB (0, 0)"
    by (simp add: small_vm_def vm_bootstrap_def Let_def ram_getsize_def)
  have f: "length (hp_pagerefs small_vm) = NPAGEREFS" "hp_inuse small_vm = replicate INUSE_WORDS 0"
    "hp_sizebases small_vm = replicate NSIZES None" "hp_allbase small_vm = None"
    by (simp_all add: small_vm_def vm_bootstrap_def Let_def ram_getsize_def)
  have "inuse_set (replicate INUSE_WORDS 0) = {}" by (auto simp: inuse_set_def INUSE_WORDS_def)
  with prep have "heap_inv {} small_vm Map.empty [] (\<lambda>_. []) (\<lambda>_. [])"
    by (simp add: heap_inv_def f INUSE_WORDS_def NSIZES_def)
  then show "heap_rep small_vm {}" by (rule heap_repI) (simp add: heap_live_def)
  have "length (vm_coremap small_vm) = 15" by code_simp
  moreover have "\<not> cm_taken (vm_coremap small_vm ! i)" if "i < length (vm_coremap small_vm)" for i
    using pm_repD(3) [OF prep] that by (simp add: blocks_ok_def pm_own_def)
  ultimately have "free_run (vm_coremap small_vm) 0 15" by (simp add: free_run_def)
  then show "pm_room small_vm 15" by (auto simp: pm_room_def)
qed

lemma small_as:
  "\<exists>a s. as_create small_vm = Some (a, s) \<and> a \<noteq> 0 \<and> heap_rep s {(a, 4096)} \<and> as_ok (hp_mem s) {(a, 4096)} a \<and>
     tabs (hp_mem s) a = {} \<and> mapped (hp_mem s) a = {} \<and> pm_room s 14 \<and> vm_tlb s = replicate NUM_TLB (0, 0)"
proof -
  have one: "pm_room small_vm 1" by (rule pm_room_less [OF small_vm_rep(2)]) simp
  from as_create_outcome [OF small_vm_rep(1)] one obtain a s where
    s: "as_create small_vm = Some (a, s)" "kframe small_vm s" "a \<noteq> 0" "heap_rep s {(a, 4096)}" "as_ok (hp_mem s) {(a, 4096)} a"
      "tabs (hp_mem s) a = {}" "\<forall>N. pm_room small_vm N \<and> 1 \<le> N \<longrightarrow> pm_room s (N - 1)" by auto
  have "pm_room s (15 - 1)" using s(7) small_vm_rep(2) by fastforce
  moreover have "vm_tlb s = vm_tlb small_vm" using s(2) by (auto simp: kframe_def)
  ultimately show ?thesis using s small_vm_rep(3) by (intro exI [of _ a] exI [of _ s]) (auto simp: mapped_def)
qed

lemma room_pageleft:
  assumes "heap_rep s L" "pm_room s (unat n)"
  shows "n \<le> vm_pageleft s"
proof -
  have wf: "cm_wf s" using assms(1) heap_invD(1) pm_repD(1) unfolding heap_rep_def by blast
  from assms(2) obtain k where "free_run (vm_coremap s) k (unat n)" by (auto simp: pm_room_def)
  then show ?thesis by (rule pages_left_bound [OF wf])
qed

lemma heap_rep_as [simp]: "heap_rep (s\<lparr> vm_as := a \<rparr>) L = heap_rep s L"
  by (simp add: heap_rep_def heap_inv_def heap_live_def pm_rep_def cm_rep_def cm_wf_def pm_own_def kpage_def cong: if_cong)

theorem vm_fault_maps_witness:
  "\<exists>a s r s'. as_create small_vm = Some (a, s) \<and> vm_fault VM_FAULT_WRITE 0x400010 (s\<lparr> vm_as := a \<rparr>) = Some (r, s') \<and>
     mapped (hp_mem s') a = {(1, 0)}"
proof -
  from small_as obtain a s where s: "as_create small_vm = Some (a, s)" "heap_rep s {(a, 4096)}" "as_ok (hp_mem s) {(a, 4096)} a"
    "mapped (hp_mem s) a = {}" "pm_room s 14" "vm_tlb s = replicate NUM_TLB (0, 0)" by blast
  let ?s = "s\<lparr> vm_as := a \<rparr>"
  have p: "heap_rep ?s {(a, 4096)}" "as_ok (hp_mem ?s) {(a, 4096)} (vm_as ?s)" "tlb_ok (hp_mem ?s) (vm_as ?s) (vm_tlb ?s)"
    "VM_FAULT_WRITE = VM_FAULT_READ \<or> VM_FAULT_WRITE = VM_FAULT_WRITE" "(0x400010 :: u32) < 0x80000000" "(0x400010 :: u32) \<noteq> 0"
    "(0x400010 :: u32) AND 3 = 0"
    using s(2,3,6) by (simp_all add: tlb_ok_def and_3_iff)
  have idx: "va_index 0x400010 = (1, 0)" by (simp add: va_index_def)
  have "pm_room ?s 4" using pm_room_less [OF s(5), of 4] by (simp add: pm_room_def)
  moreover have "pm_room s (unat (5 :: u32))" using pm_room_less [OF s(5), of 5] by simp
  from room_pageleft [OF s(2) this] have "5 \<le> vm_pageleft ?s" by simp
  ultimately have "vm_fault VM_FAULT_WRITE 0x400010 ?s \<noteq> None"
    using vm_fault_maps [OF p] by (auto split: option.splits)
  then obtain r s' where r: "vm_fault VM_FAULT_WRITE 0x400010 ?s = Some (r, s')" by auto
  with vm_fault_maps [OF p] s(4) idx have "mapped (hp_mem s') a = {(1, 0)}" by auto
  with s(1) r show ?thesis by blast
qed

lemma small_as_page:
  "\<exists>a (s :: vmstate) L. heap_rep s L \<and> as_ok (hp_mem s) L a \<and> tabs (hp_mem s) a = {1} \<and> mapped (hp_mem s) a = {(1, 0)} \<and> pm_room s 9"
proof -
  from small_as obtain a and s :: vmstate where s: "heap_rep s {(a, 4096)}" "as_ok (hp_mem s) {(a, 4096)} a"
    "mapped (hp_mem s) a = {}" "pm_room s 14" "tabs (hp_mem s) a = {}" by blast
  have "pm_room s 4" using pm_room_less [OF s(4), of 4] by simp
  moreover have "pm_room s (unat (5 :: u32))" using pm_room_less [OF s(4), of 5] by simp
  from room_pageleft [OF s(1) this] have "5 \<le> vm_pageleft s" by simp
  ultimately obtain s' :: vmstate and L' where s': "heap_rep s' L'" "grown {(a, 4096)} (hp_mem s) L' (hp_mem s') a"
    "mapped (hp_mem s') a = insert (1, 0) (mapped (hp_mem s) a)" "tabs (hp_mem s') a = insert 1 (tabs (hp_mem s) a)"
    "\<forall>N. pm_room s N \<and> 5 \<le> N \<longrightarrow> pm_room s' (N - 5)"
    using fault_pages [OF s(1,2), of 1 0] by auto
  have "pm_room s' (14 - 5)" using s'(5) s(4) by fastforce
  then show ?thesis using s'(1,3,4) grown_ok [OF s'(2)] s(3,5) by auto
qed


theorem as_destroy_frees_witness:
  "\<exists>as (s :: vmstate) L s'. mapped (hp_mem s) as = {(1, 0)} \<and> as_destroy as s = Some s' \<and>
     heap_rep s' (L - as_blocks (hp_mem s) as)"
proof -
  from small_as_page obtain as and s :: vmstate and L where
    s: "heap_rep s L" "as_ok (hp_mem s) L as" "mapped (hp_mem s) as = {(1, 0)}" by blast
  from as_destroy_frees [OF s(1,2)] s(3) show ?thesis by blast
qed

section \<open>Switching address spaces, and errors\<close>

lemma for_each_tlb:
  assumes "length (vm_tlb s) = n" "k \<le> n"
  shows "for_each (\<lambda>i s. do { tlb \<leftarrow> slot_set (vm_tlb s) (int i) (f i); Some (s\<lparr> vm_tlb := tlb \<rparr>) }) [k..<n] s =
    Some (s\<lparr> vm_tlb := take k (vm_tlb s) @ map f [k..<n] \<rparr>)"
  using assms
proof (induction "n - k" arbitrary: k s)
  case (Suc d)
  then have k: "k < n" by simp
  let ?s = "s\<lparr> vm_tlb := (vm_tlb s)[k := f k] \<rparr>"
  have "take (Suc k) ((vm_tlb s)[k := f k]) = take k (vm_tlb s) @ [f k]" using k Suc.prems(1) by (simp add: take_Suc_update)
  then show ?case using Suc.hyps(1) [of "Suc k" ?s] Suc.hyps(2) Suc.prems k by (simp add: upt_conv_Cons)
qed simp

lemma unat_TLBHI_INVALID:
  assumes "i < 64"
  shows "unat (TLBHI_INVALID i) = 2 ^ 31 + 4096 * i"
proof -
  have "TLBHI_INVALID i = 0x80000000 + word_of_nat (4096 * i)"
    by (simp add: TLBHI_INVALID_def push_bit_eq_mult algebra_simps)
  moreover have "unat (0x80000000 + word_of_nat (4096 * i) :: u32) = unat (0x80000000 :: u32) + 4096 * i"
    using assms by (intro unat_add_small) simp
  ultimately show ?thesis by simp
qed

text \<open>
  C18. \<^verbatim>\<open>as_activate\<close> empties the TLB: it returns with every entry invalid, the high words of no two
  entries alike, and nothing else changed; so the TLB agrees with the page tables of any address space
  that is made current next.
\<close>

theorem as_activate_flushes:
  assumes "length (vm_tlb s) = NUM_TLB"
  shows "\<exists>tlb. as_activate as s = Some (s\<lparr> vm_tlb := tlb \<rparr>) \<and> length tlb = NUM_TLB \<and>
    (\<forall>(hi, lo)\<in>set tlb. lo AND TLBLO_VALID = 0) \<and> distinct (map fst tlb) \<and> (\<forall>m a. tlb_ok m a tlb)"
proof -
  let ?tlb = "map (\<lambda>i. (TLBHI_INVALID i, TLBLO_INVALID)) [0..<NUM_TLB]"
  have "as_activate as s = Some (s\<lparr> vm_tlb := ?tlb \<rparr>)"
    unfolding as_activate_def using for_each_tlb [OF assms, of 0] by simp
  moreover have "distinct (map TLBHI_INVALID [0..<NUM_TLB])"
    by (auto simp: distinct_map inj_on_def NUM_TLB_def dest!: arg_cong [where f = unat] simp: unat_TLBHI_INVALID)
  then have "distinct (map fst ?tlb)" by (simp add: comp_def)
  moreover have "\<forall>(hi, lo)\<in>set ?tlb. lo AND TLBLO_VALID = 0" by (auto simp: TLBLO_INVALID_def)
  moreover from this have "tlb_ok m a ?tlb" for m a unfolding tlb_ok_def by fastforce
  ultimately show ?thesis by (intro exI [of _ ?tlb]) simp
qed

theorem as_activate_flushes_witness:
  "\<exists>tlb. as_activate 0x80042000 small_vm = Some (small_vm\<lparr> vm_tlb := tlb \<rparr>) \<and> distinct (map fst tlb)"
  using as_activate_flushes [of small_vm "0x80042000"] small_vm_rep(3) by auto



end
