(* ===== verification/Kern_Array.thy ===== *)
theory Kern_Array
  imports OS_Prelude
begin

text \<open>
  The resizable pointer array of \<^verbatim>\<open>kern/lib/array.c\<close>. A slot of the storage is
  \<open>None\<close> until it has been written; reading such a slot, like failing an
  assertion, has the value \<open>None\<close>. The theory shows that the operations implement
  lists (locale \<open>vector\<close>, interpreted on the model), that preallocated room is
  used without allocating, and that emptying a large array gives that room up.
\<close>

section \<open>State and operations\<close>

record 'a karray =
  arr_num :: int
  arr_max :: int
  arr_v :: "'a option list option"

text \<open>\<open>kmalloc_ok n\<close> says whether \<^verbatim>\<open>kmalloc(n)\<close> succeeds at the time of the call.\<close>

definition array_create :: "(u32 \<Rightarrow> bool) \<Rightarrow> 'a karray option" where
  "array_create kmalloc_ok =
     (if kmalloc_ok 12
      then Some \<lparr> arr_num = 0, arr_max = 0, arr_v = None \<rparr>
      else None)"

definition array_getnum :: "'a karray \<Rightarrow> int" where
  "array_getnum a = arr_num a"

definition array_slots :: "'a karray \<Rightarrow> 'a option list" where
  "array_slots a = (case arr_v a of None \<Rightarrow> [] | Some v \<Rightarrow> v)"

definition array_getguy :: "'a karray \<Rightarrow> int \<Rightarrow> 'a option" where
  "array_getguy a index = do {
     kassert (arr_num a \<le> arr_max a);
     kassert (0 \<le> index \<and> index < arr_num a);
     guy \<leftarrow> slot_get (array_slots a) index;
     guy
   }"

text \<open>The growth loop \<^verbatim>\<open>while (nguys > newmax) newmax = (newmax+1)*2\<close>.\<close>

function array_newmax :: "int \<Rightarrow> int \<Rightarrow> int option" where
  "array_newmax nguys newmax =
     (if newmax < nguys
      then if 0 \<le> newmax
           then do { n \<leftarrow> cint ((newmax + 1) * 2); array_newmax nguys n }
           else None
      else Some newmax)"
  by pat_completeness auto
termination
  by (relation "measure (\<lambda>(nguys, newmax). nat (nguys - newmax))")
     (auto simp: cint_Some)

fun array_copy :: "nat \<Rightarrow> 'a option list \<Rightarrow> 'a option list \<Rightarrow> 'a option list option" where
  "array_copy 0 old new = Some new"
| "array_copy (Suc i) old new = do {
     new' \<leftarrow> array_copy i old new;
     x \<leftarrow> slot_get old (int i);
     slot_set new' (int i) x
   }"

definition array_preallocate ::
  "(u32 \<Rightarrow> bool) \<Rightarrow> 'a karray \<Rightarrow> int \<Rightarrow> ((errno + unit) \<times> 'a karray) option" where
  "array_preallocate kmalloc_ok a nguys = do {
     kassert (0 \<le> arr_num a \<and> arr_num a \<le> arr_max a);
     newmax \<leftarrow> array_newmax nguys (arr_max a);
     let bytes = (word_of_int (newmax * 4) :: u32);
     if \<not> kgrant kmalloc_ok bytes then Some (Inl ENOMEM, a)
     else do {
       newv \<leftarrow> array_copy (nat (arr_num a)) (array_slots a)
                 (replicate (unat bytes div 4) None);
       Some (Inr (), a\<lparr> arr_max := newmax, arr_v := Some newv \<rparr>)
     }
   }"

definition array_setsize ::
  "(u32 \<Rightarrow> bool) \<Rightarrow> 'a karray \<Rightarrow> int \<Rightarrow> ((errno + unit) \<times> 'a karray) option" where
  "array_setsize kmalloc_ok a nguys = do {
     kassert (0 \<le> arr_num a \<and> arr_num a \<le> arr_max a);
     if arr_max a < nguys
     then do {
       (result, a') \<leftarrow> array_preallocate kmalloc_ok a nguys;
       case result of
         Inl e \<Rightarrow> Some (Inl e, a')
       | Inr _ \<Rightarrow> Some (Inr (), a'\<lparr> arr_num := nguys \<rparr>)
     }
     else if nguys = 0 \<and> 16 < arr_max a
     then do {
       kassert (arr_v a \<noteq> None);
       Some (Inr (), a\<lparr> arr_v := None, arr_max := 0, arr_num := nguys \<rparr>)
     }
     else Some (Inr (), a\<lparr> arr_num := nguys \<rparr>)
   }"

definition array_setguy :: "'a karray \<Rightarrow> int \<Rightarrow> 'a \<Rightarrow> 'a karray option" where
  "array_setguy a index ptr = do {
     kassert (arr_num a \<le> arr_max a);
     kassert (0 \<le> index \<and> index < arr_num a);
     v \<leftarrow> slot_set (array_slots a) index (Some ptr);
     Some (a\<lparr> arr_v := Some v \<rparr>)
   }"

definition array_add ::
  "(u32 \<Rightarrow> bool) \<Rightarrow> 'a karray \<Rightarrow> 'a \<Rightarrow> ((errno + unit) \<times> 'a karray) option" where
  "array_add kmalloc_ok a guy = do {
     let ix = arr_num a;
     n \<leftarrow> cint (ix + 1);
     (result, a') \<leftarrow> array_setsize kmalloc_ok a n;
     case result of
       Inl e \<Rightarrow> Some (Inl e, a')
     | Inr _ \<Rightarrow> do {
         v \<leftarrow> slot_set (array_slots a') ix (Some guy);
         Some (Inr (), a'\<lparr> arr_v := Some v \<rparr>)
       }
   }"

text \<open>\<^verbatim>\<open>memmove\<close> of \<open>nmove\<close> slots one place down, within the storage.\<close>

definition array_remove :: "'a karray \<Rightarrow> int \<Rightarrow> 'a karray option" where
  "array_remove a index = do {
     kassert (arr_num a \<le> arr_max a);
     kassert (0 \<le> index \<and> index < arr_num a);
     let nmove = nat (arr_num a - (index + 1));
     let v = array_slots a;
     let i = nat index;
     kassert (i + 1 + nmove \<le> length v);
     Some (a\<lparr> arr_v := Some (take i v @ take nmove (drop (i + 1) v) @ drop (i + nmove) v),
              arr_num := arr_num a - 1 \<rparr>)
   }"

text \<open>What \<^verbatim>\<open>array_destroy\<close> hands to \<^verbatim>\<open>kfree\<close>: the storage, if there is any, and the header.\<close>

definition array_destroy :: "'a karray \<Rightarrow> 'a option list list \<times> 'a karray" where
  "array_destroy a = ((case arr_v a of None \<Rightarrow> [] | Some v \<Rightarrow> [v]), a)"

section \<open>Representation invariant and abstraction\<close>

text \<open>
  The bound on \<^verbatim>\<open>max\<close> is the largest array of pointers that fits the memory \<^verbatim>\<open>kmalloc\<close> manages.
\<close>

definition array_wf :: "'a karray \<Rightarrow> bool" where
  "array_wf a \<longleftrightarrow> 0 \<le> arr_num a \<and> arr_num a \<le> arr_max a \<and> arr_max a < 2 ^ 27 \<and>
     length (array_slots a) = nat (arr_max a)"

definition array_list :: "'a karray \<Rightarrow> 'a list" where
  "array_list a = map the (take (nat (arr_num a)) (array_slots a))"

definition array_invar :: "'a karray \<Rightarrow> bool" where
  "array_invar a \<longleftrightarrow> array_wf a \<and>
     list_all (\<lambda>x. x \<noteq> None) (take (nat (arr_num a)) (array_slots a))"

lemmas array_defs = array_wf_def array_list_def array_invar_def array_slots_def

lemma array_invar_wf: "array_invar a \<Longrightarrow> array_wf a"
  by (simp add: array_invar_def)

lemma array_list_length [simp]: "array_wf a \<Longrightarrow> length (array_list a) = nat (arr_num a)"
  by (auto simp: array_wf_def array_list_def)

lemma array_slots_nth:
  assumes "array_invar a" "i < nat (arr_num a)"
  shows "array_slots a ! i = Some (array_list a ! i)"
proof -
  have len: "i < length (take (nat (arr_num a)) (array_slots a))"
    using assms by (auto simp: array_invar_def array_wf_def)
  then have "take (nat (arr_num a)) (array_slots a) ! i \<noteq> None"
    using assms(1) by (auto simp: array_invar_def list_all_length)
  then show ?thesis
    using len assms(2) by (auto simp: array_list_def)
qed

lemma array_invarI:
  assumes "0 \<le> arr_num a" "arr_num a \<le> arr_max a" "arr_max a < 2 ^ 27"
    and "length (array_slots a) = nat (arr_max a)"
    and "take (nat (arr_num a)) (array_slots a) = map Some xs"
  shows "array_invar a" "array_list a = xs"
  using assms by (auto simp: array_invar_def array_wf_def array_list_def list_all_iff o_def)

lemma array_take_slots:
  "array_invar a \<Longrightarrow> take (nat (arr_num a)) (array_slots a) = map Some (array_list a)"
  by (rule nth_equalityI) (auto simp: array_slots_nth array_invar_def array_wf_def)

section \<open>Growth\<close>

declare array_newmax.simps [simp del]

lemma array_newmax_bound:
  assumes "0 \<le> m" "m < 2 ^ 30" "nguys < 2 ^ 29"
  shows "\<exists>n. array_newmax nguys m = Some n \<and> nguys \<le> n \<and> m \<le> n \<and> n < 2 ^ 30 \<and>
             (nguys \<le> m \<longrightarrow> n = m)"
  using assms
proof (induction nguys m rule: array_newmax.induct)
  case (1 nguys newmax)
  show ?case
  proof (cases "newmax < nguys")
    case True
    let ?n = "(newmax + 1) * 2"
    have n: "cint ?n = Some ?n" "0 \<le> ?n" "?n < 2 ^ 30"
      using True 1(2,4) by (auto simp: cint_def)
    have "\<exists>n. array_newmax nguys ?n = Some n \<and> nguys \<le> n \<and> ?n \<le> n \<and> n < 2 ^ 30 \<and>
             (nguys \<le> ?n \<longrightarrow> n = ?n)"
      using 1(1)[OF True 1(2) n(1)] n 1(4) by simp
    then obtain n' where n': "array_newmax nguys ?n = Some n'" "nguys \<le> n'" "?n \<le> n'" "n' < 2 ^ 30"
      by blast
    have "array_newmax nguys newmax = Some n'"
      using True 1(2) n(1) n'(1) by (subst array_newmax.simps) simp
    then show ?thesis using n' True 1(2) by auto
  next
    case False
    then have "array_newmax nguys newmax = Some newmax"
      by (subst array_newmax.simps) simp
    then show ?thesis using False 1(3) by simp
  qed
qed

lemma array_copy_eq:
  "n \<le> length old \<Longrightarrow> n \<le> length new \<Longrightarrow> array_copy n old new = Some (take n old @ drop n new)"
proof (induction n)
  case (Suc n)
  then have "(take n old @ drop n new)[n := old ! n] = take (Suc n) old @ drop (Suc n) new"
    by (simp add: list_update_append take_Suc_conv_app_nth Cons_nth_drop_Suc [symmetric])
  with Suc show ?case by simp
qed simp

text \<open>Every outcome of \<^verbatim>\<open>array_preallocate\<close> on a well-formed array.\<close>

lemma array_preallocate_cases:
  assumes "array_wf a" "nguys < 2 ^ 29"
  obtains (nomem) n where "\<not> kgrant kmalloc_ok (word_of_int (n * 4))"
            "array_preallocate kmalloc_ok a nguys = Some (Inl ENOMEM, a)"
  | (grown) n where "nguys \<le> n" "arr_max a \<le> n" "n < 2 ^ 27"
            "array_preallocate kmalloc_ok a nguys =
               Some (Inr (), a\<lparr> arr_max := n,
                 arr_v := Some (take (nat (arr_num a)) (array_slots a) @
                                replicate (nat n - nat (arr_num a)) None) \<rparr>)"
proof -
  obtain n where n: "array_newmax nguys (arr_max a) = Some n" "nguys \<le> n" "arr_max a \<le> n" "n < 2 ^ 30"
    using array_newmax_bound [of "arr_max a" nguys] assms by (auto simp: array_wf_def)
  have "0 \<le> n" using n(3) assms(1) by (auto simp: array_wf_def)
  note bytes = slot_bytes [OF this n(4)] and lim = kgrant_slots [OF _ this n(4), of kmalloc_ok]
  show thesis
  proof (cases "kgrant kmalloc_ok (word_of_int (n * 4))")
    case True
    then show ?thesis
      using assms(1) n bytes lim
      by (intro grown [of n]) (auto simp: array_preallocate_def ksimps array_wf_def array_copy_eq)
  next
    case False
    then show ?thesis
      using assms(1) n by (intro nomem [of n]) (auto simp: array_preallocate_def ksimps array_wf_def)
  qed
qed

lemma array_preallocate_invar:
  assumes "array_invar a" "nguys < 2 ^ 29"
    and "array_preallocate kmalloc_ok a nguys = Some (Inr (), a')"
  shows "array_invar a'" "array_list a' = array_list a" "arr_num a' = arr_num a"
    "nguys \<le> arr_max a'" "arr_max a \<le> arr_max a'"
proof -
  from array_preallocate_cases [OF array_invar_wf [OF assms(1)] assms(2), of kmalloc_ok]
  obtain n where n: "nguys \<le> n" "arr_max a \<le> n" "n < 2 ^ 27"
    and a': "a' = a\<lparr> arr_max := n,
                 arr_v := Some (take (nat (arr_num a)) (array_slots a) @
                                replicate (nat n - nat (arr_num a)) None) \<rparr>"
    using assms(3) by (cases rule: array_preallocate_cases
        [OF array_invar_wf [OF assms(1)] assms(2), of kmalloc_ok]) auto
  have wf: "array_wf a" by (rule array_invar_wf [OF assms(1)])
  have t: "take (nat (arr_num a')) (array_slots a') = map Some (array_list a)"
    using wf by (simp add: a' array_slots_def [of "_\<lparr> arr_v := _ \<rparr>"] array_take_slots [OF assms(1)])
  have "0 \<le> arr_num a'" "arr_num a' \<le> arr_max a'" "arr_max a' < 2 ^ 27"
    "length (array_slots a') = nat (arr_max a')"
    using wf n by (auto simp: a' array_wf_def array_slots_def)
  from array_invarI [OF this t] show "array_invar a'" "array_list a' = array_list a" by auto
  show "arr_num a' = arr_num a" "nguys \<le> arr_max a'" "arr_max a \<le> arr_max a'"
    using n by (auto simp: a')
qed

section \<open>Behaviour of the operations on lists\<close>

lemma array_getguy_list:
  assumes "array_invar a"
  shows "array_getguy a i =
    (if 0 \<le> i \<and> i < arr_num a then Some (array_list a ! nat i) else None)"
  using assms array_slots_nth [OF assms, of "nat i"]
  by (auto simp: array_getguy_def ksimps slot_get_def array_invar_def array_wf_def)

lemma array_setguy_list:
  assumes "array_invar a" "0 \<le> i" "i < arr_num a"
  shows "\<exists>a'. array_setguy a i x = Some a' \<and> array_invar a' \<and>
    array_list a' = (array_list a)[nat i := x] \<and> arr_max a' = arr_max a"
proof -
  let ?a = "a\<lparr> arr_v := Some ((array_slots a)[nat i := Some x]) \<rparr>"
  have wf: "array_wf a" by (rule array_invar_wf [OF assms(1)])
  have op: "array_setguy a i x = Some ?a"
    using assms wf by (auto simp: array_setguy_def ksimps slot_set_def array_wf_def)
  have t: "take (nat (arr_num ?a)) (array_slots ?a) = map Some ((array_list a)[nat i := x])"
    using assms by (simp add: array_slots_def [of "_\<lparr> arr_v := _ \<rparr>"] take_update_swap
        array_take_slots map_update)
  have "0 \<le> arr_num ?a" "arr_num ?a \<le> arr_max ?a" "arr_max ?a < 2 ^ 27"
    "length (array_slots ?a) = nat (arr_max ?a)"
    using wf by (auto simp: array_wf_def array_slots_def)
  from array_invarI [OF this t] op show ?thesis by auto
qed

lemma array_remove_list:
  assumes "array_invar a" "0 \<le> i" "i < arr_num a"
  shows "\<exists>a'. array_remove a i = Some a' \<and> array_invar a' \<and>
    array_list a' = take (nat i) (array_list a) @ drop (Suc (nat i)) (array_list a) \<and>
    arr_max a' = arr_max a"
proof -
  define n where "n = nat (arr_num a)"
  define k where "k = nat i"
  define v where "v = array_slots a"
  define w where "w = take k v @ take (n - (k + 1)) (drop (k + 1) v) @ drop (k + (n - (k + 1))) v"
  let ?a = "a\<lparr> arr_v := Some w, arr_num := arr_num a - 1 \<rparr>"
  have wf: "array_wf a" by (rule array_invar_wf [OF assms(1)])
  have len: "n \<le> length v" "k < n" "int n = arr_num a"
    using wf assms by (auto simp: n_def k_def v_def array_wf_def)
  have nm: "nat (arr_num a - (i + 1)) = n - (k + 1)"
    using assms by (auto simp: n_def k_def)
  have op: "array_remove a i = Some ?a"
    using assms wf len unfolding array_remove_def nm
    by (auto simp: Let_def ksimps array_wf_def w_def n_def [symmetric] k_def [symmetric]
        v_def [symmetric])
  have tv: "take n v = map Some (array_list a)"
    using array_take_slots [OF assms(1)] by (simp add: n_def v_def)
  have "take (n - 1) w = take k (take n v) @ drop (Suc k) (take n v)"
    using len by (auto simp: w_def take_drop)
  moreover have "nat (arr_num a - 1) = n - 1" using len by linarith
  ultimately have t: "take (nat (arr_num ?a)) (array_slots ?a)
      = map Some (take k (array_list a) @ drop (Suc k) (array_list a))"
    unfolding tv by (simp add: array_slots_def take_map drop_map)
  have "length w = length v" using len by (auto simp: w_def)
  then have "0 \<le> arr_num ?a" "arr_num ?a \<le> arr_max ?a" "arr_max ?a < 2 ^ 27"
    "length (array_slots ?a) = nat (arr_max ?a)"
    using wf assms by (auto simp: array_wf_def array_slots_def v_def)
  from array_invarI [OF this t] op show ?thesis by (auto simp: k_def)
qed

text \<open>Adding while there is preallocated room does not depend on \<^verbatim>\<open>kmalloc\<close>.\<close>

lemma array_append_slot:
  fixes x :: 'a
  assumes "array_invar a" "arr_num a < arr_max a"
  defines "a' \<equiv> a\<lparr> arr_num := arr_num a + 1,
                    arr_v := Some ((array_slots a)[nat (arr_num a) := Some x]) \<rparr>"
  shows "array_invar a'" "array_list a' = array_list a @ [x]"
proof -
  have wf: "array_wf a" by (rule array_invar_wf [OF assms(1)])
  have n: "nat (arr_num a + 1) = Suc (nat (arr_num a))" "nat (arr_num a) < length (array_slots a)"
    using wf assms(2) by (auto simp: array_wf_def)
  have t: "take (nat (arr_num a')) (array_slots a') = map Some (array_list a @ [x])"
    using n by (simp add: a'_def array_slots_def [of "_\<lparr> arr_v := _ \<rparr>"] take_Suc_update
        array_take_slots [OF assms(1)])
  have "0 \<le> arr_num a'" "arr_num a' \<le> arr_max a'" "arr_max a' < 2 ^ 27"
    "length (array_slots a') = nat (arr_max a')"
    using wf assms(2) by (auto simp: a'_def array_wf_def array_slots_def)
  from array_invarI [OF this t] show "array_invar a'" "array_list a' = array_list a @ [x]" by auto
qed

lemma array_add_room:
  assumes "array_invar a" "arr_num a < arr_max a"
  shows "\<exists>a'. array_add kmalloc_ok a x = Some (Inr (), a') \<and> array_invar a' \<and>
    array_list a' = array_list a @ [x] \<and> arr_max a' = arr_max a"
proof -
  have wf: "array_wf a" by (rule array_invar_wf [OF assms(1)])
  then have "array_add kmalloc_ok a x =
      Some (Inr (), a\<lparr> arr_num := arr_num a + 1,
                      arr_v := Some ((array_slots a)[nat (arr_num a) := Some x]) \<rparr>)"
    using assms(2)
    by (auto simp: array_add_def Let_def array_setsize_def ksimps array_wf_def slot_set_def
        array_slots_def)
  with array_append_slot [OF assms, of x] show ?thesis by auto
qed

lemma array_add_full:
  assumes "array_invar a" "arr_num a = arr_max a"
  shows "array_add kmalloc_ok a x = Some (Inl ENOMEM, a) \<or>
    (\<exists>a'. array_add kmalloc_ok a x = Some (Inr (), a') \<and> array_invar a' \<and>
      array_list a' = array_list a @ [x] \<and> arr_max a \<le> arr_max a')"
proof -
  have wf: "array_wf a" by (rule array_invar_wf [OF assms(1)])
  then have n: "0 \<le> arr_num a" "arr_num a + 1 < 2 ^ 29" using assms(2) by (auto simp: array_wf_def)
  show ?thesis
  proof (cases rule: array_preallocate_cases [OF wf n(2), of kmalloc_ok])
    case (1 m)
    then show ?thesis using n assms(2) wf
      by (auto simp: array_add_def Let_def array_setsize_def ksimps array_wf_def)
  next
    case (2 m)
    define b where "b = a\<lparr> arr_max := m,
                 arr_v := Some (take (nat (arr_num a)) (array_slots a) @
                                replicate (nat m - nat (arr_num a)) None) \<rparr>"
    have pre: "array_preallocate kmalloc_ok a (arr_num a + 1) = Some (Inr (), b)"
      using 2(4) by (simp add: b_def)
    note b = array_preallocate_invar [OF assms(1) n(2) pre]
    have room: "arr_num b < arr_max b" using b by simp
    have "array_add kmalloc_ok a x =
        Some (Inr (), b\<lparr> arr_num := arr_num b + 1,
                        arr_v := Some ((array_slots b)[nat (arr_num b) := Some x]) \<rparr>)"
      using n assms(2) wf b room array_invar_wf [OF b(1)]
      by (auto simp: array_add_def Let_def array_setsize_def ksimps pre [unfolded assms(2)] slot_set_def
          array_wf_def array_slots_def)
    with array_append_slot [OF b(1) room, of x] b(2,5) show ?thesis by auto
  qed
qed

section \<open>The interface other components rely on\<close>

text \<open>
  The thread system keeps its sleepers and zombies, and the file system its vnodes,
  in such arrays. \<open>room\<close> is the number of elements that can be stored without
  asking the allocator.
\<close>

locale vector =
  fixes num :: "'v \<Rightarrow> int"
    and get :: "'v \<Rightarrow> int \<Rightarrow> 'a option"
    and put :: "'v \<Rightarrow> int \<Rightarrow> 'a \<Rightarrow> 'v option"
    and add :: "'v \<Rightarrow> 'a \<Rightarrow> ((errno + unit) \<times> 'v) option"
    and remove :: "'v \<Rightarrow> int \<Rightarrow> 'v option"
    and invar :: "'v \<Rightarrow> bool"
    and elems :: "'v \<Rightarrow> 'a list"
    and room :: "'v \<Rightarrow> int"
  assumes num_elems: "invar v \<Longrightarrow> num v = int (length (elems v))"
    and get_elems: "invar v \<Longrightarrow>
      get v i = (if 0 \<le> i \<and> i < num v then Some (elems v ! nat i) else None)"
    and put_elems: "invar v \<Longrightarrow> 0 \<le> i \<Longrightarrow> i < num v \<Longrightarrow>
      \<exists>w. put v i x = Some w \<and> invar w \<and> elems w = (elems v)[nat i := x] \<and> room w = room v"
    and add_elems: "invar v \<Longrightarrow> num v < room v \<Longrightarrow>
      \<exists>w. add v x = Some (Inr (), w) \<and> invar w \<and> elems w = elems v @ [x] \<and> room w = room v"
    and remove_elems: "invar v \<Longrightarrow> 0 \<le> i \<Longrightarrow> i < num v \<Longrightarrow>
      \<exists>w. remove v i = Some w \<and> invar w \<and>
        elems w = take (nat i) (elems v) @ drop (Suc (nat i)) (elems v) \<and> room w = room v"
begin

lemma get_int: "invar v \<Longrightarrow> i < length (elems v) \<Longrightarrow> get v (int i) = Some (elems v ! i)"
  by (simp add: get_elems num_elems)

lemma remove_int:
  assumes "invar v" "i < length (elems v)"
  obtains w where "remove v (int i) = Some w" "invar w"
    "elems w = take i (elems v) @ drop (Suc i) (elems v)" "room w = room v"
  using remove_elems [of v "int i"] assms by (auto simp: num_elems)

lemma add_room:
  assumes "invar v" "int (length (elems v)) < room v"
  obtains w where "add v x = Some (Inr (), w)" "invar w" "elems w = elems v @ [x]" "room w = room v"
  using add_elems [of v x] assms by (auto simp: num_elems)

text \<open>Storing and then fetching, and the effect of a removal on a duplicate-free array.\<close>

lemma get_put:
  "invar v \<Longrightarrow> 0 \<le> i \<Longrightarrow> i < num v \<Longrightarrow> put v i x = Some w \<Longrightarrow> get w i = Some x"
  using put_elems [of v i x] by (auto simp: get_elems num_elems)

lemma remove_set:
  assumes "invar v" "i < length (elems v)" "distinct (elems v)" "remove v (int i) = Some w"
  shows "distinct (elems w)" "set (elems w) = set (elems v) - {elems v ! i}"
proof -
  have w: "elems w = take i (elems v) @ drop (Suc i) (elems v)"
    using remove_int [OF assms(1,2)] assms(4) by auto
  have "elems v = take i (elems v) @ elems v ! i # drop (Suc i) (elems v)"
    by (rule id_take_nth_drop [OF assms(2)])
  with assms(3) have "distinct (take i (elems v) @ elems v ! i # drop (Suc i) (elems v))" by simp
  then show "distinct (elems w)" by (simp add: w)
  show "set (elems w) = set (elems v) - {elems v ! i}"
    unfolding w by (rule distinct_remove_nth [OF assms(3,2)])
qed

text \<open>A stack discipline: removing the last element undoes an addition.\<close>

lemma remove_add:
  assumes "invar v" "num v < room v" "add v x = Some (Inr (), w)"
  obtains u where "remove w (num v) = Some u" "elems u = elems v"
  using add_elems [OF assms(1,2), of x] assms(3) remove_elems [of w "num v"]
  by (auto simp: num_elems assms(1))

end

interpretation ka: vector array_getnum array_getguy array_setguy "array_add kmalloc_ok"
    array_remove array_invar array_list arr_max
  for kmalloc_ok :: "u32 \<Rightarrow> bool"
proof unfold_locales
  fix a :: "'a karray" and i :: int and x :: 'a
  assume inv: "array_invar a"
  have wf: "array_wf a" by (rule array_invar_wf [OF inv])
  show "array_getnum a = int (length (array_list a))"
    using wf by (auto simp: array_getnum_def array_wf_def)
  show "array_getguy a i =
      (if 0 \<le> i \<and> i < array_getnum a then Some (array_list a ! nat i) else None)"
    by (simp add: array_getguy_list [OF inv] array_getnum_def)
  show "\<exists>w. array_setguy a i x = Some w \<and> array_invar w \<and>
      array_list w = (array_list a)[nat i := x] \<and> arr_max w = arr_max a"
    if "0 \<le> i" "i < array_getnum a"
    using array_setguy_list [OF inv] that by (simp add: array_getnum_def)
  show "\<exists>w. array_add kmalloc_ok a x = Some (Inr (), w) \<and> array_invar w \<and>
      array_list w = array_list a @ [x] \<and> arr_max w = arr_max a"
    if "array_getnum a < arr_max a"
    using array_add_room [OF inv] that by (simp add: array_getnum_def)
  show "\<exists>w. array_remove a i = Some w \<and> array_invar w \<and>
      array_list w = take (nat i) (array_list a) @ drop (Suc (nat i)) (array_list a) \<and>
      arr_max w = arr_max a"
    if "0 \<le> i" "i < array_getnum a"
    using array_remove_list [OF inv] that by (simp add: array_getnum_def)
qed
end
