(* ===== verification/Kern_Queue.thy ===== *)
theory Kern_Queue
  imports OS_Prelude
begin

text \<open>
  The circular queue of \<^verbatim>\<open>kern/lib/queue.c\<close>, which holds the run queue of the
  scheduler. A queue of \<open>size\<close> slots holds at most \<open>size - 1\<close> elements, since
  \<open>nextread = nextwrite\<close> means empty. The theory shows that the ring buffer
  implements a list used first in, first out (locale \<open>fifo\<close>, interpreted on the
  model), across wrap-around and growth.

  \<^verbatim>\<open>q_addtail\<close> calls \<^verbatim>\<open>q_grow\<close>, which calls \<^verbatim>\<open>q_addtail\<close> again to refill the larger
  buffer. The model bounds the nesting of \<^verbatim>\<open>q_addtail\<close> by a depth and the refill loop
  by the old size; running out of either is \<open>None\<close>. Depth 2 is what the public operations
  use, and on a well-formed queue they never run out.
\<close>

section \<open>State and operations\<close>

record 'a kqueue =
  q_size :: int
  q_nextwrite :: int
  q_nextread :: int
  q_data :: "'a option list"

function q_newsize :: "int \<Rightarrow> int \<Rightarrow> int option" where
  "q_newsize targetsize nsize =
     (if nsize < targetsize
      then do {
        n \<leftarrow> cint (nsize * 2);
        if 0 < n then q_newsize targetsize n else None
      }
      else Some nsize)"
  by pat_completeness auto
termination
  by (relation "measure (\<lambda>(targetsize, nsize). nat (targetsize - nsize))")
     (auto simp: cint_Some)

definition q_create :: "(u32 \<Rightarrow> bool) \<Rightarrow> int \<Rightarrow> 'a kqueue option" where
  "q_create kmalloc_ok sz =
     (let bytes = (word_of_int (sz * 4) :: u32) in
      if \<not> kmalloc_ok 16 then None
      else if \<not> kgrant kmalloc_ok bytes then None
      else Some \<lparr> q_size = sz, q_nextwrite = 0, q_nextread = 0,
                  q_data = replicate (unat bytes div 4) None \<rparr>)"

definition q_empty :: "'a kqueue \<Rightarrow> bool" where
  "q_empty q \<longleftrightarrow> q_nextwrite q = q_nextread q"

text \<open>The last three lines of \<^verbatim>\<open>q_addtail\<close>.\<close>

definition q_store :: "'a kqueue \<Rightarrow> 'a \<Rightarrow> int \<Rightarrow> ((errno + unit) \<times> 'a kqueue) option" where
  "q_store q ptr nextnext = do {
     d \<leftarrow> slot_set (q_data q) (q_nextwrite q) (Some ptr);
     Some (Inr (), q\<lparr> q_data := d, q_nextwrite := nextnext \<rparr>)
   }"

function q_addtail_d ::
    "nat \<Rightarrow> (u32 \<Rightarrow> bool) \<Rightarrow> 'a kqueue \<Rightarrow> 'a \<Rightarrow> ((errno + unit) \<times> 'a kqueue) option"
  and q_grow_d ::
    "nat \<Rightarrow> (u32 \<Rightarrow> bool) \<Rightarrow> 'a kqueue \<Rightarrow> int \<Rightarrow> ((errno + unit) \<times> 'a kqueue) option"
  and q_refill_d ::
    "nat \<Rightarrow> (u32 \<Rightarrow> bool) \<Rightarrow> nat \<Rightarrow> 'a option list \<Rightarrow> int \<Rightarrow> int \<Rightarrow> int \<Rightarrow> 'a kqueue
       \<Rightarrow> 'a kqueue option" where
  "q_addtail_d 0 kmalloc_ok q ptr = None"
| "q_addtail_d (Suc d) kmalloc_ok q ptr = do {
     kassert (0 < q_size q);
     let nextnext = (q_nextwrite q + 1) mod q_size q;
     if nextnext = q_nextread q
     then do {
       target \<leftarrow> cint (q_size q + 1);
       (result, q') \<leftarrow> q_grow_d d kmalloc_ok q target;
       case result of
         Inl e \<Rightarrow> Some (Inl e, q')
       | Inr _ \<Rightarrow> q_store q' ptr ((q_nextwrite q' + 1) mod q_size q')
     }
     else q_store q ptr nextnext
   }"
| "q_grow_d d kmalloc_ok q targetsize = do {
     nsize \<leftarrow> q_newsize targetsize (q_size q);
     let bytes = (word_of_int (nsize * 4) :: u32);
     if \<not> kgrant kmalloc_ok bytes then Some (Inl ENOMEM, q)
     else do {
       q' \<leftarrow> q_refill_d d kmalloc_ok (nat (q_size q)) (q_data q) (q_size q) (q_nextread q)
              (q_nextwrite q)
              (q\<lparr> q_size := nsize, q_data := replicate (unat bytes div 4) None,
                 q_nextwrite := 0, q_nextread := 0 \<rparr>);
       Some (Inr (), q')
     }
   }"
| "q_refill_d d kmalloc_ok fuel olddata osize i onw q =
     (if i = onw then Some q
      else case fuel of
        0 \<Rightarrow> None
      | Suc f \<Rightarrow> do {
          slot \<leftarrow> slot_get olddata i;
          ptr \<leftarrow> slot;
          (result, q') \<leftarrow> q_addtail_d d kmalloc_ok q ptr;
          kassert (result = Inr ());
          q_refill_d d kmalloc_ok f olddata osize ((i + 1) mod osize) onw q'
        })"
  by pat_completeness auto
termination
  by (relation "inv_image (less_than <*lex*> less_than)
       (\<lambda>x. case x of
          Inl (d, _) \<Rightarrow> (d, 0)
        | Inr (Inl (d, _, q, _)) \<Rightarrow> (d, nat (q_size q) + 2)
        | Inr (Inr (d, _, fuel, _)) \<Rightarrow> (d, Suc fuel))") auto

definition q_addtail ::
  "(u32 \<Rightarrow> bool) \<Rightarrow> 'a kqueue \<Rightarrow> 'a \<Rightarrow> ((errno + unit) \<times> 'a kqueue) option" where
  "q_addtail = q_addtail_d 2"

definition q_grow ::
  "(u32 \<Rightarrow> bool) \<Rightarrow> 'a kqueue \<Rightarrow> int \<Rightarrow> ((errno + unit) \<times> 'a kqueue) option" where
  "q_grow = q_grow_d 1"

definition q_preallocate ::
  "(u32 \<Rightarrow> bool) \<Rightarrow> 'a kqueue \<Rightarrow> int \<Rightarrow> ((errno + unit) \<times> 'a kqueue) option" where
  "q_preallocate kmalloc_ok q sz = do {
     kassert (0 < q_size q);
     if q_size q < sz then q_grow kmalloc_ok q sz else Some (Inr (), q)
   }"

definition q_remhead :: "'a kqueue \<Rightarrow> ('a \<times> 'a kqueue) option" where
  "q_remhead q = do {
     kassert (0 < q_size q);
     kassert (\<not> q_empty q);
     slot \<leftarrow> slot_get (q_data q) (q_nextread q);
     ret \<leftarrow> slot;
     Some (ret, q\<lparr> q_nextread := (q_nextread q + 1) mod q_size q \<rparr>)
   }"

text \<open>\<^verbatim>\<open>q_destroy\<close> insists on an empty queue; it then frees the storage and the header.\<close>

definition q_destroy :: "'a kqueue \<Rightarrow> unit option" where
  "q_destroy q = kassert (q_empty q)"

definition q_getstart :: "'a kqueue \<Rightarrow> int" where
  "q_getstart q = q_nextread q"

definition q_getend :: "'a kqueue \<Rightarrow> int" where
  "q_getend q = q_nextwrite q"

definition q_getsize :: "'a kqueue \<Rightarrow> int" where
  "q_getsize q = q_size q"

definition q_getguy :: "'a kqueue \<Rightarrow> int \<Rightarrow> 'a option" where
  "q_getguy q index = do {
     kassert (0 \<le> index \<and> index < q_size q);
     slot \<leftarrow> slot_get (q_data q) index;
     slot
   }"

section \<open>Representation invariant and abstraction\<close>

definition q_list :: "'a kqueue \<Rightarrow> 'a list" where
  "q_list q = map (\<lambda>k. the (q_data q ! nat ((q_nextread q + int k) mod q_size q)))
                [0..<nat ((q_nextwrite q - q_nextread q) mod q_size q)]"

definition q_rep :: "'a kqueue \<Rightarrow> 'a list \<Rightarrow> bool" where
  "q_rep q xs \<longleftrightarrow> 0 < q_size q \<and> q_size q < 2 ^ 27 \<and> length (q_data q) = nat (q_size q) \<and>
     0 \<le> q_nextread q \<and> q_nextread q < q_size q \<and> int (length xs) < q_size q \<and>
     q_nextwrite q = (q_nextread q + int (length xs)) mod q_size q \<and>
     list_all (\<lambda>k. q_data q ! nat ((q_nextread q + int k) mod q_size q) = Some (xs ! k))
       [0..<length xs]"

definition q_invar :: "'a kqueue \<Rightarrow> bool" where
  "q_invar q \<longleftrightarrow> q_rep q (q_list q)"

lemma q_rep_list:
  assumes "q_rep q xs"
  shows "q_list q = xs"
proof -
  have "(q_nextwrite q - q_nextread q) mod q_size q = int (length xs)"
    using assms by (auto simp: q_rep_def mod_diff_left_eq)
  then show ?thesis
    using assms by (intro nth_equalityI) (auto simp: q_list_def q_rep_def list_all_iff)
qed

lemma q_rep_invar: "q_rep q xs \<longleftrightarrow> q_invar q \<and> q_list q = xs"
  by (auto simp: q_invar_def q_rep_list)

section \<open>The ring buffer implements a list\<close>

declare q_newsize.simps [simp del] q_addtail_d.simps [simp del]
  q_grow_d.simps [simp del] q_refill_d.simps [simp del]

lemma q_rep_nextwrite:
  assumes "q_rep q xs"
  shows "0 \<le> q_nextwrite q" "q_nextwrite q < q_size q"
  using assms by (auto simp: q_rep_def)

lemma q_full_iff:
  assumes "q_rep q xs"
  shows "(q_nextwrite q + 1) mod q_size q = q_nextread q \<longleftrightarrow> int (length xs) + 1 = q_size q"
proof -
  have r: "0 < q_size q" "0 \<le> q_nextread q" "q_nextread q < q_size q" "int (length xs) < q_size q"
    and w: "(q_nextwrite q + 1) mod q_size q = (q_nextread q + (int (length xs) + 1)) mod q_size q"
    using assms by (auto simp: q_rep_def mod_simps algebra_simps)
  show ?thesis
  proof (cases "int (length xs) + 1 = q_size q")
    case True
    then show ?thesis using w r by (simp only: mod_add_self2) simp
  next
    case False
    then have "(q_nextread q + (int (length xs) + 1)) mod q_size q \<noteq> (q_nextread q + 0) mod q_size q"
      using ring_index_inj [of "q_nextread q" "int (length xs) + 1" "q_size q" 0] r by auto
    with False w r show ?thesis by simp
  qed
qed

lemma q_empty_iff:
  assumes "q_rep q xs"
  shows "q_empty q \<longleftrightarrow> xs = []"
proof -
  have r: "0 < q_size q" "0 \<le> q_nextread q" "q_nextread q < q_size q" "int (length xs) < q_size q"
    and w: "q_nextwrite q = (q_nextread q + int (length xs)) mod q_size q"
    using assms by (auto simp: q_rep_def)
  have "q_nextwrite q = (q_nextread q + 0) mod q_size q \<longleftrightarrow> length xs = 0"
    using ring_index_inj [of "q_nextread q" "int (length xs)" "q_size q" 0] r w by auto
  with r show ?thesis by (simp add: q_empty_def)
qed

lemma q_store_rep:
  assumes "q_rep q xs" "int (length xs) + 1 < q_size q"
  shows "\<exists>q'. q_store q x ((q_nextwrite q + 1) mod q_size q) = Some (Inr (), q') \<and>
    q_rep q' (xs @ [x]) \<and> q_size q' = q_size q"
proof -
  let ?q = "q\<lparr> q_data := (q_data q)[nat (q_nextwrite q) := Some x],
               q_nextwrite := (q_nextwrite q + 1) mod q_size q \<rparr>"
  note w = q_rep_nextwrite [OF assms(1)]
  have r: "0 < q_size q" "length (q_data q) = nat (q_size q)"
    and nw: "q_nextwrite q = (q_nextread q + int (length xs)) mod q_size q"
    using assms(1) by (auto simp: q_rep_def)
  have op: "q_store q x ((q_nextwrite q + 1) mod q_size q) = Some (Inr (), ?q)"
    using w r by (simp add: q_store_def slot_set_def)
  have slot: "q_data ?q ! nat ((q_nextread q + int k) mod q_size q) = Some ((xs @ [x]) ! k)"
    if k: "k < length (xs @ [x])" for k
  proof (cases "k = length xs")
    case True
    then show ?thesis using w r nw by simp
  next
    case False
    then have k': "k < length xs" using k by simp
    have "(q_nextread q + int k) mod q_size q \<noteq> q_nextwrite q"
      using ring_index_inj [of "q_nextread q" "int k" "q_size q" "int (length xs)"] nw k' assms(2)
      by auto
    moreover have "0 \<le> (q_nextread q + int k) mod q_size q" using r by simp
    ultimately have "nat ((q_nextread q + int k) mod q_size q) \<noteq> nat (q_nextwrite q)"
      using w by (simp add: nat_eq_iff)
    with k' assms(1) show ?thesis by (auto simp: q_rep_def list_all_iff nth_append)
  qed
  have "q_nextwrite ?q = (q_nextread q + int (length (xs @ [x]))) mod q_size q"
    using nw by (simp add: mod_simps algebra_simps)
  with slot assms r have "q_rep ?q (xs @ [x])"
    unfolding q_rep_def by (simp add: list_all_iff)
  with op show ?thesis by auto
qed

lemma q_addtail_room:
  assumes "q_rep q xs" "int (length xs) + 1 < q_size q"
  shows "\<exists>q'. q_addtail_d (Suc d) kmalloc_ok q x = Some (Inr (), q') \<and>
    q_rep q' (xs @ [x]) \<and> q_size q' = q_size q"
proof -
  have "(q_nextwrite q + 1) mod q_size q \<noteq> q_nextread q"
    using q_full_iff [OF assms(1)] assms(2) by simp
  moreover have "0 < q_size q" using assms(1) by (simp add: q_rep_def)
  ultimately show ?thesis
    using q_store_rep [OF assms, of x] by (simp add: q_addtail_d.simps Let_def ksimps)
qed

text \<open>The refill loop of \<^verbatim>\<open>q_grow\<close> appends the remaining elements in order.\<close>

lemma q_refill_rep:
  assumes old: "q_rep old xs"
  shows "q_rep q ys \<Longrightarrow> k \<le> length xs \<Longrightarrow> int (length ys + (length xs - k)) < q_size q \<Longrightarrow>
      length xs - k \<le> fuel \<Longrightarrow>
      \<exists>q'. q_refill_d (Suc d) kmalloc_ok fuel (q_data old) (q_size old)
             ((q_nextread old + int k) mod q_size old) (q_nextwrite old) q = Some q' \<and>
           q_rep q' (ys @ drop k xs) \<and> q_size q' = q_size q"
proof (induction "length xs - k" arbitrary: k q ys fuel)
  case 0
  then have "k = length xs" by simp
  moreover have "(q_nextread old + int (length xs)) mod q_size old = q_nextwrite old"
    using old by (simp add: q_rep_def)
  ultimately show ?case using 0 by (simp add: q_refill_d.simps)
next
  case (Suc n)
  then have k: "k < length xs" by simp
  obtain f where f: "fuel = Suc f" using Suc by (cases fuel) auto
  have r: "0 < q_size old" "length (q_data old) = nat (q_size old)" "int (length xs) < q_size old"
    and nw: "q_nextwrite old = (q_nextread old + int (length xs)) mod q_size old"
    and el: "q_data old ! nat ((q_nextread old + int k) mod q_size old) = Some (xs ! k)"
    using old k by (auto simp: q_rep_def list_all_iff)
  have ne: "(q_nextread old + int k) mod q_size old \<noteq> q_nextwrite old"
    using ring_index_inj [of "q_nextread old" "int k" "q_size old" "int (length xs)"] nw k r by auto
  have get: "slot_get (q_data old) ((q_nextread old + int k) mod q_size old) = Some (Some (xs ! k))"
    using r el by (simp add: slot_get_def)
  have "int (length ys) + 1 < q_size q" using Suc k by simp
  from q_addtail_room [OF Suc(3) this, of d kmalloc_ok "xs ! k"]
  obtain q1 where q1: "q_addtail_d (Suc d) kmalloc_ok q (xs ! k) = Some (Inr (), q1)"
    "q_rep q1 (ys @ [xs ! k])" "q_size q1 = q_size q" by blast
  have nx: "((q_nextread old + int k) mod q_size old + 1) mod q_size old
      = (q_nextread old + int (Suc k)) mod q_size old"
    by (simp add: mod_simps algebra_simps)
  have "n = length xs - Suc k" "Suc k \<le> length xs" "length xs - Suc k \<le> f"
    "int (length (ys @ [xs ! k]) + (length xs - Suc k)) < q_size q1"
    using Suc k f q1(3) by auto
  from Suc(1) [OF this(1) q1(2) this(2,4,3)] q1(3)
  obtain q' where q': "q_refill_d (Suc d) kmalloc_ok f (q_data old) (q_size old)
             ((q_nextread old + int (Suc k)) mod q_size old) (q_nextwrite old) q1 = Some q'"
    "q_rep q' ((ys @ [xs ! k]) @ drop (Suc k) xs)" "q_size q' = q_size q"
    by auto
  have "q_refill_d (Suc d) kmalloc_ok fuel (q_data old) (q_size old)
             ((q_nextread old + int k) mod q_size old) (q_nextwrite old) q = Some q'"
    using ne q1(1) q'(1) nx f by (subst q_refill_d.simps) (simp add: get)
  with q' k show ?case by (auto simp: Cons_nth_drop_Suc)
qed

lemma q_newsize_bound:
  assumes "0 < n" "n < 2 ^ 30" "targetsize \<le> 2 ^ 29"
  shows "\<exists>m. q_newsize targetsize n = Some m \<and> targetsize \<le> m \<and> n \<le> m \<and> m < 2 ^ 30"
  using assms
proof (induction targetsize n rule: q_newsize.induct)
  case (1 targetsize n)
  show ?case
  proof (cases "n < targetsize")
    case True
    then have n: "cint (n * 2) = Some (n * 2)" "0 < n * 2" "n * 2 < 2 ^ 30"
      using 1(2,4) by (auto simp: cint_def)
    with 1(1) [OF True n(1,2)] 1(4) obtain m where m: "q_newsize targetsize (n * 2) = Some m"
      "targetsize \<le> m" "n * 2 \<le> m" "m < 2 ^ 30" by blast
    have "q_newsize targetsize n = Some m"
      using True 1(2) n(1) m(1) by (subst q_newsize.simps) simp
    with m 1(2) show ?thesis by auto
  next
    case False
    then have "q_newsize targetsize n = Some n" by (subst q_newsize.simps) simp
    with False 1(3) show ?thesis by simp
  qed
qed

lemma q_rep_fresh:
  "0 < n \<Longrightarrow> n < 2 ^ 27 \<Longrightarrow>
   q_rep \<lparr> q_size = n, q_nextwrite = 0, q_nextread = 0, q_data = replicate (nat n) None \<rparr> []"
  by (simp add: q_rep_def)

lemma q_grow_rep:
  assumes "q_rep q xs" "targetsize \<le> 2 ^ 29"
  shows "q_grow_d (Suc d) kmalloc_ok q targetsize = Some (Inl ENOMEM, q) \<and>
           (\<exists>b. \<not> kgrant kmalloc_ok b) \<or>
    (\<exists>q'. q_grow_d (Suc d) kmalloc_ok q targetsize = Some (Inr (), q') \<and> q_rep q' xs \<and>
       targetsize \<le> q_size q' \<and> q_size q \<le> q_size q')"
proof -
  have r: "0 < q_size q" "q_size q < 2 ^ 27" "int (length xs) < q_size q"
      "0 \<le> q_nextread q" "q_nextread q < q_size q"
    using assms(1) by (auto simp: q_rep_def)
  obtain m where m: "q_newsize targetsize (q_size q) = Some m" "targetsize \<le> m" "q_size q \<le> m"
    "m < 2 ^ 30" using q_newsize_bound [OF r(1) _ assms(2)] r(2) by auto
  have b: "unat (word_of_int (m * 4) :: u32) div 4 = nat m"
    using r m by (intro slot_bytes) auto
  show ?thesis
  proof (cases "kgrant kmalloc_ok (word_of_int (m * 4))")
    case False
    then show ?thesis using m by (auto simp: q_grow_d.simps Let_def)
  next
    case True
    define q0 where "q0 = q\<lparr> q_size := m, q_data := replicate (nat m) None,
                 q_nextwrite := 0, q_nextread := 0 \<rparr>"
    have "m < 2 ^ 27" using kgrant_slots [OF True] r m by simp
    then have "q_rep q0 []" using r m by (simp add: q0_def q_rep_def)
    moreover have "length xs \<le> nat (q_size q)" using r by linarith
    ultimately obtain q' where q': "q_refill_d (Suc d) kmalloc_ok (nat (q_size q)) (q_data q) (q_size q)
        (q_nextread q) (q_nextwrite q) q0 = Some q'" "q_rep q' xs" "q_size q' = q_size q0"
      using q_refill_rep [OF assms(1), of q0 "[]" 0 "nat (q_size q)" d kmalloc_ok] r m
      by (auto simp: q0_def)
    have "q_grow_d (Suc d) kmalloc_ok q targetsize = Some (Inr (), q')"
      using True m q'(1) b by (simp add: q_grow_d.simps Let_def q0_def)
    with q' m show ?thesis by (auto simp: q0_def)
  qed
qed

text \<open>Every outcome of \<^verbatim>\<open>q_addtail\<close>; the same at every depth from 2 on.\<close>

lemma q_addtail_rep:
  assumes "q_rep q xs"
  shows "(int (length xs) + 1 = q_size q \<and> (\<exists>b. \<not> kgrant kmalloc_ok b) \<and>
            q_addtail_d (Suc (Suc d)) kmalloc_ok q x = Some (Inl ENOMEM, q)) \<or>
    (\<exists>q'. q_addtail_d (Suc (Suc d)) kmalloc_ok q x = Some (Inr (), q') \<and> q_rep q' (xs @ [x]) \<and>
       q_size q \<le> q_size q' \<and> (int (length xs) + 1 < q_size q \<longrightarrow> q_size q' = q_size q))"
proof (cases "int (length xs) + 1 < q_size q")
  case True
  with q_addtail_room [OF assms(1) this, of "Suc d" kmalloc_ok x] show ?thesis by auto
next
  case False
  then have full: "int (length xs) + 1 = q_size q" using assms(1) by (simp add: q_rep_def)
  have s: "0 < q_size q" "q_size q + 1 \<le> 2 ^ 29" "cint (q_size q + 1) = Some (q_size q + 1)"
    using assms by (auto simp: q_rep_def cint_def)
  have step: "q_addtail_d (Suc (Suc d)) kmalloc_ok q x = do {
       (result, q') \<leftarrow> q_grow_d (Suc d) kmalloc_ok q (q_size q + 1);
       case result of
         Inl e \<Rightarrow> Some (Inl e, q')
       | Inr _ \<Rightarrow> q_store q' x ((q_nextwrite q' + 1) mod q_size q') }"
    using s q_full_iff [OF assms(1)] full by (simp add: q_addtail_d.simps Let_def)
  from q_grow_rep [OF assms(1) s(2), of d kmalloc_ok] show ?thesis
  proof
    assume "q_grow_d (Suc d) kmalloc_ok q (q_size q + 1) = Some (Inl ENOMEM, q) \<and>
      (\<exists>b. \<not> kgrant kmalloc_ok b)"
    then show ?thesis using full step by simp
  next
    assume "\<exists>q'. q_grow_d (Suc d) kmalloc_ok q (q_size q + 1) = Some (Inr (), q') \<and> q_rep q' xs \<and>
       q_size q + 1 \<le> q_size q' \<and> q_size q \<le> q_size q'"
    then obtain q1 where q1: "q_grow_d (Suc d) kmalloc_ok q (q_size q + 1) = Some (Inr (), q1)"
      "q_rep q1 xs" "q_size q + 1 \<le> q_size q1" by blast
    then have "int (length xs) + 1 < q_size q1" using full by simp
    from q_store_rep [OF q1(2) this, of x] step q1 full show ?thesis by auto
  qed
qed

lemma q_remhead_rep:
  assumes "q_rep q (x # xs)"
  shows "\<exists>q'. q_remhead q = Some (x, q') \<and> q_rep q' xs \<and> q_size q' = q_size q"
proof -
  let ?q = "q\<lparr> q_nextread := (q_nextread q + 1) mod q_size q \<rparr>"
  have r: "0 < q_size q" "length (q_data q) = nat (q_size q)" "0 \<le> q_nextread q"
    "q_nextread q < q_size q" and nw: "q_nextwrite q = (q_nextread q + int (Suc (length xs))) mod q_size q"
    and el: "\<And>k. k < Suc (length xs) \<Longrightarrow>
      q_data q ! nat ((q_nextread q + int k) mod q_size q) = Some ((x # xs) ! k)"
    using assms by (auto simp: q_rep_def list_all_iff less_Suc_eq)
  have op: "q_remhead q = Some (x, ?q)"
    using q_empty_iff [OF assms] r el [of 0] by (simp add: q_remhead_def slot_get_def)
  have "q_data q ! nat (((q_nextread q + 1) mod q_size q + int k) mod q_size q) = Some (xs ! k)"
    if "k < length xs" for k
    using el [of "Suc k"] that by (simp add: mod_simps algebra_simps)
  moreover have "q_nextwrite q = ((q_nextread q + 1) mod q_size q + int (length xs)) mod q_size q"
    using nw by (simp add: mod_simps algebra_simps)
  ultimately have "q_rep ?q xs"
    using assms r unfolding q_rep_def by (simp add: list_all_iff)
  with op show ?thesis by auto
qed

section \<open>The interface the scheduler relies on\<close>

text \<open>
  \<open>room\<close> is the number of elements that fit without asking the allocator. The
  client lemmas describe the round-robin use the scheduler makes of a queue.
\<close>

locale fifo =
  fixes isempty :: "'q \<Rightarrow> bool"
    and enq :: "'q \<Rightarrow> 'a \<Rightarrow> ((errno + unit) \<times> 'q) option"
    and deq :: "'q \<Rightarrow> ('a \<times> 'q) option"
    and invar :: "'q \<Rightarrow> bool"
    and contents :: "'q \<Rightarrow> 'a list"
    and room :: "'q \<Rightarrow> int"
  assumes isempty_contents: "invar q \<Longrightarrow> isempty q \<longleftrightarrow> contents q = []"
    and enq_contents: "invar q \<Longrightarrow> int (length (contents q)) < room q \<Longrightarrow>
      \<exists>r. enq q x = Some (Inr (), r) \<and> invar r \<and> contents r = contents q @ [x] \<and> room r = room q"
    and deq_contents: "invar q \<Longrightarrow> contents q = x # xs \<Longrightarrow>
      \<exists>r. deq q = Some (x, r) \<and> invar r \<and> contents r = xs \<and> room r = room q"
begin

lemma enq_room:
  assumes "invar q" "int (length (contents q)) < room q"
  obtains r where "enq q x = Some (Inr (), r)" "invar r" "contents r = contents q @ [x]"
    "room r = room q"
  using enq_contents [OF assms, of x] by blast

lemma deq_nonempty:
  assumes "invar q" "\<not> isempty q"
  obtains r where "deq q = Some (hd (contents q), r)" "invar r" "contents r = tl (contents q)"
    "room r = room q"
  using assms deq_contents [OF assms(1), of "hd (contents q)" "tl (contents q)"]
  by (auto simp: isempty_contents)

text \<open>
  One turn of the processor: the running element goes to the tail and the head is taken.
  The pair (running, queue) rotates as the list \<open>running # queue\<close>.
\<close>

lemma turn:
  assumes "invar q" "int (length (contents q)) < room q"
  obtains r s y where "enq q x = Some (Inr (), r)" "deq r = Some (y, s)" "invar s"
    "y # contents s = rotate1 (x # contents q)" "room s = room q"
proof -
  obtain r where r: "enq q x = Some (Inr (), r)" "invar r" "contents r = contents q @ [x]"
    "room r = room q" by (rule enq_room [OF assms])
  then have "\<not> isempty r" by (simp add: isempty_contents)
  then obtain s where s: "deq r = Some (hd (contents r), s)" "invar s" "contents s = tl (contents r)"
    "room s = room r" using deq_nonempty [OF r(2)] by blast
  show thesis
    by (rule that [OF r(1) s(1,2)]) (use r s in auto)
qed

end

interpretation kq: fifo q_empty "q_addtail kmalloc_ok" q_remhead
    q_invar q_list "\<lambda>q. q_size q - 1"
  for kmalloc_ok :: "u32 \<Rightarrow> bool"
proof unfold_locales
  fix q :: "'a kqueue" and x :: 'a and xs
  assume inv: "q_invar q"
  then have rep: "q_rep q (q_list q)" by (simp add: q_invar_def)
  show "q_empty q \<longleftrightarrow> q_list q = []" by (rule q_empty_iff [OF rep])
  show "\<exists>r. q_addtail kmalloc_ok q x = Some (Inr (), r) \<and> q_invar r \<and>
      q_list r = q_list q @ [x] \<and> q_size r - 1 = q_size q - 1"
    if "int (length (q_list q)) < q_size q - 1"
    using q_addtail_room [OF rep, of 1 kmalloc_ok x] that inv
    by (auto simp: q_addtail_def q_rep_invar numeral_2_eq_2)
  show "\<exists>r. q_remhead q = Some (x, r) \<and> q_invar r \<and>
      q_list r = xs \<and> q_size r - 1 = q_size q - 1"
    if "q_list q = x # xs"
    using q_remhead_rep [of q x xs] rep that inv by (auto simp: q_rep_invar)
qed

section \<open>Properties\<close>

text \<open>
  C10. \<^verbatim>\<open>q_addtail\<close> on any well-formed queue, including one that is full or wrapped around:
  it never fails an assertion, never recurses beyond the refill, and either appends the
  element or, only when the queue is full and the allocator has nothing, reports
  ENOMEM and leaves the queue as it was. \<^verbatim>\<open>q_remhead\<close> then takes elements from the front.
\<close>

theorem q_addtail_fifo:
  assumes "q_invar q"
  shows "case q_addtail kmalloc_ok q x of
      None \<Rightarrow> False
    | Some (Inl e, q') \<Rightarrow>
        e = ENOMEM \<and> q' = q \<and> int (length (q_list q)) + 1 = q_size q \<and> (\<exists>b. \<not> kgrant kmalloc_ok b)
    | Some (Inr _, q') \<Rightarrow>
        q_invar q' \<and> q_list q' = q_list q @ [x] \<and>
        (\<exists>q''. q_remhead q' = Some (hd (q_list q @ [x]), q'') \<and>
               q_invar q'' \<and> q_list q'' = tl (q_list q @ [x]))"
proof -
  have rep: "q_rep q (q_list q)" using assms by (simp add: q_invar_def)
  have deq: "\<exists>q''. q_remhead q' = Some (hd ys, q'') \<and> q_invar q'' \<and> q_list q'' = tl ys"
    if "q_rep q' ys" "ys \<noteq> []" for q' :: "'a kqueue" and ys
    using that q_remhead_rep [of q' "hd ys" "tl ys"] by (auto simp: q_rep_invar)
  show ?thesis
    using q_addtail_rep [OF rep, of kmalloc_ok 0 x] deq
    by (fastforce simp: q_addtail_def q_rep_invar numeral_2_eq_2)
qed

theorem q_addtail_fifo_witness:
  "let q = \<lparr> q_size = 3, q_nextwrite = 1, q_nextread = 2, q_data = [Some (8 :: nat), None, Some 7] \<rparr> in
   q_invar q \<and> q_list q = [7, 8] \<and>
   (\<exists>q' q''. q_addtail (\<lambda>_. True) q 9 = Some (Inr (), q') \<and> q_list q' = [7, 8, 9] \<and>
      q_remhead q' = Some (7, q'') \<and> q_list q'' = [8, 9])"
proof -
  let ?q = "\<lparr> q_size = 3, q_nextwrite = 1, q_nextread = 2, q_data = [Some (8 :: nat), None, Some 7] \<rparr>"
  have inv: "q_invar ?q" and list: "q_list ?q = [7, 8]" by code_simp+
  have "map_option fst (q_addtail (\<lambda>_. True) ?q 9) = Some (Inr ())" by code_simp
  then obtain q' where add: "q_addtail (\<lambda>_. True) ?q 9 = Some (Inr (), q')" by auto
  from q_addtail_fifo [OF inv, of "\<lambda>_. True" 9] inv list show ?thesis
    unfolding add Let_def by auto
qed

end
