(* ===== verification/Kern_Thread.thy ===== *)
theory Kern_Thread
  imports Kern_Array Kern_Queue
begin

text \<open>
  The thread system: interrupt priority level (\<^verbatim>\<open>arch/mips/mips/spl.c\<close>), context switch
  (\<^verbatim>\<open>arch/mips/mips/pcb.c\<close>), scheduler (\<^verbatim>\<open>thread/scheduler.c\<close>) and threads
  (\<^verbatim>\<open>thread/thread.c\<close>), with the creation and destruction of locks and condition variables
  (\<^verbatim>\<open>thread/synch.c\<close>) that a thread structure contains.

  One record holds the globals of these files. A thread that gives up the processor
  inside \<^verbatim>\<open>mi_switch\<close> keeps a stack of \<open>frame\<close>s: what remains to be executed of the
  kernel functions it is in, innermost first. An operation that ran to its end is
  \<open>Done\<close>; one that switched away is \<open>Blocked fs\<close> with the frames it left behind.

  \<open>mem n\<close> says whether the \<open>n\<close>th \<^verbatim>\<open>kmalloc\<close> of the operation succeeds, \<open>kmalloc_ok\<close> whether
  a request of that size does. New objects get numbers never used before, which is
  what \<^verbatim>\<open>kmalloc\<close> guarantees as long as nothing is freed while still in use.
\<close>

section \<open>State\<close>

type_synonym tid = nat

text \<open>What a thread can sleep on: the address of a semaphore, lock, condition variable, or \<^verbatim>\<open>lbolt\<close>.\<close>

datatype wchan = Sem nat | Lock nat | Cv nat | Lbolt

datatype threadstate = S_RUN | S_READY | S_SLEEP | S_ZOMB

datatype frame =
    FSwitch                     \<comment> \<open>after \<^verbatim>\<open>md_switch\<close> in \<^verbatim>\<open>mi_switch\<close>\<close>
  | FStart                      \<comment> \<open>\<^verbatim>\<open>mi_threadstart\<close>\<close>
  | FSleep                      \<comment> \<open>after \<^verbatim>\<open>mi_switch\<close> in \<^verbatim>\<open>thread_sleep\<close>\<close>
  | FYield int                  \<comment> \<open>after \<^verbatim>\<open>mi_switch\<close> in \<^verbatim>\<open>thread_yield\<close>, with the saved spl\<close>
  | FP nat int                  \<comment> \<open>the loop of \<^verbatim>\<open>P\<close>\<close>
  | FAcquire nat int            \<comment> \<open>the loop of \<^verbatim>\<open>lock_acquire\<close>\<close>
  | FWait nat int               \<comment> \<open>after \<^verbatim>\<open>thread_sleep\<close> in \<^verbatim>\<open>cv_wait\<close>\<close>
  | FSplx int                   \<comment> \<open>the final \<^verbatim>\<open>splx\<close> of \<^verbatim>\<open>cv_wait\<close>\<close>
  | FClock int int              \<comment> \<open>after \<^verbatim>\<open>thread_sleep\<close> in \<^verbatim>\<open>clocksleep\<close>\<close>
  | FIntr int int               \<comment> \<open>after the handler in \<^verbatim>\<open>mips_interrupt\<close> and \<^verbatim>\<open>mips_trap\<close>\<close>
  | FDead                       \<comment> \<open>the panic after \<^verbatim>\<open>mi_switch\<close> in \<^verbatim>\<open>thread_exit\<close>\<close>

datatype flow = Done | Blocked "frame list"

record thread =
  th_name :: string
  th_sleepaddr :: "wchan option"
  th_stack :: "u8 list option"
  th_lk :: "nat option"
  th_waitonexit :: "nat option"
  th_waittoexit :: "nat option"
  th_parent :: "tid option"
  th_child :: "tid option list"
  th_exitcode :: int
  th_status :: int
  th_pid :: int
  th_vmspace :: "nat option"
  th_cwd :: "nat option"
  th_ininterrupt :: int
  th_kont :: "frame list"

record ksys =
  ks_curthread :: "tid option"
  ks_switching :: "tid option"      \<comment> \<open>the local \<^verbatim>\<open>cur\<close> of \<^verbatim>\<open>mi_switch\<close> while the scheduler runs\<close>
  ks_threads :: "tid \<rightharpoonup> thread"
  ks_sleepers :: "tid karray option"
  ks_zombies :: "tid karray option"
  ks_runqueue :: "tid kqueue option"
  ks_numthreads :: int
  ks_pid_assign :: int
  ks_curspl :: int
  ks_in_interrupt :: int
  ks_sems :: "nat \<rightharpoonup> int"          \<comment> \<open>\<^verbatim>\<open>count\<close> of each semaphore\<close>
  ks_locks :: "nat \<rightharpoonup> tid option"   \<comment> \<open>\<^verbatim>\<open>own\<close> of each lock\<close>
  ks_cvs :: "nat set"
  ks_lbolt_counter :: int
  ks_fresh :: nat
  ks_vrefs :: "nat \<Rightarrow> int"           \<comment> \<open>references taken on each vnode as a current directory\<close>
  ks_as_active :: "nat option"       \<comment> \<open>argument of the last \<^verbatim>\<open>as_activate\<close>\<close>
  ks_as_destroyed :: "nat list"      \<comment> \<open>arguments of \<^verbatim>\<open>as_destroy\<close> so far\<close>

section \<open>Interrupt priority level\<close>

text \<open>The interrupt enable bit of the status register follows \<^verbatim>\<open>curspl\<close> and is not kept apart.\<close>

definition splx :: "int \<Rightarrow> ksys \<Rightarrow> int \<times> ksys" where
  "splx newspl s = (ks_curspl s, s\<lparr> ks_curspl := newspl \<rparr>)"

definition splhigh :: "ksys \<Rightarrow> int \<times> ksys" where
  "splhigh s = splx SPL_HIGH s"

definition spl0 :: "ksys \<Rightarrow> int \<times> ksys" where
  "spl0 s = splx 0 s"

section \<open>Scheduler\<close>

definition scheduler_bootstrap :: "(u32 \<Rightarrow> bool) \<Rightarrow> ksys \<Rightarrow> ksys option" where
  "scheduler_bootstrap kmalloc_ok s = do {
     q \<leftarrow> q_create kmalloc_ok 32;
     Some (s\<lparr> ks_runqueue := Some q \<rparr>)
   }"

definition scheduler_preallocate ::
  "(u32 \<Rightarrow> bool) \<Rightarrow> int \<Rightarrow> ksys \<Rightarrow> ((errno + unit) \<times> ksys) option" where
  "scheduler_preallocate kmalloc_ok nthreads s = do {
     kassert (0 < ks_curspl s);
     q \<leftarrow> ks_runqueue s;
     (result, q') \<leftarrow> q_preallocate kmalloc_ok q nthreads;
     Some (result, s\<lparr> ks_runqueue := Some q' \<rparr>)
   }"

definition make_runnable ::
  "(u32 \<Rightarrow> bool) \<Rightarrow> tid \<Rightarrow> ksys \<Rightarrow> ((errno + unit) \<times> ksys) option" where
  "make_runnable kmalloc_ok t s = do {
     kassert (0 < ks_curspl s);
     q \<leftarrow> ks_runqueue s;
     (result, q') \<leftarrow> q_addtail kmalloc_ok q t;
     Some (result, s\<lparr> ks_runqueue := Some q' \<rparr>)
   }"

text \<open>
  \<^verbatim>\<open>scheduler\<close>: the next thread to run, or no thread yet, in which case the loop idles
  until an interrupt has made one runnable.
\<close>

definition scheduler :: "ksys \<Rightarrow> (tid option \<times> ksys) option" where
  "scheduler s = do {
     kassert (0 < ks_curspl s);
     q \<leftarrow> ks_runqueue s;
     if q_empty q then Some (None, s)
     else do {
       (t, q') \<leftarrow> q_remhead q;
       Some (Some t, s\<lparr> ks_runqueue := Some q' \<rparr>)
     }
   }"

text \<open>
  \<^verbatim>\<open>scheduler_killall\<close> takes threads off the queue until it is empty. The loop takes
  fewer steps than the queue has slots.
\<close>

fun drain_queue :: "nat \<Rightarrow> tid kqueue \<Rightarrow> tid kqueue option" where
  "drain_queue n q =
     (if q_empty q then Some q
      else case n of
        0 \<Rightarrow> None
      | Suc m \<Rightarrow> do { (t, q') \<leftarrow> q_remhead q; drain_queue m q' })"

definition scheduler_killall :: "ksys \<Rightarrow> ksys option" where
  "scheduler_killall s = do {
     kassert (0 < ks_curspl s);
     q \<leftarrow> ks_runqueue s;
     q' \<leftarrow> drain_queue (nat (q_size q)) q;
     Some (s\<lparr> ks_runqueue := Some q' \<rparr>)
   }"

definition scheduler_shutdown :: "ksys \<Rightarrow> ksys option" where
  "scheduler_shutdown s = do {
     s1 \<leftarrow> scheduler_killall s;
     kassert (0 < ks_curspl s1);
     q \<leftarrow> ks_runqueue s1;
     q_destroy q;
     Some (s1\<lparr> ks_runqueue := None \<rparr>)
   }"

section \<open>Creation and destruction of the objects inside a thread\<close>

text \<open>A lock or condition variable needs two allocations; without them the result is NULL.\<close>

definition lock_create :: "bool \<Rightarrow> bool \<Rightarrow> ksys \<Rightarrow> nat option \<times> ksys" where
  "lock_create ok_lock ok_name s =
     (if ok_lock \<and> ok_name
      then (Some (ks_fresh s),
            s\<lparr> ks_locks := (ks_locks s)(ks_fresh s \<mapsto> None), ks_fresh := ks_fresh s + 1 \<rparr>)
      else (None, s))"

definition lock_destroy :: "nat option \<Rightarrow> ksys \<Rightarrow> ksys option" where
  "lock_destroy lock s = do {
     l \<leftarrow> lock;
     kassert (ks_locks s l \<noteq> None);
     Some (s\<lparr> ks_locks := (ks_locks s)(l := None) \<rparr>)
   }"

definition cv_create :: "bool \<Rightarrow> bool \<Rightarrow> ksys \<Rightarrow> nat option \<times> ksys" where
  "cv_create ok_cv ok_name s =
     (if ok_cv \<and> ok_name
      then (Some (ks_fresh s),
            s\<lparr> ks_cvs := insert (ks_fresh s) (ks_cvs s), ks_fresh := ks_fresh s + 1 \<rparr>)
      else (None, s))"

definition cv_destroy :: "nat option \<Rightarrow> ksys \<Rightarrow> ksys option" where
  "cv_destroy cv s = do {
     c \<leftarrow> cv;
     kassert (c \<in> ks_cvs s);
     Some (s\<lparr> ks_cvs := ks_cvs s - {c} \<rparr>)
   }"

section \<open>Threads\<close>

definition upd_thread :: "tid \<Rightarrow> (thread \<Rightarrow> thread) \<Rightarrow> ksys \<Rightarrow> ksys" where
  "upd_thread t f s = s\<lparr> ks_threads := (ks_threads s)(t := map_option f (ks_threads s t)) \<rparr>"

text \<open>Allocations 0 and 1 are the structure and its name, 2 to 7 the lock and the two cvs.\<close>

definition thread_create :: "(nat \<Rightarrow> bool) \<Rightarrow> string \<Rightarrow> ksys \<Rightarrow> (tid option \<times> ksys) option" where
  "thread_create mem name s = (
     if \<not> mem 0 \<or> \<not> mem 1 then Some (None, s)
     else
       let t = ks_fresh s;
           (lk, s1) = lock_create (mem 2) (mem 3) (s\<lparr> ks_fresh := ks_fresh s + 1 \<rparr>);
           (onexit, s2) = cv_create (mem 4) (mem 5) s1;
           (toexit, s3) = cv_create (mem 6) (mem 7) s2;
           (interrupt, s4) = splhigh s3
       in do {
         p \<leftarrow> cint (ks_pid_assign s4 + 1);
         let th = \<lparr> th_name = name, th_sleepaddr = None, th_stack = None, th_lk = lk,
                    th_waitonexit = onexit, th_waittoexit = toexit,
                    th_parent = ks_curthread s, th_child = replicate 20 None,
                    th_exitcode = 100, th_status = 0, th_pid = ks_pid_assign s4,
                    th_vmspace = None, th_cwd = None, th_ininterrupt = 0, th_kont = [] \<rparr>;
         Some (Some t, snd (splx interrupt
           (s4\<lparr> ks_pid_assign := p, ks_threads := (ks_threads s4)(t \<mapsto> th) \<rparr>)))
       })"

definition thread_destroy :: "tid \<Rightarrow> ksys \<Rightarrow> ksys option" where
  "thread_destroy t s = do {
     kassert (Some t \<noteq> ks_curthread s);
     th \<leftarrow> ks_threads s t;
     kassert (th_vmspace th = None);
     kassert (th_cwd th = None);
     s1 \<leftarrow> cv_destroy (th_waitonexit th) s;
     s2 \<leftarrow> cv_destroy (th_waittoexit th) s1;
     s3 \<leftarrow> lock_destroy (th_lk th) s2;
     Some (s3\<lparr> ks_threads := (ks_threads s3)(t := None) \<rparr>)
   }"

text \<open>The loop of \<^verbatim>\<open>exorcise\<close>, from index \<open>i\<close> over the remaining zombies.\<close>

fun exorcise_from :: "nat \<Rightarrow> tid karray \<Rightarrow> int \<Rightarrow> ksys \<Rightarrow> ksys option" where
  "exorcise_from 0 zs i s = Some s"
| "exorcise_from (Suc n) zs i s = do {
     z \<leftarrow> array_getguy zs i;
     kassert (Some z \<noteq> ks_curthread s);
     s1 \<leftarrow> thread_destroy z s;
     exorcise_from n zs (i + 1) s1
   }"

definition exorcise :: "(u32 \<Rightarrow> bool) \<Rightarrow> ksys \<Rightarrow> ksys option" where
  "exorcise kmalloc_ok s = do {
     kassert (0 < ks_curspl s);
     zs \<leftarrow> ks_zombies s;
     s1 \<leftarrow> exorcise_from (nat (array_getnum zs)) zs 0 s;
     (result, zs') \<leftarrow> array_setsize kmalloc_ok zs 0;
     kassert (result = Inr ());
     Some (s1\<lparr> ks_zombies := Some zs' \<rparr>)
   }"

definition thread_killall :: "(u32 \<Rightarrow> bool) \<Rightarrow> ksys \<Rightarrow> ksys option" where
  "thread_killall kmalloc_ok s = do {
     kassert (0 < ks_curspl s);
     sl \<leftarrow> ks_sleepers s;
     (result, sl') \<leftarrow> array_setsize kmalloc_ok sl 0;
     kassert (result = Inr ());
     Some (s\<lparr> ks_sleepers := Some sl' \<rparr>)
   }"

definition thread_panic :: "(u32 \<Rightarrow> bool) \<Rightarrow> ksys \<Rightarrow> ksys option" where
  "thread_panic kmalloc_ok s = do {
     kassert (0 < ks_curspl s);
     s1 \<leftarrow> thread_killall kmalloc_ok s;
     scheduler_killall s1
   }"

text \<open>Allocations 8 and 9 are the two arrays; the structure and its parts come first in \<open>mem\<close>.\<close>

definition thread_bootstrap :: "(nat \<Rightarrow> bool) \<Rightarrow> ksys \<Rightarrow> (tid \<times> ksys) option" where
  "thread_bootstrap mem s = do {
     sl \<leftarrow> array_create (\<lambda>_. mem 8);
     zs \<leftarrow> array_create (\<lambda>_. mem 9);
     (me, s1) \<leftarrow> thread_create mem ''<boot/menu>''
        (s\<lparr> ks_sleepers := Some sl, ks_zombies := Some zs \<rparr>);
     t \<leftarrow> me;
     Some (t, s1\<lparr> ks_curthread := Some t, ks_numthreads := 1, ks_pid_assign := 0 \<rparr>)
   }"

definition thread_shutdown :: "ksys \<Rightarrow> ksys option" where
  "thread_shutdown s = do {
     sl \<leftarrow> ks_sleepers s;
     zs \<leftarrow> ks_zombies s;
     Some (s\<lparr> ks_sleepers := None, ks_zombies := None \<rparr>)
   }"

text \<open>The magic number at the bottom of a thread's stack.\<close>

definition stack_magic :: "u8 list" where
  "stack_magic = [0xae, 0x11, 0xda, 0x33]"

definition stack_check :: "tid \<Rightarrow> ksys \<Rightarrow> unit option" where
  "stack_check t s = do {
     th \<leftarrow> ks_threads s t;
     case th_stack th of
       None \<Rightarrow> Some ()
     | Some st \<Rightarrow> kassert (take 4 st = stack_magic)
   }"

text \<open>The first free entry of the table of children; a full table stays as it is.\<close>

fun add_child :: "tid \<Rightarrow> tid option list \<Rightarrow> tid option list" where
  "add_child t [] = []"
| "add_child t (None # cs) = Some t # cs"
| "add_child t (Some c # cs) = Some c # add_child t cs"

text \<open>The calls of \<^verbatim>\<open>thread_fork\<close> that make room, and the one that makes the thread runnable.\<close>

definition fork_prepare :: "(nat \<Rightarrow> bool) \<Rightarrow> tid \<Rightarrow> int \<Rightarrow> ksys \<Rightarrow> ((errno + unit) \<times> ksys) option" where
  "fork_prepare mem newguy n s = do {
     sl \<leftarrow> ks_sleepers s;
     (r1, sl') \<leftarrow> array_preallocate (\<lambda>_. mem 9) sl n;
     case r1 of Inl e \<Rightarrow> Some (Inl e, s\<lparr> ks_sleepers := Some sl' \<rparr>) | Inr _ \<Rightarrow> do {
     let s1 = s\<lparr> ks_sleepers := Some sl' \<rparr>;
     zs \<leftarrow> ks_zombies s1;
     (r2, zs') \<leftarrow> array_preallocate (\<lambda>_. mem 10) zs n;
     case r2 of Inl e \<Rightarrow> Some (Inl e, s1\<lparr> ks_zombies := Some zs' \<rparr>) | Inr _ \<Rightarrow> do {
     (r3, s2) \<leftarrow> scheduler_preallocate (\<lambda>_. mem 11) n (s1\<lparr> ks_zombies := Some zs' \<rparr>);
     case r3 of Inl e \<Rightarrow> Some (Inl e, s2) | Inr _ \<Rightarrow>
     make_runnable (\<lambda>_. mem 12) newguy s2 }}}"

definition vop_incref :: "nat option \<Rightarrow> ksys \<Rightarrow> ksys" where
  "vop_incref v s = (case v of None \<Rightarrow> s
     | Some n \<Rightarrow> s\<lparr> ks_vrefs := (ks_vrefs s)(n := ks_vrefs s n + 1) \<rparr>)"

definition vop_decref :: "nat option \<Rightarrow> ksys \<Rightarrow> ksys" where
  "vop_decref v s = (case v of None \<Rightarrow> s
     | Some n \<Rightarrow> s\<lparr> ks_vrefs := (ks_vrefs s)(n := ks_vrefs s n - 1) \<rparr>)"

definition thread_fork :: "(nat \<Rightarrow> bool) \<Rightarrow> string \<Rightarrow> ksys \<Rightarrow> ((errno + tid) \<times> ksys) option" where
  "thread_fork mem name s = do {
     (created, s1) \<leftarrow> thread_create mem name s;
     case created of None \<Rightarrow> Some (Inl ENOMEM, s1) | Some newguy \<Rightarrow>
     if \<not> mem 8
     then Some (Inl ENOMEM, s1\<lparr> ks_threads := (ks_threads s1)(newguy := None) \<rparr>)
     else do {
       cur \<leftarrow> ks_curthread s1;
       me \<leftarrow> ks_threads s1 cur;
       let cwd = th_cwd me;
       let s2 = upd_thread newguy (\<lambda>th. th\<lparr> th_stack := Some stack_magic, th_cwd := cwd,
                   th_ininterrupt := 0, th_kont := [FStart] \<rparr>) (vop_incref cwd s1);
       let (spl, s3) = splhigh s2;
       n \<leftarrow> cint (ks_numthreads s3 + 1);
       (result, s4) \<leftarrow> fork_prepare mem newguy n s3;
       case result of
         Inl e \<Rightarrow>
           (let s5 = vop_decref cwd (snd (splx spl s4))
            in Some (Inl e, s5\<lparr> ks_threads := (ks_threads s5)(newguy := None) \<rparr>))
       | Inr _ \<Rightarrow>
           (let s5 = upd_thread newguy (\<lambda>th. th\<lparr> th_parent := Some cur \<rparr>) (s4\<lparr> ks_numthreads := n \<rparr>);
                s6 = upd_thread cur (\<lambda>th. th\<lparr> th_child := add_child newguy (th_child th) \<rparr>) s5
            in Some (Inr newguy, snd (splx spl s6)))
     }
   }"

section \<open>Context switch\<close>

text \<open>
  \<^verbatim>\<open>md_switch\<close> saves and loads the interrupt-handler flag. The kernel stack pointer
  and the registers are the frames in this model.
\<close>

definition md_switch :: "tid \<Rightarrow> tid \<Rightarrow> ksys \<Rightarrow> ksys option" where
  "md_switch old nu s = (
     if old = nu then Some s
     else do {
       o' \<leftarrow> ks_threads s old;
       n' \<leftarrow> ks_threads s nu;
       Some (s\<lparr> ks_threads := (ks_threads s)(old \<mapsto> o'\<lparr> th_ininterrupt := ks_in_interrupt s \<rparr>),
                ks_in_interrupt := th_ininterrupt n' \<rparr>)
     })"

text \<open>\<^verbatim>\<open>mi_switch\<close> up to the call of the scheduler.\<close>

definition mi_switch :: "(u32 \<Rightarrow> bool) \<Rightarrow> threadstate \<Rightarrow> ksys \<Rightarrow> (flow \<times> ksys) option" where
  "mi_switch kmalloc_ok nextstate s = do {
     kassert (0 < ks_curspl s);
     case ks_curthread s of
       None \<Rightarrow> Some (Done, s)
     | Some cur \<Rightarrow> do {
         stack_check cur s;
         let s1 = s\<lparr> ks_curthread := None, ks_switching := Some cur \<rparr>;
         s2 \<leftarrow> (case nextstate of
             S_READY \<Rightarrow> do {
               (result, s2) \<leftarrow> make_runnable kmalloc_ok cur s1;
               kassert (result = Inr ());
               Some s2 }
           | S_SLEEP \<Rightarrow> do {
               sl \<leftarrow> ks_sleepers s1;
               (result, sl') \<leftarrow> array_add kmalloc_ok sl cur;
               kassert (result = Inr ());
               Some (s1\<lparr> ks_sleepers := Some sl' \<rparr>) }
           | S_ZOMB \<Rightarrow> do {
               zs \<leftarrow> ks_zombies s1;
               (result, zs') \<leftarrow> array_add kmalloc_ok zs cur;
               kassert (result = Inr ());
               Some (s1\<lparr> ks_zombies := Some zs' \<rparr>) }
           | S_RUN \<Rightarrow> None);
         Some (Blocked [FSwitch], s2)
       }
   }"

text \<open>
  One turn of the loop in \<^verbatim>\<open>scheduler\<close> and, once it has found a thread, the rest of
  \<^verbatim>\<open>mi_switch\<close> up to the point where that thread's own stack is in use. With nothing to
  run the state stays as it is.
\<close>

definition dispatch :: "ksys \<Rightarrow> ksys option" where
  "dispatch s = do {
     (found, s1) \<leftarrow> scheduler s;
     case found of
       None \<Rightarrow> Some s1
     | Some next \<Rightarrow> do {
         cur \<leftarrow> ks_switching s1;
         md_switch cur next (s1\<lparr> ks_curthread := Some next, ks_switching := None \<rparr>)
       }
   }"

definition as_activate_cur :: "ksys \<Rightarrow> ksys option" where
  "as_activate_cur s = do {
     cur \<leftarrow> ks_curthread s;
     th \<leftarrow> ks_threads s cur;
     case th_vmspace th of
       None \<Rightarrow> Some s
     | Some as \<Rightarrow> Some (s\<lparr> ks_as_active := Some as \<rparr>)
   }"

text \<open>The end of \<^verbatim>\<open>mi_switch\<close>, in the thread switched to.\<close>

definition mi_switch_end :: "(u32 \<Rightarrow> bool) \<Rightarrow> ksys \<Rightarrow> ksys option" where
  "mi_switch_end kmalloc_ok s = do {
     s1 \<leftarrow> exorcise kmalloc_ok s;
     as_activate_cur s1
   }"

definition mi_threadstart :: "ksys \<Rightarrow> ksys option" where
  "mi_threadstart s = do {
     s1 \<leftarrow> as_activate_cur s;
     Some (snd (spl0 s1))
   }"

definition thread_exit :: "(u32 \<Rightarrow> bool) \<Rightarrow> ksys \<Rightarrow> (flow \<times> ksys) option" where
  "thread_exit kmalloc_ok s = do {
     cur \<leftarrow> ks_curthread s;
     stack_check cur s;
     let s1 = snd (splhigh s);
     th \<leftarrow> ks_threads s1 cur;
     let s2 = (case th_vmspace th of
         None \<Rightarrow> s1
       | Some as \<Rightarrow> (upd_thread cur (\<lambda>th. th\<lparr> th_vmspace := None \<rparr>) s1)
                      \<lparr> ks_as_destroyed := as # ks_as_destroyed s1 \<rparr>);
     let s3 = upd_thread cur (\<lambda>th. th\<lparr> th_cwd := None \<rparr>) (vop_decref (th_cwd th) s2);
     kassert (0 < ks_numthreads s3);
     (flow, s4) \<leftarrow> mi_switch kmalloc_ok S_ZOMB (s3\<lparr> ks_numthreads := ks_numthreads s3 - 1 \<rparr>);
     case flow of
       Done \<Rightarrow> None
     | Blocked fs \<Rightarrow> Some (Blocked (fs @ [FDead]), s4)
   }"

definition thread_yield :: "(u32 \<Rightarrow> bool) \<Rightarrow> ksys \<Rightarrow> (flow \<times> ksys) option" where
  "thread_yield kmalloc_ok s = (
     let (spl, s1) = splhigh s in do {
       kassert (ks_sleepers s1 \<noteq> None);
       (flow, s2) \<leftarrow> mi_switch kmalloc_ok S_READY s1;
       case flow of
         Done \<Rightarrow> Some (Done, snd (splx spl s2))
       | Blocked fs \<Rightarrow> Some (Blocked (fs @ [FYield spl]), s2)
     })"

definition thread_sleep_end :: "ksys \<Rightarrow> ksys option" where
  "thread_sleep_end s = do {
     cur \<leftarrow> ks_curthread s;
     kassert (ks_threads s cur \<noteq> None);
     Some (upd_thread cur (\<lambda>th. th\<lparr> th_sleepaddr := None \<rparr>) s)
   }"

definition thread_sleep :: "(u32 \<Rightarrow> bool) \<Rightarrow> wchan \<Rightarrow> ksys \<Rightarrow> (flow \<times> ksys) option" where
  "thread_sleep kmalloc_ok addr s = do {
     kassert (ks_in_interrupt s = 0);
     cur \<leftarrow> ks_curthread s;
     kassert (ks_threads s cur \<noteq> None);
     (flow, s1) \<leftarrow> mi_switch kmalloc_ok S_SLEEP
        (upd_thread cur (\<lambda>th. th\<lparr> th_sleepaddr := Some addr \<rparr>) s);
     case flow of
       Done \<Rightarrow> do { s2 \<leftarrow> thread_sleep_end s1; Some (Done, s2) }
     | Blocked fs \<Rightarrow> Some (Blocked (fs @ [FSleep]), s1)
   }"

section \<open>Waking\<close>

lemma array_remove_num: "array_remove a i = Some a' \<Longrightarrow> array_getnum a' = array_getnum a - 1"
  by (auto simp: array_remove_def array_getnum_def Let_def ksimps split: if_splits)

lemma make_runnable_only_queue:
  assumes "make_runnable kmalloc_ok t s = Some (r, s')"
  obtains q where "s' = s\<lparr> ks_runqueue := Some q \<rparr>"
  using assms by (auto simp: make_runnable_def ksimps Option.bind_eq_Some_conv split: if_splits)

text \<open>The loop of \<^verbatim>\<open>thread_wakeup\<close>; after a removal the same index is looked at again.\<close>

function wakeup_from :: "(u32 \<Rightarrow> bool) \<Rightarrow> wchan \<Rightarrow> int \<Rightarrow> ksys \<Rightarrow> ksys option" where
  "wakeup_from kmalloc_ok addr i s = do {
     sl \<leftarrow> ks_sleepers s;
     if i < array_getnum sl
     then do {
       t \<leftarrow> array_getguy sl i;
       th \<leftarrow> ks_threads s t;
       if th_sleepaddr th = Some addr
       then do {
         sl' \<leftarrow> array_remove sl i;
         (result, s') \<leftarrow> make_runnable kmalloc_ok t (s\<lparr> ks_sleepers := Some sl' \<rparr>);
         kassert (result = Inr ());
         wakeup_from kmalloc_ok addr i s'
       }
       else wakeup_from kmalloc_ok addr (i + 1) s
     }
     else Some s
   }"
  by pat_completeness auto
termination
proof (relation "measure (\<lambda>(kmalloc_ok, addr, i, s).
    nat ((case ks_sleepers s of None \<Rightarrow> 0 | Some sl \<Rightarrow> array_getnum sl) - i))", goal_cases)
  case (2 kmalloc_ok addr i s sl t th sl' r result s')
  then show ?case
    by (auto dest!: array_remove_num elim!: make_runnable_only_queue)
qed auto

definition thread_wakeup :: "(u32 \<Rightarrow> bool) \<Rightarrow> wchan \<Rightarrow> ksys \<Rightarrow> ksys option" where
  "thread_wakeup kmalloc_ok addr s = do {
     kassert (0 < ks_curspl s);
     wakeup_from kmalloc_ok addr 0 s
   }"

function wakeone_from :: "(u32 \<Rightarrow> bool) \<Rightarrow> wchan \<Rightarrow> int \<Rightarrow> ksys \<Rightarrow> ksys option" where
  "wakeone_from kmalloc_ok addr i s = do {
     sl \<leftarrow> ks_sleepers s;
     if i < array_getnum sl
     then do {
       t \<leftarrow> array_getguy sl i;
       th \<leftarrow> ks_threads s t;
       if th_sleepaddr th = Some addr
       then do {
         sl' \<leftarrow> array_remove sl i;
         (result, s') \<leftarrow> make_runnable kmalloc_ok t (s\<lparr> ks_sleepers := Some sl' \<rparr>);
         kassert (result = Inr ());
         Some s'
       }
       else wakeone_from kmalloc_ok addr (i + 1) s
     }
     else Some s
   }"
  by pat_completeness auto
termination
  by (relation "measure (\<lambda>(kmalloc_ok, addr, i, s).
    nat ((case ks_sleepers s of None \<Rightarrow> 0 | Some sl \<Rightarrow> array_getnum sl) - i))") auto

definition thread_wakeone :: "(u32 \<Rightarrow> bool) \<Rightarrow> wchan \<Rightarrow> ksys \<Rightarrow> ksys option" where
  "thread_wakeone kmalloc_ok addr s = do {
     kassert (0 < ks_curspl s);
     wakeone_from kmalloc_ok addr 0 s
   }"

function hassleepers_from :: "wchan \<Rightarrow> int \<Rightarrow> tid karray \<Rightarrow> ksys \<Rightarrow> bool option" where
  "hassleepers_from addr i sl s =
     (if i < array_getnum sl
      then do {
        t \<leftarrow> array_getguy sl i;
        th \<leftarrow> ks_threads s t;
        if th_sleepaddr th = Some addr then Some True
        else hassleepers_from addr (i + 1) sl s
      }
      else Some False)"
  by pat_completeness auto
termination
  by (relation "measure (\<lambda>(addr, i, sl, s). nat (array_getnum sl - i))") auto

definition thread_hassleepers :: "wchan \<Rightarrow> ksys \<Rightarrow> bool option" where
  "thread_hassleepers addr s = do {
     kassert (0 < ks_curspl s);
     sl \<leftarrow> ks_sleepers s;
     hassleepers_from addr 0 sl s
   }"

end
