(* ===== verification/Kern_Thread_Inv.thy ===== *)
theory Kern_Thread_Inv
  imports Kern_Thread "HOL-Library.Multiset"
begin

text \<open>
  The invariant of the thread system and what each operation does to the lists it keeps:
  every thread structure is on exactly one of the processor, the run queue, the
  sleepers array and the zombies array; \<^verbatim>\<open>numthreads\<close> counts the first three; and
  whoever is among the sleepers has a sleep address. The operations are described by
  their effect on these lists, through the interfaces \<open>vector\<close> and \<open>fifo\<close>.
\<close>

section \<open>Where the threads are\<close>

definition cur_l :: "ksys \<Rightarrow> tid list" where
  "cur_l s = (case ks_curthread s of None \<Rightarrow> [] | Some c \<Rightarrow> [c])"

definition rq_l :: "ksys \<Rightarrow> tid list" where
  "rq_l s = (case ks_runqueue s of None \<Rightarrow> [] | Some q \<Rightarrow> q_list q)"

definition sl_l :: "ksys \<Rightarrow> tid list" where
  "sl_l s = (case ks_sleepers s of None \<Rightarrow> [] | Some a \<Rightarrow> array_list a)"

definition zb_l :: "ksys \<Rightarrow> tid list" where
  "zb_l s = (case ks_zombies s of None \<Rightarrow> [] | Some a \<Rightarrow> array_list a)"

definition live :: "ksys \<Rightarrow> tid list" where
  "live s = cur_l s @ rq_l s @ sl_l s"

definition sleeps_on :: "ksys \<Rightarrow> wchan \<Rightarrow> tid \<Rightarrow> bool" where
  "sleeps_on s addr t =
     (case ks_threads s t of None \<Rightarrow> False | Some th \<Rightarrow> th_sleepaddr th = Some addr)"

lemma lists_unaffected [simp]:
  "rq_l (s\<lparr> ks_threads := x \<rparr>) = rq_l s" "rq_l (s\<lparr> ks_curspl := spl \<rparr>) = rq_l s"
  "sl_l (s\<lparr> ks_threads := x \<rparr>) = sl_l s" "sl_l (s\<lparr> ks_curspl := spl \<rparr>) = sl_l s"
  "zb_l (s\<lparr> ks_threads := x \<rparr>) = zb_l s" "zb_l (s\<lparr> ks_curspl := spl \<rparr>) = zb_l s"
  "cur_l (s\<lparr> ks_threads := x \<rparr>) = cur_l s" "cur_l (s\<lparr> ks_curspl := spl \<rparr>) = cur_l s"
  by (simp_all add: rq_l_def sl_l_def zb_l_def cur_l_def)

text \<open>The three containers exist and are well formed.\<close>

definition tables_ok :: "ksys \<Rightarrow> bool" where
  "tables_ok s \<longleftrightarrow>
     (case ks_runqueue s of None \<Rightarrow> False | Some q \<Rightarrow> q_invar q) \<and>
     (case ks_sleepers s of None \<Rightarrow> False | Some a \<Rightarrow> array_invar a) \<and>
     (case ks_zombies s of None \<Rightarrow> False | Some a \<Rightarrow> array_invar a)"

definition thread_inv :: "ksys \<Rightarrow> bool" where
  "thread_inv s \<longleftrightarrow> tables_ok s \<and>
     distinct (live s @ zb_l s) \<and>
     set (live s @ zb_l s) = dom (ks_threads s) \<and>
     ks_numthreads s = int (length (live s)) \<and>
     (\<forall>t\<in>dom (ks_threads s). t < ks_fresh s) \<and>
     (\<forall>t\<in>set (sl_l s). \<exists>addr. sleeps_on s addr t) \<and>
     (ks_curthread s = None \<longleftrightarrow> ks_switching s \<noteq> None) \<and>
     (\<forall>c. ks_switching s = Some c \<longrightarrow> c \<in> dom (ks_threads s))"

lemmas where_defs = cur_l_def rq_l_def sl_l_def zb_l_def live_def

lemma tables_okE:
  assumes "tables_ok s"
  obtains q sl zs where "ks_runqueue s = Some q" "q_invar q" "rq_l s = q_list q"
    "ks_sleepers s = Some sl" "array_invar sl" "sl_l s = array_list sl"
    "ks_zombies s = Some zs" "array_invar zs" "zb_l s = array_list zs"
  using assms by (auto simp: tables_ok_def where_defs split: option.splits)

section \<open>Effect of the operations on the lists\<close>

lemma q_addtail_done:
  assumes "q_invar q" "q_addtail kmalloc_ok q t = Some (Inr (), q')"
  shows "q_invar q'" "q_list q' = q_list q @ [t]" "q_size q \<le> q_size q'"
proof -
  have "q_rep q (q_list q)" using assms(1) by (simp add: q_invar_def)
  from q_addtail_rep [OF this, of kmalloc_ok 0 t] assms(2)
  show "q_invar q'" "q_list q' = q_list q @ [t]" "q_size q \<le> q_size q'"
    by (auto simp: q_addtail_def numeral_2_eq_2 q_rep_invar)
qed

lemma array_add_done:
  assumes "array_invar a" "array_add kmalloc_ok a t = Some (Inr (), a')"
  shows "array_invar a'" "array_list a' = array_list a @ [t]" "arr_max a \<le> arr_max a'"
proof -
  have "arr_num a < arr_max a \<or> arr_num a = arr_max a"
    using array_invar_wf [OF assms(1)] by (auto simp: array_wf_def)
  then show "array_invar a'" "array_list a' = array_list a @ [t]" "arr_max a \<le> arr_max a'"
    using array_add_room [OF assms(1), of kmalloc_ok t] array_add_full [OF assms(1), of kmalloc_ok t]
      assms(2) by auto
qed

lemma make_runnable_done:
  assumes "ks_runqueue s = Some q" "q_invar q" "make_runnable kmalloc_ok t s = Some (Inr (), s')"
  obtains q' where "s' = s\<lparr> ks_runqueue := Some q' \<rparr>" "q_invar q'" "q_list q' = q_list q @ [t]"
    "q_size q \<le> q_size q'" "0 < ks_curspl s"
proof -
  from assms(1,3) obtain q' where q': "q_addtail kmalloc_ok q t = Some (Inr (), q')"
    "s' = s\<lparr> ks_runqueue := Some q' \<rparr>" "0 < ks_curspl s"
    by (auto simp: make_runnable_def ksimps Option.bind_eq_Some_conv split: if_splits)
  from that [OF q'(2) q_addtail_done [OF assms(2) q'(1)] q'(3)] show thesis .
qed

lemma make_runnable_room:
  assumes "ks_runqueue s = Some q" "q_invar q" "int (length (q_list q)) < q_size q - 1"
    "0 < ks_curspl s"
  shows "\<exists>q'. make_runnable kmalloc_ok t s = Some (Inr (), s\<lparr> ks_runqueue := Some q' \<rparr>) \<and>
    q_invar q' \<and> q_list q' = q_list q @ [t] \<and> q_size q' = q_size q"
  using kq.enq_contents [OF assms(2,3), of kmalloc_ok t] assms
  by (auto simp: make_runnable_def ksimps)

text \<open>What \<^verbatim>\<open>mi_switch\<close> does with the running thread, by the state it is to enter.\<close>

lemma mi_switch_done:
  assumes "tables_ok s" "ks_curthread s = Some c"
    and "mi_switch kmalloc_ok st s = Some (flow, s')"
  shows "0 < ks_curspl s \<and> flow = Blocked [FSwitch] \<and> tables_ok s' \<and>
    (\<exists>q sl zs. s' = s\<lparr> ks_curthread := None, ks_switching := Some c, ks_runqueue := q,
                        ks_sleepers := sl, ks_zombies := zs \<rparr>) \<and>
    rq_l s' = (if st = S_READY then rq_l s @ [c] else rq_l s) \<and>
    sl_l s' = (if st = S_SLEEP then sl_l s @ [c] else sl_l s) \<and>
    zb_l s' = (if st = S_ZOMB then zb_l s @ [c] else zb_l s)"
proof -
  from assms(1) obtain q sl zs where t: "ks_runqueue s = Some q" "q_invar q" "rq_l s = q_list q"
    "ks_sleepers s = Some sl" "array_invar sl" "sl_l s = array_list sl"
    "ks_zombies s = Some zs" "array_invar zs" "zb_l s = array_list zs"
    by (rule tables_okE)
  let ?s1 = "s\<lparr> ks_curthread := None, ks_switching := Some c \<rparr>"
  have spl: "0 < ks_curspl s"
    using assms(3) by (auto simp: mi_switch_def ksimps split: if_splits)
  show ?thesis
  proof (cases st)
    case S_READY
    with assms(2,3) spl have f: "flow = Blocked [FSwitch]"
      and mr: "make_runnable kmalloc_ok c ?s1 = Some (Inr (), s')"
      by (auto simp: mi_switch_def ksimps Let_def Option.bind_eq_Some_conv split: if_splits)
    have "ks_runqueue ?s1 = Some q" using t(1) by simp
    from make_runnable_done [OF this t(2) mr] obtain q' where
      "s' = ?s1\<lparr> ks_runqueue := Some q' \<rparr>" "q_invar q'" "q_list q' = q_list q @ [c]" by blast
    with spl f t S_READY show ?thesis
      by (auto simp: tables_ok_def where_defs)
         (rule exI [of _ "Some q'"], rule exI [of _ "Some sl"], rule exI [of _ "Some zs"], simp)
  next
    case S_SLEEP
    with assms(2,3) spl t obtain sl' where f: "flow = Blocked [FSwitch]"
      and a: "array_add kmalloc_ok sl c = Some (Inr (), sl')" and s': "s' = ?s1\<lparr> ks_sleepers := Some sl' \<rparr>"
      by (auto simp: mi_switch_def ksimps Let_def Option.bind_eq_Some_conv split: if_splits)
    from array_add_done [OF t(5) a] s' spl f t S_SLEEP show ?thesis
      by (auto simp: tables_ok_def where_defs)
         (rule exI [of _ "Some q"], rule exI [of _ "Some sl'"], rule exI [of _ "Some zs"], simp)
  next
    case S_ZOMB
    with assms(2,3) spl t obtain zs' where f: "flow = Blocked [FSwitch]"
      and a: "array_add kmalloc_ok zs c = Some (Inr (), zs')" and s': "s' = ?s1\<lparr> ks_zombies := Some zs' \<rparr>"
      by (auto simp: mi_switch_def ksimps Let_def Option.bind_eq_Some_conv split: if_splits)
    from array_add_done [OF t(8) a] s' spl f t S_ZOMB show ?thesis
      by (auto simp: tables_ok_def where_defs)
         (rule exI [of _ "Some q"], rule exI [of _ "Some sl"], rule exI [of _ "Some zs'"], simp)
  next
    case S_RUN
    with assms(2,3) show ?thesis
      by (auto simp: mi_switch_def ksimps Let_def Option.bind_eq_Some_conv split: if_splits)
  qed
qed

lemma mi_switch_idle:
  "ks_curthread s = None \<Longrightarrow> mi_switch kmalloc_ok st s = Some (flow, s') \<Longrightarrow> flow = Done \<and> s' = s"
  by (auto simp: mi_switch_def ksimps split: if_splits)

section \<open>Waking\<close>

declare wakeup_from.simps [simp del] wakeone_from.simps [simp del] hassleepers_from.simps [simp del]

text \<open>
  \<^verbatim>\<open>thread_wakeup\<close> moves exactly the sleepers on the address to the end of the run queue,
  in the order in which they went to sleep.
\<close>

lemma wakeup_from_done:
  assumes "ks_runqueue s = Some q" "q_invar q" "ks_sleepers s = Some sl" "array_invar sl"
    and "i \<le> length (array_list sl)" "wakeup_from kmalloc_ok addr (int i) s = Some s'"
  shows "\<exists>q' sl'. s' = s\<lparr> ks_runqueue := Some q', ks_sleepers := Some sl' \<rparr> \<and> q_invar q' \<and>
    array_invar sl' \<and> arr_max sl' = arr_max sl \<and> q_size q \<le> q_size q' \<and>
    q_list q' = q_list q @ filter (sleeps_on s addr) (drop i (array_list sl)) \<and>
    array_list sl' = take i (array_list sl) @
      filter (\<lambda>t. \<not> sleeps_on s addr t) (drop i (array_list sl))"
  using assms
proof (induction "length (array_list sl) - i" arbitrary: s q sl i)
  case 0
  then have "\<not> int i < array_getnum sl" "i = length (array_list sl)"
    using ka.num_elems [of sl] by auto
  with 0 show ?case
    by (subst (asm) wakeup_from.simps) (rule exI [of _ q], rule exI [of _ sl], simp)
next
  case (Suc n)
  have i: "i < length (array_list sl)" using Suc(2) by simp
  let ?t = "array_list sl ! i"
  have lt: "int i < array_getnum sl" using i ka.num_elems [OF Suc(6)] by simp
  have get: "array_getguy sl (int i) = Some ?t" by (rule ka.get_int [OF Suc(6) i])
  have dr: "drop i (array_list sl) = ?t # drop (Suc i) (array_list sl)"
    by (simp add: Cons_nth_drop_Suc i)
  from Suc(8) Suc(5) lt get obtain th where th: "ks_threads s ?t = Some th"
    by (subst (asm) wakeup_from.simps) (auto simp: Option.bind_eq_Some_conv split: if_splits)
  show ?case
  proof (cases "sleeps_on s addr ?t")
    case False
    then have "wakeup_from kmalloc_ok addr (int (Suc i)) s = Some s'"
      using Suc(8) Suc(5) lt get th
      by (subst (asm) wakeup_from.simps) (simp add: sleeps_on_def add.commute)
    from Suc(1) [OF _ Suc(3-6) _ this] Suc(2) i False
    show ?thesis by (auto simp: dr take_Suc_conv_app_nth)
  next
    case True
    obtain sl1 where sl1: "array_remove sl (int i) = Some sl1" "array_invar sl1"
      "array_list sl1 = take i (array_list sl) @ drop (Suc i) (array_list sl)"
      "arr_max sl1 = arr_max sl" by (rule ka.remove_int [OF Suc(6) i])
    from Suc(8) Suc(5) lt get th True sl1(1) obtain s1 where
      mr: "make_runnable kmalloc_ok ?t (s\<lparr> ks_sleepers := Some sl1 \<rparr>) = Some (Inr (), s1)"
      and rest: "wakeup_from kmalloc_ok addr (int i) s1 = Some s'"
      by (subst (asm) wakeup_from.simps)
         (auto simp: sleeps_on_def ksimps Option.bind_eq_Some_conv split: if_splits)
    have "ks_runqueue (s\<lparr> ks_sleepers := Some sl1 \<rparr>) = Some q" using Suc(3) by simp
    from make_runnable_done [OF this Suc(4) mr] obtain q1 where
      s1: "s1 = s\<lparr> ks_sleepers := Some sl1, ks_runqueue := Some q1 \<rparr>" "q_invar q1"
      "q_list q1 = q_list q @ [?t]" "q_size q \<le> q_size q1" by auto
    have hyp: "n = length (array_list sl1) - i" "ks_runqueue s1 = Some q1" "ks_sleepers s1 = Some sl1"
      "i \<le> length (array_list sl1)" using Suc(2) i sl1(3) s1(1) by auto
    have on: "sleeps_on s1 addr = sleeps_on s addr" by (auto simp: s1(1) sleeps_on_def)
    have tk: "take i (array_list sl1) = take i (array_list sl)"
      "drop i (array_list sl1) = drop (Suc i) (array_list sl)" using i sl1(3) by auto
    from Suc(1) [OF hyp(1,2) s1(2) hyp(3) sl1(2) hyp(4) rest] s1 sl1(4) True
    show ?thesis unfolding on tk dr by force
  qed
qed

text \<open>With room in the run queue for the threads woken, nothing can go wrong.\<close>

lemma wakeup_from_room:
  assumes "ks_runqueue s = Some q" "q_invar q" "ks_sleepers s = Some sl" "array_invar sl"
    and "i \<le> length (array_list sl)" "set (array_list sl) \<subseteq> dom (ks_threads s)" "0 < ks_curspl s"
    and "int (length (q_list q) + length (filter (sleeps_on s addr) (drop i (array_list sl))))
           < q_size q"
  shows "\<exists>s'. wakeup_from kmalloc_ok addr (int i) s = Some s'"
  using assms
proof (induction "length (array_list sl) - i" arbitrary: s q sl i)
  case 0
  then have "\<not> int i < array_getnum sl" using ka.num_elems [of sl] by auto
  with 0 show ?case by (subst wakeup_from.simps) simp
next
  case (Suc n)
  have i: "i < length (array_list sl)" using Suc(2) by simp
  let ?t = "array_list sl ! i"
  have lt: "int i < array_getnum sl" using i ka.num_elems [OF Suc(6)] by simp
  have get: "array_getguy sl (int i) = Some ?t" by (rule ka.get_int [OF Suc(6) i])
  have dr: "drop i (array_list sl) = ?t # drop (Suc i) (array_list sl)"
    by (simp add: Cons_nth_drop_Suc i)
  obtain th where th: "ks_threads s ?t = Some th" using Suc(8) i nth_mem by blast
  show ?case
  proof (cases "sleeps_on s addr ?t")
    case False
    have "\<exists>s'. wakeup_from kmalloc_ok addr (int (Suc i)) s = Some s'"
      by (rule Suc(1) [OF _ Suc(3-6) _ Suc(8,9)]) (use Suc(2,10) i False dr in auto)
    with False lt get th Suc(5) show ?thesis
      by (subst wakeup_from.simps) (simp add: sleeps_on_def add.commute)
  next
    case True
    obtain sl1 where sl1: "array_remove sl (int i) = Some sl1" "array_invar sl1"
      "array_list sl1 = take i (array_list sl) @ drop (Suc i) (array_list sl)"
      "arr_max sl1 = arr_max sl" by (rule ka.remove_int [OF Suc(6) i])
    let ?s = "s\<lparr> ks_sleepers := Some sl1 \<rparr>"
    have "ks_runqueue ?s = Some q" "int (length (q_list q)) < q_size q - 1" "0 < ks_curspl ?s"
      using Suc(3,9,10) True dr by simp_all
    from make_runnable_room [OF this(1) Suc(4) this(2,3), of kmalloc_ok ?t] obtain q1 where
      mr: "make_runnable kmalloc_ok ?t ?s = Some (Inr (), ?s\<lparr> ks_runqueue := Some q1 \<rparr>)"
      and q1: "q_invar q1" "q_list q1 = q_list q @ [?t]" "q_size q1 = q_size q" by blast
    let ?s1 = "?s\<lparr> ks_runqueue := Some q1 \<rparr>"
    have hyp: "n = length (array_list sl1) - i" "ks_runqueue ?s1 = Some q1" "ks_sleepers ?s1 = Some sl1"
      "i \<le> length (array_list sl1)" "set (array_list sl1) \<subseteq> dom (ks_threads ?s1)" "0 < ks_curspl ?s1"
      using Suc(2,8,9) i sl1(3) by (auto dest: in_set_takeD in_set_dropD)
    have "sleeps_on ?s1 addr = sleeps_on s addr" by (auto simp: sleeps_on_def)
    moreover have "drop i (array_list sl1) = drop (Suc i) (array_list sl)" using i sl1(3) by auto
    ultimately have "int (length (q_list q1) + length (filter (sleeps_on ?s1 addr) (drop i (array_list sl1))))
           < q_size q1"
      using Suc(10) True dr q1 by simp
    from Suc(1) [OF hyp(1,2) q1(1) hyp(3) sl1(2) hyp(4-6) this] True lt get th Suc(5) sl1(1) mr
    show ?thesis by (subst wakeup_from.simps) (simp add: sleeps_on_def)
  qed
qed

lemma thread_wakeup_done:
  assumes "tables_ok s" "thread_wakeup kmalloc_ok addr s = Some s'"
  shows "tables_ok s'" "rq_l s' = rq_l s @ filter (sleeps_on s addr) (sl_l s)"
    "sl_l s' = filter (\<lambda>t. \<not> sleeps_on s addr t) (sl_l s)" "zb_l s' = zb_l s"
    "\<exists>q sl. s' = s\<lparr> ks_runqueue := q, ks_sleepers := sl \<rparr>"
proof -
  from assms(1) obtain q sl zs where t: "ks_runqueue s = Some q" "q_invar q" "rq_l s = q_list q"
    "ks_sleepers s = Some sl" "array_invar sl" "sl_l s = array_list sl"
    "ks_zombies s = Some zs" "array_invar zs" "zb_l s = array_list zs"
    by (rule tables_okE)
  have "wakeup_from kmalloc_ok addr (int 0) s = Some s'"
    using assms(2) by (auto simp: thread_wakeup_def ksimps split: if_splits)
  from wakeup_from_done [OF t(1,2,4,5) _ this] obtain q' sl' where
    "s' = s\<lparr> ks_runqueue := Some q', ks_sleepers := Some sl' \<rparr>" "q_invar q'" "array_invar sl'"
    "q_list q' = q_list q @ filter (sleeps_on s addr) (array_list sl)"
    "array_list sl' = filter (\<lambda>t. \<not> sleeps_on s addr t) (array_list sl)" by auto
  with t show "tables_ok s'" "rq_l s' = rq_l s @ filter (sleeps_on s addr) (sl_l s)"
    "sl_l s' = filter (\<lambda>t. \<not> sleeps_on s addr t) (sl_l s)" "zb_l s' = zb_l s"
    "\<exists>q sl. s' = s\<lparr> ks_runqueue := q, ks_sleepers := sl \<rparr>"
    by (auto simp: tables_ok_def where_defs)
qed

text \<open>\<^verbatim>\<open>thread_wakeone\<close> moves the one that has slept longest on the address, if there is one.\<close>

lemma wakeone_from_done:
  assumes "ks_runqueue s = Some q" "q_invar q" "ks_sleepers s = Some sl" "array_invar sl"
    and "i \<le> length (array_list sl)" "list_all (\<lambda>t. \<not> sleeps_on s addr t) (take i (array_list sl))"
    and "wakeone_from kmalloc_ok addr (int i) s = Some s'"
  shows "s' = s \<and> list_all (\<lambda>t. \<not> sleeps_on s addr t) (array_list sl) \<or>
    (\<exists>k<length (array_list sl). \<exists>q' sl'.
       s' = s\<lparr> ks_runqueue := Some q', ks_sleepers := Some sl' \<rparr> \<and> q_invar q' \<and> array_invar sl' \<and>
       sleeps_on s addr (array_list sl ! k) \<and>
       list_all (\<lambda>t. \<not> sleeps_on s addr t) (take k (array_list sl)) \<and>
       q_list q' = q_list q @ [array_list sl ! k] \<and>
       array_list sl' = take k (array_list sl) @ drop (Suc k) (array_list sl))"
  using assms
proof (induction "length (array_list sl) - i" arbitrary: i)
  case 0
  then have "\<not> int i < array_getnum sl" "i = length (array_list sl)"
    using ka.num_elems [of sl] by auto
  with 0 show ?case by (subst (asm) wakeone_from.simps) simp
next
  case (Suc n)
  have i: "i < length (array_list sl)" using Suc(2) by simp
  let ?t = "array_list sl ! i"
  have lt: "int i < array_getnum sl" using i ka.num_elems [OF Suc(6)] by simp
  have get: "array_getguy sl (int i) = Some ?t" by (rule ka.get_int [OF Suc(6) i])
  from Suc(9) Suc(5) lt get obtain th where th: "ks_threads s ?t = Some th"
    by (subst (asm) wakeone_from.simps) (auto simp: Option.bind_eq_Some_conv split: if_splits)
  show ?case
  proof (cases "sleeps_on s addr ?t")
    case False
    then have w: "wakeone_from kmalloc_ok addr (int (Suc i)) s = Some s'"
      using Suc(9) Suc(5) lt get th
      by (subst (asm) wakeone_from.simps) (simp add: sleeps_on_def add.commute)
    have "list_all (\<lambda>t. \<not> sleeps_on s addr t) (take (Suc i) (array_list sl))"
      using Suc(8) False i by (simp add: take_Suc_conv_app_nth)
    then show ?thesis by (intro Suc(1) [OF _ Suc(3-6) _ _ w]) (use Suc(2) i in auto)
  next
    case True
    obtain sl1 where sl1: "array_remove sl (int i) = Some sl1" "array_invar sl1"
      "array_list sl1 = take i (array_list sl) @ drop (Suc i) (array_list sl)"
      "arr_max sl1 = arr_max sl" by (rule ka.remove_int [OF Suc(6) i])
    from Suc(9) Suc(5) lt get th True sl1(1) have
      mr: "make_runnable kmalloc_ok ?t (s\<lparr> ks_sleepers := Some sl1 \<rparr>) = Some (Inr (), s')"
      by (subst (asm) wakeone_from.simps)
         (auto simp: sleeps_on_def ksimps Option.bind_eq_Some_conv split: if_splits)
    have "ks_runqueue (s\<lparr> ks_sleepers := Some sl1 \<rparr>) = Some q" using Suc(3) by simp
    from make_runnable_done [OF this Suc(4) mr] obtain q1 where
      "s' = s\<lparr> ks_sleepers := Some sl1, ks_runqueue := Some q1 \<rparr>" "q_invar q1"
      "q_list q1 = q_list q @ [?t]" by auto
    with sl1 i True Suc(8) show ?thesis by (intro disjI2 exI [of _ i]) force
  qed
qed

lemma hassleepers_from_eq:
  assumes "array_invar sl" "set (array_list sl) \<subseteq> dom (ks_threads s)" "i \<le> length (array_list sl)"
  shows "hassleepers_from addr (int i) sl s =
    Some (\<exists>t\<in>set (drop i (array_list sl)). sleeps_on s addr t)"
  using assms
proof (induction "length (array_list sl) - i" arbitrary: i)
  case 0
  then have "\<not> int i < array_getnum sl" using ka.num_elems [of sl] by auto
  with 0 show ?case by (subst hassleepers_from.simps) simp
next
  case (Suc n)
  have i: "i < length (array_list sl)" using Suc(2) by simp
  let ?t = "array_list sl ! i"
  have lt: "int i < array_getnum sl" using i ka.num_elems [OF Suc(3)] by simp
  have get: "array_getguy sl (int i) = Some ?t" by (rule ka.get_int [OF Suc(3) i])
  obtain th where th: "ks_threads s ?t = Some th" using Suc(4) i nth_mem by blast
  have dr: "drop i (array_list sl) = ?t # drop (Suc i) (array_list sl)"
    by (simp add: Cons_nth_drop_Suc i)
  have "hassleepers_from addr (int (Suc i)) sl s =
      Some (\<exists>t\<in>set (drop (Suc i) (array_list sl)). sleeps_on s addr t)"
    by (rule Suc(1)) (use Suc(2-) i in auto)
  with lt get th dr show ?case
    by (subst hassleepers_from.simps) (auto simp: sleeps_on_def add.commute)
qed

section \<open>Preservation of the invariant\<close>

text \<open>Threads move between the lists, none is lost or duplicated.\<close>

lemma thread_inv_move:
  assumes "thread_inv s" "tables_ok s'"
    and "mset (live s' @ zb_l s') = mset (live s @ zb_l s)"
    and "dom (ks_threads s') = dom (ks_threads s)"
    and "ks_numthreads s' = int (length (live s'))"
    and "ks_fresh s \<le> ks_fresh s'"
    and "\<forall>t\<in>set (sl_l s'). \<exists>addr. sleeps_on s' addr t"
    and "ks_curthread s' = None \<longleftrightarrow> ks_switching s' \<noteq> None"
    and "\<forall>c. ks_switching s' = Some c \<longrightarrow> c \<in> dom (ks_threads s)"
  shows "thread_inv s'"
proof -
  have "distinct (live s' @ zb_l s')" "set (live s' @ zb_l s') = set (live s @ zb_l s)"
    using assms(1,3) mset_eq_imp_distinct_iff [OF assms(3)] mset_eq_setD [OF assms(3)]
    by (auto simp: thread_inv_def)
  moreover have "\<forall>t\<in>dom (ks_threads s'). t < ks_fresh s'"
    using assms(1,4,6) by (auto simp: thread_inv_def intro: less_le_trans)
  ultimately show ?thesis using assms unfolding thread_inv_def by auto
qed

text \<open>Operations that leave the lists alone.\<close>

lemma thread_inv_frame:
  assumes "thread_inv s"
    and "ks_runqueue s' = ks_runqueue s" "ks_sleepers s' = ks_sleepers s"
    and "ks_zombies s' = ks_zombies s" "ks_curthread s' = ks_curthread s"
    and "ks_switching s' = ks_switching s" "ks_numthreads s' = ks_numthreads s"
    and "ks_fresh s \<le> ks_fresh s'" "dom (ks_threads s') = dom (ks_threads s)"
    and "\<And>t addr. t \<in> set (sl_l s) \<Longrightarrow> sleeps_on s addr t \<Longrightarrow> sleeps_on s' addr t"
  shows "thread_inv s'"
proof (rule thread_inv_move [OF assms(1)])
  show "\<forall>t\<in>set (sl_l s'). \<exists>addr. sleeps_on s' addr t"
    using assms(1,3,10) by (fastforce simp: thread_inv_def where_defs)
qed (use assms in \<open>auto simp: thread_inv_def where_defs tables_ok_def\<close>)

lemma upd_thread_dom [simp]: "dom (ks_threads (upd_thread t f s)) = dom (ks_threads s)"
  by (auto simp: upd_thread_def split: if_splits)

lemma upd_thread_fields [simp]:
  "ks_runqueue (upd_thread t f s) = ks_runqueue s" "ks_sleepers (upd_thread t f s) = ks_sleepers s"
  "ks_zombies (upd_thread t f s) = ks_zombies s" "ks_curthread (upd_thread t f s) = ks_curthread s"
  "ks_switching (upd_thread t f s) = ks_switching s" "ks_numthreads (upd_thread t f s) = ks_numthreads s"
  "ks_fresh (upd_thread t f s) = ks_fresh s" "ks_curspl (upd_thread t f s) = ks_curspl s"
  "ks_in_interrupt (upd_thread t f s) = ks_in_interrupt s" "ks_sems (upd_thread t f s) = ks_sems s"
  "ks_locks (upd_thread t f s) = ks_locks s" "ks_cvs (upd_thread t f s) = ks_cvs s"
  "ks_pid_assign (upd_thread t f s) = ks_pid_assign s"
  by (simp_all add: upd_thread_def)

lemma upd_thread_lists [simp]:
  "rq_l (upd_thread t f s) = rq_l s" "sl_l (upd_thread t f s) = sl_l s"
  "zb_l (upd_thread t f s) = zb_l s" "cur_l (upd_thread t f s) = cur_l s"
  "live (upd_thread t f s) = live s" "tables_ok (upd_thread t f s) = tables_ok s"
  by (simp_all add: where_defs tables_ok_def)

lemma sleeps_on_upd:
  "sleeps_on (upd_thread c f s) addr t =
     (if t = c then (case ks_threads s c of None \<Rightarrow> False | Some th \<Rightarrow> th_sleepaddr (f th) = Some addr)
      else sleeps_on s addr t)"
  by (auto simp: sleeps_on_def upd_thread_def split: option.splits)

lemma thread_wakeup_inv:
  assumes "thread_inv s" "thread_wakeup kmalloc_ok addr s = Some s'"
  shows "thread_inv s'"
proof -
  have tab: "tables_ok s" using assms(1) by (simp add: thread_inv_def)
  note w = thread_wakeup_done [OF tab assms(2)]
  from w(5) obtain q sl where s': "s' = s\<lparr> ks_runqueue := q, ks_sleepers := sl \<rparr>" by blast
  have same: "ks_threads s' = ks_threads s" "ks_numthreads s' = ks_numthreads s" "ks_fresh s' = ks_fresh s"
    "ks_curthread s' = ks_curthread s" "ks_switching s' = ks_switching s" "cur_l s' = cur_l s"
    "sleeps_on s' = sleeps_on s"
    by (auto simp: s' cur_l_def sleeps_on_def fun_eq_iff)
  have part: "mset (filter P xs) + mset (filter (\<lambda>t. \<not> P t) xs) = mset xs" for P and xs :: "tid list"
    by (simp add: multiset_partition [symmetric])
  have lv: "mset (live s') = mset (live s)"
    using part [of "sleeps_on s addr" "sl_l s"] by (simp add: live_def same w)
  then have "length (live s') = length (live s)" by (rule mset_eq_length)
  with lv show ?thesis
    by (intro thread_inv_move [OF assms(1) w(1)])
       (use assms(1) w in \<open>auto simp: thread_inv_def same\<close>)
qed

lemma thread_wakeone_done:
  assumes "tables_ok s" "thread_wakeone kmalloc_ok addr s = Some s'"
  shows "tables_ok s'" "zb_l s' = zb_l s" "\<exists>q sl. s' = s\<lparr> ks_runqueue := q, ks_sleepers := sl \<rparr>"
    "mset (rq_l s' @ sl_l s') = mset (rq_l s @ sl_l s)" "set (sl_l s') \<subseteq> set (sl_l s)"
    "case filter (sleeps_on s addr) (sl_l s) of
       [] \<Rightarrow> s' = s | t # ts \<Rightarrow> rq_l s' = rq_l s @ [t] \<and> filter (sleeps_on s addr) (sl_l s') = ts"
proof -
  from assms(1) obtain q sl zs where t: "ks_runqueue s = Some q" "q_invar q" "rq_l s = q_list q"
    "ks_sleepers s = Some sl" "array_invar sl" "sl_l s = array_list sl"
    "ks_zombies s = Some zs" "array_invar zs" "zb_l s = array_list zs"
    by (rule tables_okE)
  have "wakeone_from kmalloc_ok addr (int 0) s = Some s'"
    using assms(2) by (auto simp: thread_wakeone_def ksimps split: if_splits)
  from wakeone_from_done [OF t(1,2,4,5) _ _ this]
  have "s' = s \<and> list_all (\<lambda>t. \<not> sleeps_on s addr t) (array_list sl) \<or>
    (\<exists>k<length (array_list sl). \<exists>q' sl'.
       s' = s\<lparr> ks_runqueue := Some q', ks_sleepers := Some sl' \<rparr> \<and> q_invar q' \<and> array_invar sl' \<and>
       sleeps_on s addr (array_list sl ! k) \<and>
       list_all (\<lambda>t. \<not> sleeps_on s addr t) (take k (array_list sl)) \<and>
       q_list q' = q_list q @ [array_list sl ! k] \<and>
       array_list sl' = take k (array_list sl) @ drop (Suc k) (array_list sl))" by simp
  then consider (none) "s' = s" "list_all (\<lambda>t. \<not> sleeps_on s addr t) (array_list sl)"
    | (one) k q' sl' where "k < length (array_list sl)"
      "s' = s\<lparr> ks_runqueue := Some q', ks_sleepers := Some sl' \<rparr>" "q_invar q'" "array_invar sl'"
      "sleeps_on s addr (array_list sl ! k)"
      "list_all (\<lambda>t. \<not> sleeps_on s addr t) (take k (array_list sl))"
      "q_list q' = q_list q @ [array_list sl ! k]"
      "array_list sl' = take k (array_list sl) @ drop (Suc k) (array_list sl)" by blast
  then have "tables_ok s' \<and> zb_l s' = zb_l s \<and> (\<exists>q sl. s' = s\<lparr> ks_runqueue := q, ks_sleepers := sl \<rparr>) \<and>
    mset (rq_l s' @ sl_l s') = mset (rq_l s @ sl_l s) \<and> set (sl_l s') \<subseteq> set (sl_l s) \<and>
    (case filter (sleeps_on s addr) (sl_l s) of
       [] \<Rightarrow> s' = s | t # ts \<Rightarrow> rq_l s' = rq_l s @ [t] \<and> filter (sleeps_on s addr) (sl_l s') = ts)"
  proof cases
    case none
    then have "filter (sleeps_on s addr) (sl_l s) = []"
      using t(6) by (simp add: list_all_iff filter_empty_conv)
    moreover have "\<exists>q sl. s = s\<lparr> ks_runqueue := q, ks_sleepers := sl \<rparr>"
      by (rule exI [of _ "ks_runqueue s"], rule exI [of _ "ks_sleepers s"]) simp
    ultimately show ?thesis using none(1) assms(1) by simp
  next
    case one
    let ?xs = "array_list sl"
    have split: "?xs = take k ?xs @ ?xs ! k # drop (Suc k) ?xs" by (rule id_take_nth_drop [OF one(1)])
    have f: "filter (sleeps_on s addr) ?xs = ?xs ! k # filter (sleeps_on s addr) (drop (Suc k) ?xs)"
      using one(5,6) by (subst split) (simp add: list_all_iff filter_empty_conv)
    have f': "filter (sleeps_on s addr) (array_list sl') = filter (sleeps_on s addr) (drop (Suc k) ?xs)"
      using one(6,8) by (simp add: list_all_iff filter_empty_conv)
    have m: "mset (q_list q' @ array_list sl') = mset (q_list q @ ?xs)"
      using arg_cong [OF split, of mset] by (simp add: one(7,8))
    have "set (array_list sl') \<subseteq> set ?xs"
      using one(8) by (auto dest: in_set_takeD in_set_dropD)
    moreover have "rq_l s' = q_list q'" "sl_l s' = array_list sl'" "tables_ok s'" "zb_l s' = zb_l s"
      using one(2,3,4) t by (auto simp: where_defs tables_ok_def)
    ultimately show ?thesis using one(2,7) m f f' t by auto
  qed
  then show "tables_ok s'" "zb_l s' = zb_l s" "\<exists>q sl. s' = s\<lparr> ks_runqueue := q, ks_sleepers := sl \<rparr>"
    "mset (rq_l s' @ sl_l s') = mset (rq_l s @ sl_l s)" "set (sl_l s') \<subseteq> set (sl_l s)"
    "case filter (sleeps_on s addr) (sl_l s) of
       [] \<Rightarrow> s' = s | t # ts \<Rightarrow> rq_l s' = rq_l s @ [t] \<and> filter (sleeps_on s addr) (sl_l s') = ts"
    by blast+
qed

lemma thread_wakeone_inv:
  assumes "thread_inv s" "thread_wakeone kmalloc_ok addr s = Some s'"
  shows "thread_inv s'"
proof -
  have tab: "tables_ok s" using assms(1) by (simp add: thread_inv_def)
  note w = thread_wakeone_done [OF tab assms(2)]
  from w(3) obtain q sl where s': "s' = s\<lparr> ks_runqueue := q, ks_sleepers := sl \<rparr>" by blast
  have same: "ks_threads s' = ks_threads s" "ks_numthreads s' = ks_numthreads s" "ks_fresh s' = ks_fresh s"
    "ks_curthread s' = ks_curthread s" "ks_switching s' = ks_switching s" "cur_l s' = cur_l s"
    "sleeps_on s' = sleeps_on s"
    by (auto simp: s' cur_l_def sleeps_on_def fun_eq_iff)
  have lv: "mset (live s') = mset (live s)" using w(4) by (simp add: live_def same)
  then have "length (live s') = length (live s)" by (rule mset_eq_length)
  with lv show ?thesis
    by (intro thread_inv_move [OF assms(1) w(1)])
       (use assms(1) w(2,5) in \<open>auto simp: thread_inv_def same\<close>)
qed

text \<open>Giving up the processor.\<close>

lemma thread_sleep_done:
  assumes "tables_ok s" "thread_sleep kmalloc_ok addr s = Some (flow, s')"
  obtains c th where "ks_curthread s = Some c" "ks_threads s c = Some th"
    "flow = Blocked [FSwitch, FSleep]" "tables_ok s'"
    "rq_l s' = rq_l s" "sl_l s' = sl_l s @ [c]" "zb_l s' = zb_l s"
    "\<exists>q sl zs. s' = s\<lparr> ks_threads := (ks_threads s)(c \<mapsto> th\<lparr> th_sleepaddr := Some addr \<rparr>),
        ks_curthread := None, ks_switching := Some c, ks_runqueue := q, ks_sleepers := sl,
        ks_zombies := zs \<rparr>"
    "0 < ks_curspl s" "ks_in_interrupt s = 0"
proof -
  from assms(2) obtain c th f s'' where c: "ks_curthread s = Some c" "ks_threads s c = Some th"
    and sw: "mi_switch kmalloc_ok S_SLEEP
        (upd_thread c (\<lambda>th. th\<lparr> th_sleepaddr := Some addr \<rparr>) s) = Some (f, s'')"
    and ii: "ks_in_interrupt s = 0"
    and fl: "(case f of Done \<Rightarrow> do { s2 \<leftarrow> thread_sleep_end s''; Some (Done, s2) }
             | Blocked fs \<Rightarrow> Some (Blocked (fs @ [FSleep]), s'')) = Some (flow, s')"
    by (auto simp: thread_sleep_def ksimps Option.bind_eq_Some_conv split: if_splits)
  let ?s = "upd_thread c (\<lambda>th. th\<lparr> th_sleepaddr := Some addr \<rparr>) s"
  have "tables_ok ?s" "ks_curthread ?s = Some c" using assms(1) c by simp_all
  note m = mi_switch_done [OF this sw]
  then have "f = Blocked [FSwitch]" by simp
  with fl have s': "flow = Blocked [FSwitch, FSleep]" "s'' = s'" by auto
  have "?s = s\<lparr> ks_threads := (ks_threads s)(c \<mapsto> th\<lparr> th_sleepaddr := Some addr \<rparr>) \<rparr>"
    using c by (simp add: upd_thread_def)
  with m s' show thesis by (intro that [OF c s'(1)]) (auto simp: ii)
qed

lemma thread_sleep_inv:
  assumes "thread_inv s" "thread_sleep kmalloc_ok addr s = Some (flow, s')"
  shows "thread_inv s'"
proof -
  have tab: "tables_ok s" using assms(1) by (simp add: thread_inv_def)
  from thread_sleep_done [OF tab assms(2)] obtain c th q sl zs where
    c: "ks_curthread s = Some c" "ks_threads s c = Some th" and tab': "tables_ok s'"
    and l: "rq_l s' = rq_l s" "sl_l s' = sl_l s @ [c]" "zb_l s' = zb_l s"
    and s': "s' = s\<lparr> ks_threads := (ks_threads s)(c \<mapsto> th\<lparr> th_sleepaddr := Some addr \<rparr>),
        ks_curthread := None, ks_switching := Some c, ks_runqueue := q, ks_sleepers := sl,
        ks_zombies := zs \<rparr>" by metis
  have cur: "cur_l s = [c]" "cur_l s' = []" using c by (simp_all add: cur_l_def s')
  have same: "ks_numthreads s' = ks_numthreads s" "ks_fresh s' = ks_fresh s" "ks_curthread s' = None"
    "ks_switching s' = Some c" "dom (ks_threads s') = dom (ks_threads s)"
    using c by (auto simp: s')
  have on: "sleeps_on s' a t \<longleftrightarrow> (if t = c then a = addr else sleeps_on s a t)" for a t
    by (auto simp: s' sleeps_on_def)
  show ?thesis
  proof (rule thread_inv_move [OF assms(1) tab'])
    have "\<exists>a. sleeps_on s' a t" if "t \<in> set (sl_l s')" for t
      using assms(1) that by (cases "t = c") (auto simp: l on thread_inv_def)
    then show "\<forall>t\<in>set (sl_l s'). \<exists>a. sleeps_on s' a t" by blast
    show "ks_numthreads s' = int (length (live s'))"
      using assms(1) by (simp add: thread_inv_def live_def l cur same)
  qed (use c in \<open>auto simp: live_def l cur same\<close>)
qed

lemma thread_yield_done:
  assumes "tables_ok s" "thread_yield kmalloc_ok s = Some (flow, s')"
  shows "(ks_curthread s = None \<and> flow = Done \<and> s' = s) \<or>
    (\<exists>c. ks_curthread s = Some c \<and> flow = Blocked [FSwitch, FYield (ks_curspl s)] \<and> tables_ok s' \<and>
      rq_l s' = rq_l s @ [c] \<and> sl_l s' = sl_l s \<and> zb_l s' = zb_l s \<and>
      (\<exists>q sl zs. s' = s\<lparr> ks_curspl := SPL_HIGH, ks_curthread := None, ks_switching := Some c,
          ks_runqueue := q, ks_sleepers := sl, ks_zombies := zs \<rparr>))"
proof -
  let ?s = "s\<lparr> ks_curspl := SPL_HIGH \<rparr>"
  from assms(2) obtain f s'' where
    sw: "mi_switch kmalloc_ok S_READY ?s = Some (f, s'')"
    and fl: "(case f of Done \<Rightarrow> Some (Done, snd (splx (ks_curspl s) s''))
        | Blocked fs \<Rightarrow> Some (Blocked (fs @ [FYield (ks_curspl s)]), s'')) = Some (flow, s')"
    by (auto simp: thread_yield_def splhigh_def splx_def ksimps Option.bind_eq_Some_conv split: if_splits)
  show ?thesis
  proof (cases "ks_curthread s")
    case None
    then have "f = Done" "s'' = ?s" using mi_switch_idle [OF _ sw] by simp_all
    with None fl show ?thesis by (simp add: splx_def)
  next
    case (Some c)
    have "tables_ok ?s" "ks_curthread ?s = Some c" using assms(1) Some by (simp_all add: tables_ok_def)
    note m = mi_switch_done [OF this sw]
    then have "flow = Blocked [FSwitch, FYield (ks_curspl s)]" "s'' = s'" using fl by auto
    with m Some show ?thesis by (auto simp: where_defs)
  qed
qed

lemma thread_yield_inv:
  assumes "thread_inv s" "thread_yield kmalloc_ok s = Some (flow, s')"
  shows "thread_inv s'"
proof -
  have tab: "tables_ok s" using assms(1) by (simp add: thread_inv_def)
  from thread_yield_done [OF tab assms(2)] show ?thesis
  proof
    assume "ks_curthread s = None \<and> flow = Done \<and> s' = s"
    with assms(1) show ?thesis by simp
  next
    assume "\<exists>c. ks_curthread s = Some c \<and> flow = Blocked [FSwitch, FYield (ks_curspl s)] \<and> tables_ok s' \<and>
      rq_l s' = rq_l s @ [c] \<and> sl_l s' = sl_l s \<and> zb_l s' = zb_l s \<and>
      (\<exists>q sl zs. s' = s\<lparr> ks_curspl := SPL_HIGH, ks_curthread := None, ks_switching := Some c,
          ks_runqueue := q, ks_sleepers := sl, ks_zombies := zs \<rparr>)"
    then obtain c q sl zs where c: "ks_curthread s = Some c" "tables_ok s'"
      and l: "rq_l s' = rq_l s @ [c]" "sl_l s' = sl_l s" "zb_l s' = zb_l s"
      and s': "s' = s\<lparr> ks_curspl := SPL_HIGH, ks_curthread := None, ks_switching := Some c,
          ks_runqueue := q, ks_sleepers := sl, ks_zombies := zs \<rparr>" by blast
    have cur: "cur_l s = [c]" "cur_l s' = []" using c by (simp_all add: cur_l_def s')
    have same: "ks_numthreads s' = ks_numthreads s" "ks_fresh s' = ks_fresh s" "ks_curthread s' = None"
      "ks_switching s' = Some c" "ks_threads s' = ks_threads s" "sleeps_on s' = sleeps_on s"
      by (auto simp: s' sleeps_on_def fun_eq_iff)
    show ?thesis
    proof (rule thread_inv_move [OF assms(1) c(2)])
      show "ks_numthreads s' = int (length (live s'))"
        using assms(1) by (simp add: thread_inv_def live_def l cur same)
      have "c \<in> dom (ks_threads s)" using assms(1) by (auto simp: thread_inv_def live_def cur)
      then show "\<forall>c. ks_switching s' = Some c \<longrightarrow> c \<in> dom (ks_threads s)" by (simp add: same)
      show "\<forall>t\<in>set (sl_l s'). \<exists>addr. sleeps_on s' addr t"
        using assms(1) by (simp add: thread_inv_def l same)
    qed (auto simp: live_def l cur same)
  qed
qed

end
