(* ===== verification/Kern_Thread_Life.thy ===== *)
theory Kern_Thread_Life
  imports Kern_Thread_Inv
begin

text \<open>
  The invariant of the thread system across the life of a thread: creation
  (\<^verbatim>\<open>thread_fork\<close>), dispatch, exit and the removal of zombies.
\<close>

section \<open>Zombies\<close>

lemma cv_destroy_done:
  "cv_destroy cv s = Some s' \<Longrightarrow> s' = s\<lparr> ks_cvs := ks_cvs s' \<rparr>"
  by (auto simp: cv_destroy_def ksimps Option.bind_eq_Some_conv split: if_splits)

lemma lock_destroy_done:
  "lock_destroy l s = Some s' \<Longrightarrow> s' = s\<lparr> ks_locks := ks_locks s' \<rparr> \<and> ks_locks s' \<subseteq>\<^sub>m ks_locks s"
  by (auto simp: lock_destroy_def ksimps Option.bind_eq_Some_conv map_le_def split: if_splits)

lemma thread_destroy_done:
  assumes "thread_destroy t s = Some s'"
  shows "\<exists>lk cv. s' = s\<lparr> ks_cvs := cv, ks_locks := lk, ks_threads := (ks_threads s)(t := None) \<rparr> \<and>
    lk \<subseteq>\<^sub>m ks_locks s \<and> ks_curthread s \<noteq> Some t \<and> t \<in> dom (ks_threads s)"
proof -
  from assms obtain th s1 s2 s3 where th: "ks_threads s t = Some th" "ks_curthread s \<noteq> Some t"
    and d: "cv_destroy (th_waitonexit th) s = Some s1" "cv_destroy (th_waittoexit th) s1 = Some s2"
      "lock_destroy (th_lk th) s2 = Some s3"
    and s': "s' = s3\<lparr> ks_threads := (ks_threads s3)(t := None) \<rparr>"
    unfolding thread_destroy_def
    by (fastforce simp: kassert_bind Option.bind_eq_Some_conv split: if_splits)
  have s12: "s2 = s\<lparr> ks_cvs := ks_cvs s2 \<rparr>"
    by (subst cv_destroy_done [OF d(2)], subst cv_destroy_done [OF d(1)]) simp
  have s3: "s3 = s2\<lparr> ks_locks := ks_locks s3 \<rparr>" "ks_locks s3 \<subseteq>\<^sub>m ks_locks s2"
    using lock_destroy_done [OF d(3)] by blast+
  have lk: "ks_locks s2 = ks_locks s" by (subst s12) simp
  have th3: "ks_threads s3 = ks_threads s" by (subst s3(1), subst s12) simp
  have "s' = s\<lparr> ks_cvs := ks_cvs s2, ks_locks := ks_locks s3, ks_threads := (ks_threads s)(t := None) \<rparr>"
    unfolding s' th3 by (subst s3(1), subst s12) simp
  then show ?thesis using s3(2) lk th by (intro exI conjI) auto
qed

lemma exorcise_from_done:
  assumes "array_invar zs" "i + n = length (array_list zs)"
    and "exorcise_from n zs (int i) s = Some s'"
  shows "\<exists>lk cv. s' = s\<lparr> ks_threads := ks_threads s |` (- set (drop i (array_list zs))),
      ks_locks := lk, ks_cvs := cv \<rparr> \<and> lk \<subseteq>\<^sub>m ks_locks s \<and>
      (\<forall>z\<in>set (drop i (array_list zs)). ks_curthread s \<noteq> Some z)"
  using assms(2,3)
proof (induction n arbitrary: i s)
  case 0
  then have "s' = s\<lparr> ks_threads := ks_threads s |` (- set (drop i (array_list zs))),
      ks_locks := ks_locks s, ks_cvs := ks_cvs s \<rparr>" by (simp add: restrict_map_def)
  with 0 show ?case by (intro exI [of _ "ks_locks s"] exI [of _ "ks_cvs s"]) simp
next
  case (Suc n)
  have i: "i < length (array_list zs)" using Suc(2) by simp
  let ?z = "array_list zs ! i"
  have dr: "drop i (array_list zs) = ?z # drop (Suc i) (array_list zs)"
    by (simp add: Cons_nth_drop_Suc i)
  from Suc(3) ka.get_int [OF assms(1) i] obtain s1 where
    d: "thread_destroy ?z s = Some s1" "ks_curthread s \<noteq> Some ?z"
    and rest: "exorcise_from n zs (int (Suc i)) s1 = Some s'"
    by (auto simp: ksimps Option.bind_eq_Some_conv add.commute split: if_splits)
  from thread_destroy_done [OF d(1)] obtain lk cv where
    s1: "s1 = s\<lparr> ks_cvs := cv, ks_locks := lk, ks_threads := (ks_threads s)(?z := None) \<rparr>"
    "lk \<subseteq>\<^sub>m ks_locks s" by blast
  have "Suc i + n = length (array_list zs)" using Suc(2) by simp
  from Suc(1) [OF this rest] obtain lk' cv' where
    s': "s' = s1\<lparr> ks_threads := ks_threads s1 |` (- set (drop (Suc i) (array_list zs))),
      ks_locks := lk', ks_cvs := cv' \<rparr>" "lk' \<subseteq>\<^sub>m ks_locks s1"
      "\<forall>z\<in>set (drop (Suc i) (array_list zs)). ks_curthread s1 \<noteq> Some z" by blast
  have "(ks_threads s)(?z := None) |` (- set (drop (Suc i) (array_list zs)))
      = ks_threads s |` (- set (drop i (array_list zs)))"
    by (auto simp: dr restrict_map_def fun_eq_iff)
  moreover have "lk' \<subseteq>\<^sub>m ks_locks s" using s1 s'(2) by (auto intro: map_le_trans)
  ultimately show ?case using s1 s' d(2) by (auto simp: dr)
qed

lemma array_clear:
  assumes "array_invar a" "array_setsize kmalloc_ok a 0 = Some (r, a')"
  shows "r = Inr ()" "array_invar a'" "array_list a' = []"
proof -
  have wf: "array_wf a" by (rule array_invar_wf [OF assms(1)])
  have n: "0 \<le> arr_max a" using wf by (simp add: array_wf_def)
  have a': "r = Inr () \<and> a' = (if 16 < arr_max a then a\<lparr> arr_v := None, arr_max := 0, arr_num := 0 \<rparr>
      else a\<lparr> arr_num := 0 \<rparr>)"
    using assms(2) n by (auto simp: array_setsize_def ksimps split: if_splits)
  then show "r = Inr ()" by simp
  have "0 \<le> arr_num a'" "arr_num a' \<le> arr_max a'" "arr_max a' < 2 ^ 27"
    "length (array_slots a') = nat (arr_max a')"
    using a' wf by (auto simp: array_wf_def array_slots_def)
  moreover have "take (nat (arr_num a')) (array_slots a') = map Some []"
    using a' by (auto simp: array_slots_def)
  ultimately show "array_invar a'" "array_list a' = []" using array_invarI by blast+
qed

text \<open>\<^verbatim>\<open>exorcise\<close> frees exactly the zombies, and nothing of the running thread.\<close>

lemma exorcise_done:
  assumes "tables_ok s" "exorcise kmalloc_ok s = Some s'"
  shows "tables_ok s' \<and> zb_l s' = [] \<and> rq_l s' = rq_l s \<and> sl_l s' = sl_l s \<and>
    (\<exists>lk cv zs. s' = s\<lparr> ks_threads := ks_threads s |` (- set (zb_l s)), ks_locks := lk, ks_cvs := cv,
        ks_zombies := zs \<rparr> \<and> lk \<subseteq>\<^sub>m ks_locks s)"
proof -
  from assms(1) obtain q sl zs where t: "ks_runqueue s = Some q" "q_invar q" "rq_l s = q_list q"
    "ks_sleepers s = Some sl" "array_invar sl" "sl_l s = array_list sl"
    "ks_zombies s = Some zs" "array_invar zs" "zb_l s = array_list zs"
    by (rule tables_okE)
  from assms(2) t(7) obtain s1 r zs' where
    e: "exorcise_from (nat (array_getnum zs)) zs (int 0) s = Some s1"
    and sz: "array_setsize kmalloc_ok zs 0 = Some (r, zs')" and s': "s' = s1\<lparr> ks_zombies := Some zs' \<rparr>"
    by (auto simp: exorcise_def ksimps Option.bind_eq_Some_conv split: if_splits)
  have "0 + nat (array_getnum zs) = length (array_list zs)"
    using ka.num_elems [OF t(8)] by simp
  from exorcise_from_done [OF t(8) this e] obtain lk cv where
    s1: "s1 = s\<lparr> ks_threads := ks_threads s |` (- set (array_list zs)), ks_locks := lk, ks_cvs := cv \<rparr>"
    "lk \<subseteq>\<^sub>m ks_locks s" by auto
  note zs' = array_clear [OF t(8) sz]
  have eq: "s' = s\<lparr> ks_threads := ks_threads s |` (- set (zb_l s)), ks_locks := lk, ks_cvs := cv,
        ks_zombies := Some zs' \<rparr>" by (simp add: s' s1(1) t(9))
  have "tables_ok s'" "zb_l s' = []" "rq_l s' = rq_l s" "sl_l s' = sl_l s"
    using t zs' by (simp_all add: eq tables_ok_def rq_l_def sl_l_def zb_l_def)
  with eq s1(2) show ?thesis by blast
qed

lemma exorcise_inv:
  assumes "thread_inv s" "exorcise kmalloc_ok s = Some s'" "ks_switching s = None"
  shows "thread_inv s'"
proof -
  have "tables_ok s" using assms(1) by (simp add: thread_inv_def)
  from exorcise_done [OF this assms(2)] obtain lk cv zs where
    l: "tables_ok s'" "zb_l s' = []" "rq_l s' = rq_l s" "sl_l s' = sl_l s"
    and s': "s' = s\<lparr> ks_threads := ks_threads s |` (- set (zb_l s)), ks_locks := lk, ks_cvs := cv,
        ks_zombies := zs \<rparr>" by blast
  have same: "cur_l s' = cur_l s" "ks_numthreads s' = ks_numthreads s" "ks_fresh s' = ks_fresh s"
    "ks_curthread s' = ks_curthread s" "ks_switching s' = ks_switching s"
    "ks_threads s' = ks_threads s |` (- set (zb_l s))"
    by (simp_all add: s' cur_l_def)
  have lv: "live s' = live s" by (simp add: live_def l same)
  have inv: "distinct (live s @ zb_l s)" "set (live s @ zb_l s) = dom (ks_threads s)"
    using assms(1) by (simp_all add: thread_inv_def)
  then have dom: "dom (ks_threads s') = set (live s')" by (auto simp: same lv)
  have "sleeps_on s' a t = sleeps_on s a t" if "t \<in> set (sl_l s)" for a t
  proof -
    have "t \<notin> set (zb_l s)" using inv(1) that by (auto simp: live_def)
    then show ?thesis by (simp add: sleeps_on_def same)
  qed
  then have "\<forall>t\<in>set (sl_l s'). \<exists>addr. sleeps_on s' addr t"
    using assms(1) by (simp add: l thread_inv_def)
  moreover have "\<forall>t\<in>dom (ks_threads s'). t < ks_fresh s'"
    using assms(1) by (auto simp: same thread_inv_def)
  ultimately show ?thesis
    using dom l lv same assms(1,3) inv by (simp add: thread_inv_def)
qed

section \<open>Dispatch\<close>

lemma dispatch_done:
  assumes "thread_inv s" "ks_curthread s = None" "dispatch s = Some s'"
  shows "thread_inv s' \<and> zb_l s' = zb_l s \<and> sl_l s' = sl_l s \<and>
    (case rq_l s of
       [] \<Rightarrow> s' = s
     | t # ts \<Rightarrow> ks_curthread s' = Some t \<and> rq_l s' = ts \<and> ks_switching s' = None \<and>
         (\<exists>q thr ii. s' = s\<lparr> ks_curthread := Some t, ks_switching := None, ks_runqueue := q,
             ks_threads := thr, ks_in_interrupt := ii \<rparr> \<and>
           (\<forall>u. map_option (\<lambda>th. th\<lparr> th_ininterrupt := 0 \<rparr>) (thr u) =
                map_option (\<lambda>th. th\<lparr> th_ininterrupt := 0 \<rparr>) (ks_threads s u))))"
proof -
  have tab: "tables_ok s" using assms(1) by (simp add: thread_inv_def)
  then obtain q sl zs where t: "ks_runqueue s = Some q" "q_invar q" "rq_l s = q_list q"
    "ks_sleepers s = Some sl" "array_invar sl" "sl_l s = array_list sl"
    "ks_zombies s = Some zs" "array_invar zs" "zb_l s = array_list zs"
    by (rule tables_okE)
  show ?thesis
  proof (cases "rq_l s")
    case Nil
    then have "q_empty q" using kq.isempty_contents [OF t(2)] t(3) by simp
    then have "s' = s"
      using assms(3) t(1) by (auto simp: dispatch_def scheduler_def ksimps split: if_splits)
    with Nil assms(1) show ?thesis by simp
  next
    case (Cons n ts)
    then have ne: "\<not> q_empty q" using kq.isempty_contents [OF t(2)] t(3) by simp
    then obtain q' where q': "q_remhead q = Some (n, q')" "q_invar q'" "q_list q' = ts"
      using kq.deq_nonempty [OF t(2)] Cons t(3) by (metis list.sel(1,3))
    obtain c where c: "ks_switching s = Some c" "c \<in> dom (ks_threads s)"
      using assms(1,2) by (auto simp: thread_inv_def)
    let ?s1 = "s\<lparr> ks_runqueue := Some q', ks_curthread := Some n, ks_switching := None \<rparr>"
    have md: "md_switch c n ?s1 = Some s'"
      using assms(3) t(1) ne q'(1) c(1)
      by (auto simp: dispatch_def scheduler_def ksimps split: if_splits)
    obtain thr ii where s': "s' = ?s1\<lparr> ks_threads := thr, ks_in_interrupt := ii \<rparr>"
      and eq: "\<forall>u. map_option (\<lambda>th. th\<lparr> th_ininterrupt := 0 \<rparr>) (thr u) =
                map_option (\<lambda>th. th\<lparr> th_ininterrupt := 0 \<rparr>) (ks_threads s u)"
    proof (cases "c = n")
      case True
      with md show ?thesis
        by (intro that [where thr = "ks_threads s" and ii = "ks_in_interrupt s"])
           (auto simp: md_switch_def)
    next
      case False
      with md show ?thesis
        by (auto simp: md_switch_def Option.bind_eq_Some_conv intro!: that)
    qed
    have dom: "dom thr = dom (ks_threads s)" and on: "sleeps_on s' a u = sleeps_on s a u" for a u
    proof -
      have *: "(thr u = None) = (ks_threads s u = None) \<and>
        (\<forall>th th'. thr u = Some th \<longrightarrow> ks_threads s u = Some th' \<longrightarrow> th_sleepaddr th = th_sleepaddr th')" for u
        using eq [rule_format, of u]
        by (cases "thr u"; cases "ks_threads s u") (auto dest: arg_cong [of _ _ th_sleepaddr])
      then show "dom thr = dom (ks_threads s)" unfolding dom_def by simp
      from * [of u] show "sleeps_on s' a u = sleeps_on s a u"
        by (auto simp: sleeps_on_def s' split: option.splits)
    qed
    have l: "rq_l s' = ts" "sl_l s' = sl_l s" "zb_l s' = zb_l s" "cur_l s' = [n]" "cur_l s = []"
      "tables_ok s'" "ks_numthreads s' = ks_numthreads s" "ks_fresh s' = ks_fresh s"
      "ks_curthread s' = Some n" "ks_switching s' = None" "dom (ks_threads s') = dom (ks_threads s)"
      using q' t assms(2) dom by (auto simp: s' where_defs tables_ok_def)
    have "thread_inv s'"
      by (rule thread_inv_move [OF assms(1) l(6)])
         (use assms(1) Cons in \<open>auto simp: live_def l on thread_inv_def\<close>)
    moreover have "s' = s\<lparr> ks_curthread := Some n, ks_switching := None, ks_runqueue := Some q',
             ks_threads := thr, ks_in_interrupt := ii \<rparr>" by (simp add: s')
    ultimately show ?thesis using Cons l eq by auto
  qed
qed

section \<open>Exit\<close>

lemma vop_decref_fields [simp]:
  "ks_runqueue (vop_decref v s) = ks_runqueue s" "ks_sleepers (vop_decref v s) = ks_sleepers s"
  "ks_zombies (vop_decref v s) = ks_zombies s" "ks_curthread (vop_decref v s) = ks_curthread s"
  "ks_switching (vop_decref v s) = ks_switching s" "ks_numthreads (vop_decref v s) = ks_numthreads s"
  "ks_fresh (vop_decref v s) = ks_fresh s" "ks_threads (vop_decref v s) = ks_threads s"
  "ks_locks (vop_decref v s) = ks_locks s" "ks_sems (vop_decref v s) = ks_sems s"
  "ks_curspl (vop_decref v s) = ks_curspl s"
  by (cases v; simp add: vop_decref_def)+

lemma vop_incref_fields [simp]:
  "ks_runqueue (vop_incref v s) = ks_runqueue s" "ks_sleepers (vop_incref v s) = ks_sleepers s"
  "ks_zombies (vop_incref v s) = ks_zombies s" "ks_curthread (vop_incref v s) = ks_curthread s"
  "ks_switching (vop_incref v s) = ks_switching s" "ks_numthreads (vop_incref v s) = ks_numthreads s"
  "ks_fresh (vop_incref v s) = ks_fresh s" "ks_threads (vop_incref v s) = ks_threads s"
  "ks_locks (vop_incref v s) = ks_locks s" "ks_sems (vop_incref v s) = ks_sems s"
  "ks_curspl (vop_incref v s) = ks_curspl s"
  by (cases v; simp add: vop_incref_def)+

text \<open>
  \<^verbatim>\<open>thread_exit\<close>: the thread goes to the zombies without its address space and current
  directory, so that \<^verbatim>\<open>thread_destroy\<close> will accept it; everything else stays.
\<close>

lemma thread_exit_done:
  assumes "tables_ok s" "thread_exit kmalloc_ok s = Some (flow, s')"
  obtains c th where "ks_curthread s = Some c" "ks_threads s c = Some th"
    "flow = Blocked [FSwitch, FDead]" "tables_ok s'"
    "rq_l s' = rq_l s" "sl_l s' = sl_l s" "zb_l s' = zb_l s @ [c]"
    "ks_threads s' = (ks_threads s)(c \<mapsto> th\<lparr> th_vmspace := None, th_cwd := None \<rparr>)"
    "ks_curthread s' = None" "ks_switching s' = Some c" "ks_numthreads s' = ks_numthreads s - 1"
    "ks_fresh s' = ks_fresh s" "ks_locks s' = ks_locks s" "ks_sems s' = ks_sems s"
    "ks_curspl s' = SPL_HIGH" "0 < ks_numthreads s"
proof -
  obtain c th where c: "ks_curthread s = Some c" "ks_threads s c = Some th"
    using assms(2) by (auto simp: thread_exit_def splhigh_def splx_def Let_def ksimps
        Option.bind_eq_Some_conv split: if_splits)
  define s1 where "s1 = s\<lparr> ks_curspl := SPL_HIGH \<rparr>"
  define s2 where "s2 = (case th_vmspace th of
         None \<Rightarrow> s1
       | Some as \<Rightarrow> (upd_thread c (\<lambda>th. th\<lparr> th_vmspace := None \<rparr>) s1)
                      \<lparr> ks_as_destroyed := as # ks_as_destroyed s1 \<rparr>)"
  define s3 where "s3 = upd_thread c (\<lambda>th. th\<lparr> th_cwd := None \<rparr>) (vop_decref (th_cwd th) s2)"
  define s4 where "s4 = s3\<lparr> ks_numthreads := ks_numthreads s3 - 1 \<rparr>"
  obtain f s'' where sw: "mi_switch kmalloc_ok S_ZOMB s4 = Some (f, s'')"
    and fl: "(case f of Done \<Rightarrow> None | Blocked fs \<Rightarrow> Some (Blocked (fs @ [FDead]), s'')) = Some (flow, s')"
    and n: "0 < ks_numthreads s3"
    using assms(2) c unfolding s4_def s3_def s2_def s1_def
    by (auto simp: thread_exit_def splhigh_def splx_def Let_def ksimps Option.bind_eq_Some_conv
        split: if_splits)
  have s2: "ks_runqueue s2 = ks_runqueue s" "ks_sleepers s2 = ks_sleepers s" "ks_zombies s2 = ks_zombies s"
    "ks_curthread s2 = ks_curthread s" "ks_numthreads s2 = ks_numthreads s" "ks_fresh s2 = ks_fresh s"
    "ks_locks s2 = ks_locks s" "ks_sems s2 = ks_sems s" "ks_curspl s2 = SPL_HIGH"
    "ks_threads s2 = (ks_threads s)(c \<mapsto> th\<lparr> th_vmspace := None \<rparr>)"
    using c by (auto simp: s2_def s1_def upd_thread_def fun_eq_iff split: option.splits)
  have s4: "ks_runqueue s4 = ks_runqueue s" "ks_sleepers s4 = ks_sleepers s" "ks_zombies s4 = ks_zombies s"
    "ks_curthread s4 = Some c" "ks_numthreads s4 = ks_numthreads s - 1" "ks_fresh s4 = ks_fresh s"
    "ks_locks s4 = ks_locks s" "ks_sems s4 = ks_sems s" "ks_curspl s4 = SPL_HIGH"
    "ks_threads s4 = (ks_threads s)(c \<mapsto> th\<lparr> th_vmspace := None, th_cwd := None \<rparr>)"
    using c by (auto simp: s4_def s3_def s2 upd_thread_def)
  have l: "rq_l s4 = rq_l s" "sl_l s4 = sl_l s" "zb_l s4 = zb_l s" "tables_ok s4"
    using assms(1) by (simp_all add: s4 where_defs tables_ok_def)
  from mi_switch_done [OF l(4) s4(4) sw] obtain q sl zs where m: "f = Blocked [FSwitch]" "tables_ok s''"
    "s'' = s4\<lparr> ks_curthread := None, ks_switching := Some c, ks_runqueue := q,
                        ks_sleepers := sl, ks_zombies := zs \<rparr>"
    "rq_l s'' = rq_l s4" "sl_l s'' = sl_l s4" "zb_l s'' = zb_l s4 @ [c]" by auto
  have eq: "flow = Blocked [FSwitch, FDead]" "s' = s''" using fl m(1) by auto
  have n': "0 < ks_numthreads s" using n by (simp add: s3_def s2)
  have f'': "ks_threads s'' = ks_threads s4" "ks_curthread s'' = None" "ks_switching s'' = Some c"
    "ks_numthreads s'' = ks_numthreads s4" "ks_fresh s'' = ks_fresh s4" "ks_locks s'' = ks_locks s4"
    "ks_sems s'' = ks_sems s4" "ks_curspl s'' = ks_curspl s4"
    by (simp_all add: m(3))
  show thesis
    by (rule that [OF c]) (simp_all add: eq m(2,4-6) l f'' s4 n')
qed

lemma thread_exit_inv:
  assumes "thread_inv s" "thread_exit kmalloc_ok s = Some (flow, s')"
  shows "thread_inv s'"
proof -
  have "tables_ok s" using assms(1) by (simp add: thread_inv_def)
  then obtain c th where e: "ks_curthread s = Some c" "ks_threads s c = Some th" "tables_ok s'"
    "rq_l s' = rq_l s" "sl_l s' = sl_l s" "zb_l s' = zb_l s @ [c]"
    "ks_threads s' = (ks_threads s)(c \<mapsto> th\<lparr> th_vmspace := None, th_cwd := None \<rparr>)"
    "ks_curthread s' = None" "ks_switching s' = Some c" "ks_numthreads s' = ks_numthreads s - 1"
    "ks_fresh s' = ks_fresh s" by (rule thread_exit_done [OF _ assms(2)])
  have cur: "cur_l s = [c]" "cur_l s' = []" using e by (simp_all add: cur_l_def)
  have on: "sleeps_on s' a t = sleeps_on s a t" for a t
    using e(2) by (auto simp: sleeps_on_def e(7))
  show ?thesis
    by (rule thread_inv_move [OF assms(1) e(3)])
       (use assms(1) e(2) in \<open>auto simp: live_def cur e(4-6,8-11) on e(7) thread_inv_def\<close>)
qed

section \<open>Creation\<close>

lemma lock_create_done:
  assumes "lock_create a b s = (r, s')"
  shows "\<exists>lk n. s' = s\<lparr> ks_locks := lk, ks_fresh := n \<rparr> \<and> ks_fresh s \<le> n \<and>
    (\<forall>l. lk l = ks_locks s l \<or> ks_fresh s \<le> l \<and> l < n \<and> lk l = Some None)"
proof (cases "a \<and> b")
  case True
  with assms show ?thesis
    by (intro exI [of _ "(ks_locks s)(ks_fresh s \<mapsto> None)"] exI [of _ "ks_fresh s + 1"])
       (auto simp: lock_create_def)
next
  case False
  with assms show ?thesis
    by (intro exI [of _ "ks_locks s"] exI [of _ "ks_fresh s"]) (auto simp: lock_create_def)
qed

lemma cv_create_done:
  assumes "cv_create a b s = (r, s')"
  shows "\<exists>cv n. s' = s\<lparr> ks_cvs := cv, ks_fresh := n \<rparr> \<and> ks_fresh s \<le> n"
proof (cases "a \<and> b")
  case True
  with assms show ?thesis
    by (intro exI [of _ "insert (ks_fresh s) (ks_cvs s)"] exI [of _ "ks_fresh s + 1"])
       (auto simp: cv_create_def)
next
  case False
  with assms show ?thesis
    by (intro exI [of _ "ks_cvs s"] exI [of _ "ks_fresh s"]) (auto simp: cv_create_def)
qed

lemma thread_create_done:
  assumes "thread_create mem name s = Some (r, s')"
  shows "(r = None \<and> s' = s) \<or>
    (\<exists>th lk cv n p. r = Some (ks_fresh s) \<and> th_sleepaddr th = None \<and>
      s' = s\<lparr> ks_fresh := n, ks_locks := lk, ks_cvs := cv, ks_pid_assign := p,
             ks_threads := (ks_threads s)(ks_fresh s \<mapsto> th) \<rparr> \<and>
      th_pid th = ks_pid_assign s \<and> p = ks_pid_assign s + 1 \<and>
      ks_fresh s < n \<and>
      (\<forall>l. lk l = ks_locks s l \<or> ks_fresh s < l \<and> l < n \<and> lk l = Some None))"
proof (cases "mem 0 \<and> mem 1")
  case True
  let ?s0 = "s\<lparr> ks_fresh := ks_fresh s + 1 \<rparr>"
  obtain lk s1 where l: "lock_create (mem 2) (mem 3) ?s0 = (lk, s1)" by fastforce
  obtain c1 s2 where c1: "cv_create (mem 4) (mem 5) s1 = (c1, s2)" by fastforce
  obtain c2 s3 where c2: "cv_create (mem 6) (mem 7) s2 = (c2, s3)" by fastforce
  from lock_create_done [OF l] obtain lks n1 where
    s1: "s1 = s\<lparr> ks_locks := lks, ks_fresh := n1 \<rparr>" "ks_fresh s < n1"
    "\<forall>l. lks l = ks_locks s l \<or> ks_fresh s < l \<and> l < n1 \<and> lks l = Some None"
    by (auto simp: Suc_le_eq)
  from cv_create_done [OF c1] obtain cv1 n2 where
    s2: "s2 = s1\<lparr> ks_cvs := cv1, ks_fresh := n2 \<rparr>" "n1 \<le> n2" using s1(1) by auto
  from cv_create_done [OF c2] obtain cv2 n3 where
    s3: "s3 = s2\<lparr> ks_cvs := cv2, ks_fresh := n3 \<rparr>" "n2 \<le> n3" using s2(1) by auto
  have s3': "s3 = s\<lparr> ks_fresh := n3, ks_locks := lks, ks_cvs := cv2 \<rparr>" by (simp add: s3 s2 s1(1))
  let ?th = "\<lparr> th_name = name, th_sleepaddr = None, th_stack = None, th_lk = lk,
                    th_waitonexit = c1, th_waittoexit = c2,
                    th_parent = ks_curthread s, th_child = replicate 20 None,
                    th_exitcode = 100, th_status = 0, th_pid = ks_pid_assign s,
                    th_vmspace = None, th_cwd = None, th_ininterrupt = 0, th_kont = [] \<rparr>"
  have "r = Some (ks_fresh s)" "s' = s\<lparr> ks_fresh := n3, ks_locks := lks, ks_cvs := cv2,
      ks_pid_assign := ks_pid_assign s + 1, ks_threads := (ks_threads s)(ks_fresh s \<mapsto> ?th) \<rparr>"
    using assms True l c1 c2 s3'
    by (auto simp: thread_create_def Let_def splhigh_def splx_def ksimps split: if_splits)
  moreover have "ks_fresh s < n3" using s1(2) s2(2) s3(2) by simp
  moreover have "\<forall>l. lks l = ks_locks s l \<or> ks_fresh s < l \<and> l < n3 \<and> lks l = Some None"
    using s1(3) s2(2) s3(2) by fastforce
  ultimately show ?thesis
    by (intro disjI2 exI [of _ ?th] exI [of _ lks] exI [of _ cv2] exI [of _ n3]
        exI [of _ "ks_pid_assign s + 1"]) simp
next
  case False
  with assms show ?thesis by (auto simp: thread_create_def)
qed

text \<open>The lists are short enough for every size computed in \<^verbatim>\<open>thread_fork\<close>.\<close>

lemma live_bound:
  assumes "tables_ok s"
  shows "int (length (live s)) + 1 < 2 ^ 29"
proof -
  from assms obtain q sl where t: "q_invar q" "rq_l s = q_list q" "array_invar sl"
    "sl_l s = array_list sl" by (auto elim: tables_okE)
  have "int (length (q_list q)) < 2 ^ 27" using t(1) by (simp add: q_invar_def q_rep_def)
  moreover have "int (length (array_list sl)) < 2 ^ 27"
    using array_invar_wf [OF t(3)] by (simp add: array_wf_def)
  moreover have "length (cur_l s) \<le> 1" by (simp add: cur_l_def split: option.splits)
  ultimately show ?thesis by (simp add: live_def t)
qed

lemma q_preallocate_done:
  assumes "q_invar q" "n \<le> 2 ^ 29" "q_preallocate kmalloc_ok q n = Some (r, q')"
  shows "q_invar q'" "q_list q' = q_list q" "q_size q \<le> q_size q'" "r = Inr () \<longrightarrow> n \<le> q_size q'"
proof -
  have rep: "q_rep q (q_list q)" using assms(1) by (simp add: q_invar_def)
  have "0 < q_size q" using rep by (simp add: q_rep_def)
  then have "q_preallocate kmalloc_ok q n =
      (if q_size q < n then q_grow kmalloc_ok q n else Some (Inr (), q))"
    by (simp add: q_preallocate_def ksimps)
  with q_grow_rep [OF rep assms(2), of 0 kmalloc_ok] assms(1,3)
  show "q_invar q'" "q_list q' = q_list q" "q_size q \<le> q_size q'" "r = Inr () \<longrightarrow> n \<le> q_size q'"
    by (auto simp: q_grow_def q_rep_invar split: if_splits)
qed

lemma array_preallocate_done:
  assumes "array_invar a" "n < 2 ^ 29" "array_preallocate kmalloc_ok a n = Some (r, a')"
  shows "array_invar a'" "array_list a' = array_list a" "arr_max a \<le> arr_max a'"
    "r = Inr () \<longrightarrow> n \<le> arr_max a'"
proof -
  have "array_invar a' \<and> array_list a' = array_list a \<and> arr_max a \<le> arr_max a' \<and>
    (r = Inr () \<longrightarrow> n \<le> arr_max a')"
  proof (cases r)
    case (Inr u)
    then show ?thesis using array_preallocate_invar [OF assms(1,2), of kmalloc_ok a'] assms(3) by simp
  next
    case (Inl e)
    then show ?thesis
      using assms by (cases rule: array_preallocate_cases [OF array_invar_wf [OF assms(1)] assms(2),
          of kmalloc_ok]) auto
  qed
  then show "array_invar a'" "array_list a' = array_list a" "arr_max a \<le> arr_max a'"
    "r = Inr () \<longrightarrow> n \<le> arr_max a'" by auto
qed

text \<open>Room for so many threads in the sleepers array.\<close>

definition sleep_room :: "ksys \<Rightarrow> int" where
  "sleep_room s = (case ks_sleepers s of None \<Rightarrow> 0 | Some sl \<Rightarrow> arr_max sl)"

definition queue_slots :: "ksys \<Rightarrow> int" where
  "queue_slots s = (case ks_runqueue s of None \<Rightarrow> 0 | Some q \<Rightarrow> q_size q)"

lemma fork_prepare_done:
  assumes "tables_ok s" "n < 2 ^ 29" "fork_prepare mem t n s = Some (r, s')"
  shows "tables_ok s' \<and> sl_l s' = sl_l s \<and> zb_l s' = zb_l s \<and>
    rq_l s' = (if r = Inr () then rq_l s @ [t] else rq_l s) \<and>
    (\<exists>q sl zs. s' = s\<lparr> ks_sleepers := sl, ks_zombies := zs, ks_runqueue := q \<rparr>) \<and>
    sleep_room s \<le> sleep_room s' \<and> queue_slots s \<le> queue_slots s' \<and>
    (r = Inr () \<longrightarrow> n \<le> sleep_room s' \<and> n \<le> queue_slots s')"
proof -
  from assms(1) obtain q sl zs where t: "ks_runqueue s = Some q" "q_invar q" "rq_l s = q_list q"
    "ks_sleepers s = Some sl" "array_invar sl" "sl_l s = array_list sl"
    "ks_zombies s = Some zs" "array_invar zs" "zb_l s = array_list zs"
    by (rule tables_okE)
  have result: ?thesis if eq: "s' = s\<lparr> ks_sleepers := Some sl', ks_zombies := Some zs', ks_runqueue := Some q' \<rparr>"
    and inv: "array_invar sl'" "array_list sl' = array_list sl" "array_invar zs'"
      "array_list zs' = array_list zs" "q_invar q'"
      "q_list q' = (if r = Inr () then q_list q @ [t] else q_list q)"
      "arr_max sl \<le> arr_max sl'" "q_size q \<le> q_size q'"
      "r = Inr () \<longrightarrow> n \<le> arr_max sl' \<and> n \<le> q_size q'" for sl' zs' q'
    using t inv unfolding eq
    by (auto simp: tables_ok_def rq_l_def sl_l_def zb_l_def sleep_room_def queue_slots_def)
  obtain r1 sl' where a1: "array_preallocate (\<lambda>_. mem 9) sl n = Some (r1, sl')"
    using assms(3) t(4) by (auto simp: fork_prepare_def Let_def Option.bind_eq_Some_conv)
  note sl' = array_preallocate_done [OF t(5) assms(2) a1]
  show ?thesis
  proof (cases r1)
    case (Inl e)
    then have "s' = s\<lparr> ks_sleepers := Some sl' \<rparr>" "r \<noteq> Inr ()"
      using assms(3) t(4) a1 by (auto simp: fork_prepare_def Let_def)
    note eq = this
        show ?thesis by (rule result [where sl' = sl' and zs' = zs and q' = q]) (use eq sl' t in simp_all)
  next
    case (Inr u)
    obtain r2 zs' where a2: "array_preallocate (\<lambda>_. mem 10) zs n = Some (r2, zs')"
      using assms(3) t(4,7) a1 Inr by (auto simp: fork_prepare_def Let_def Option.bind_eq_Some_conv)
    note zs' = array_preallocate_done [OF t(8) assms(2) a2]
    show ?thesis
    proof (cases r2)
      case (Inl e)
      then have "s' = s\<lparr> ks_sleepers := Some sl', ks_zombies := Some zs' \<rparr>" "r \<noteq> Inr ()"
        using assms(3) t(4,7) a1 a2 Inr by (auto simp: fork_prepare_def Let_def)
      note eq = this
        show ?thesis by (rule result [where sl' = sl' and zs' = zs' and q' = q]) (use eq sl' zs' t in simp_all)
    next
      case r2: (Inr v)
      let ?s = "s\<lparr> ks_sleepers := Some sl', ks_zombies := Some zs' \<rparr>"
      obtain r3 q1 where a3: "q_preallocate (\<lambda>_. mem 11) q n = Some (r3, q1)"
        and spl: "0 < ks_curspl s"
        using assms(3) t(1,4,7) a1 a2 Inr r2
        by (auto simp: fork_prepare_def Let_def scheduler_preallocate_def ksimps Option.bind_eq_Some_conv
            split: if_splits)
      have "n \<le> 2 ^ 29" using assms(2) by simp
      note q1 = q_preallocate_done [OF t(2) this a3]
      have sp: "scheduler_preallocate (\<lambda>_. mem 11) n ?s = Some (r3, ?s\<lparr> ks_runqueue := Some q1 \<rparr>)"
        using t(1) a3 spl by (simp add: scheduler_preallocate_def ksimps)
      show ?thesis
      proof (cases r3)
        case (Inl e)
        then have "s' = ?s\<lparr> ks_runqueue := Some q1 \<rparr>" "r \<noteq> Inr ()"
          using assms(3) t(4,7) a1 a2 Inr r2 sp by (auto simp: fork_prepare_def Let_def)
        note eq = this
        show ?thesis by (rule result [where sl' = sl' and zs' = zs' and q' = q1]) (use eq sl' zs' q1 t in simp_all)
      next
        case r3: (Inr w)
        then have mr: "make_runnable (\<lambda>_. mem 12) t (?s\<lparr> ks_runqueue := Some q1 \<rparr>) = Some (r, s')"
          using assms(3) t(4,7) a1 a2 Inr r2 sp by (auto simp: fork_prepare_def Let_def)
        show ?thesis
        proof (cases r)
          case r: (Inr x)
          have "ks_runqueue (?s\<lparr> ks_runqueue := Some q1 \<rparr>) = Some q1" by simp
          from make_runnable_done [OF this q1(1), of "\<lambda>_. mem 12" t s'] mr r obtain q2 where
            "s' = ?s\<lparr> ks_runqueue := Some q2 \<rparr>" "q_invar q2" "q_list q2 = q_list q1 @ [t]"
            "q_size q1 \<le> q_size q2" by (auto simp: old.unit.exhaust)
          note eq = this
        show ?thesis by (rule result [where sl' = sl' and zs' = zs' and q' = q2]) (use eq sl' zs' q1 t r r3 Inr in simp_all)
        next
          case r: (Inl e)
          have "q_rep q1 (q_list q1)" using q1(1) by (simp add: q_invar_def)
          from q_addtail_rep [OF this, of "\<lambda>_. mem 12" 0 t] mr r
          have "s' = ?s\<lparr> ks_runqueue := Some q1 \<rparr>"
            by (auto simp: make_runnable_def q_addtail_def numeral_2_eq_2 ksimps spl
                Option.bind_eq_Some_conv)
          note eq = this
        show ?thesis by (rule result [where sl' = sl' and zs' = zs' and q' = q1]) (use eq sl' zs' q1 t r in simp_all)
        qed
      qed
    qed
  qed
qed

lemma thread_fork_done:
  assumes inv: "thread_inv s" and fork: "thread_fork mem name s = Some (r, s')"
  shows "tables_ok s' \<and> sl_l s' = sl_l s \<and> zb_l s' = zb_l s \<and> ks_curthread s' = ks_curthread s \<and>
    ks_switching s' = ks_switching s \<and> ks_fresh s \<le> ks_fresh s' \<and> ks_sems s' = ks_sems s \<and>
    ks_curspl s' = ks_curspl s \<and>
    (\<forall>l. ks_locks s' l = ks_locks s l \<or> ks_fresh s \<le> l \<and> l < ks_fresh s' \<and> ks_locks s' l = Some None) \<and>
    (case r of
       Inl e \<Rightarrow> rq_l s' = rq_l s \<and> ks_numthreads s' = ks_numthreads s \<and>
         ks_threads s' = ks_threads s
     | Inr t \<Rightarrow> t = ks_fresh s \<and> t < ks_fresh s' \<and> rq_l s' = rq_l s @ [t] \<and>
         ks_numthreads s' = ks_numthreads s + 1 \<and>
         ks_numthreads s' \<le> sleep_room s' \<and> ks_numthreads s' \<le> queue_slots s' \<and>
         (\<exists>c me th. ks_curthread s = Some c \<and> ks_threads s c = Some me \<and>
            ks_threads s' = (ks_threads s)(t \<mapsto> th,
                c \<mapsto> me\<lparr> th_child := add_child t (th_child me) \<rparr>) \<and>
            th_parent th = Some c \<and> th_pid th = ks_pid_assign s \<and> th_kont th = [FStart] \<and>
            th_cwd th = th_cwd me \<and> th_sleepaddr th = None))"
proof -
  have tab: "tables_ok s" and fr: "\<forall>t\<in>dom (ks_threads s). t < ks_fresh s"
    using inv by (simp_all add: thread_inv_def)
  have new: "ks_threads s (ks_fresh s) = None" using fr by (meson domIff less_irrefl)
  obtain cr s1 where cr: "thread_create mem name s = Some (cr, s1)"
    using fork by (auto simp: thread_fork_def Option.bind_eq_Some_conv)
  from thread_create_done [OF cr] show ?thesis
  proof (elim disjE exE conjE)
    assume "cr = None" "s1 = s"
    with fork cr tab show ?thesis by (auto simp: thread_fork_def)
  next
    fix th lk cv n p
    assume c: "cr = Some (ks_fresh s)" "th_sleepaddr th = None"
      "s1 = s\<lparr> ks_fresh := n, ks_locks := lk, ks_cvs := cv, ks_pid_assign := p,
             ks_threads := (ks_threads s)(ks_fresh s \<mapsto> th) \<rparr>"
      "th_pid th = ks_pid_assign s" "ks_fresh s < n"
      "\<forall>l. lk l = ks_locks s l \<or> ks_fresh s < l \<and> l < n \<and> lk l = Some None"
    let ?t = "ks_fresh s"
    show ?thesis
    proof (cases "mem 8")
      case False
      with fork cr c(1) have "r = Inl ENOMEM" "s' = s1\<lparr> ks_threads := (ks_threads s1)(?t := None) \<rparr>"
        by (auto simp: thread_fork_def)
      with c tab new show ?thesis
        by (auto simp: tables_ok_def rq_l_def sl_l_def zb_l_def fun_upd_idem)
    next
      case True
      with fork cr c(1,3) obtain cur me where cur: "ks_curthread s = Some cur"
        "((ks_threads s)(?t \<mapsto> th)) cur = Some me"
        by (auto simp: thread_fork_def Option.bind_eq_Some_conv Let_def)
      have "cur \<in> dom (ks_threads s)" using inv cur(1) by (auto simp: thread_inv_def live_def cur_l_def)
      then have ne: "cur \<noteq> ?t" using fr by auto
      then have me: "ks_threads s cur = Some me" using cur(2) by simp
      define s2 where "s2 = upd_thread ?t (\<lambda>th. th\<lparr> th_stack := Some stack_magic, th_cwd := th_cwd me,
                   th_ininterrupt := 0, th_kont := [FStart] \<rparr>) (vop_incref (th_cwd me) s1)"
      define s3 where "s3 = s2\<lparr> ks_curspl := SPL_HIGH \<rparr>"
      define th' where "th' = th\<lparr> th_stack := Some stack_magic, th_cwd := th_cwd me,
                   th_ininterrupt := 0, th_kont := [FStart] \<rparr>"
      have s3: "ks_threads s3 = (ks_threads s)(?t \<mapsto> th')" "ks_numthreads s3 = ks_numthreads s"
        "ks_fresh s3 = n" "ks_locks s3 = lk" "ks_sems s3 = ks_sems s" "ks_curthread s3 = ks_curthread s"
        "ks_switching s3 = ks_switching s" "ks_runqueue s3 = ks_runqueue s"
        "ks_sleepers s3 = ks_sleepers s" "ks_zombies s3 = ks_zombies s" "ks_curspl s2 = ks_curspl s"
        by (simp_all add: s3_def s2_def c(3) upd_thread_def th'_def fun_eq_iff)
      have l3: "rq_l s3 = rq_l s" "sl_l s3 = sl_l s" "zb_l s3 = zb_l s" "tables_ok s3"
        using tab by (simp_all add: s3 rq_l_def sl_l_def zb_l_def tables_ok_def)
      have "ks_numthreads s = int (length (live s))" using inv by (simp add: thread_inv_def)
      with live_bound [OF tab] have nt: "ks_numthreads s + 1 < 2 ^ 29" by simp
      have cur1: "ks_curthread s1 = Some cur" "ks_threads s1 cur = Some me"
        using cur by (simp_all add: c(3))
      have "thread_fork mem name s = do {
          k \<leftarrow> cint (ks_numthreads s3 + 1);
          (r', s4) \<leftarrow> fork_prepare mem ?t k s3;
          case r' of
            Inl e \<Rightarrow> Some (Inl e, (vop_decref (th_cwd me) (s4\<lparr> ks_curspl := ks_curspl s2 \<rparr>))
              \<lparr> ks_threads := (ks_threads (vop_decref (th_cwd me) (s4\<lparr> ks_curspl := ks_curspl s2 \<rparr>)))
                  (?t := None) \<rparr>)
          | Inr _ \<Rightarrow> Some (Inr ?t,
              (upd_thread cur (\<lambda>th. th\<lparr> th_child := add_child ?t (th_child th) \<rparr>)
                (upd_thread ?t (\<lambda>th. th\<lparr> th_parent := Some cur \<rparr>) (s4\<lparr> ks_numthreads := k \<rparr>)))
              \<lparr> ks_curspl := ks_curspl s2 \<rparr>) }"
        unfolding thread_fork_def splhigh_def splx_def Let_def cr c(1) s3_def s2_def
        by (simp add: cur1 True cong: sum.case_cong)
      note eq = this [unfolded s3(2,11)]
      from fork [unfolded eq]
      obtain r' s4 where prep: "fork_prepare mem ?t (ks_numthreads s + 1) s3 = Some (r', s4)"
        and fin: "(case r' of
            Inl e \<Rightarrow> Some (Inl e, (vop_decref (th_cwd me) (s4\<lparr> ks_curspl := ks_curspl s \<rparr>))
              \<lparr> ks_threads := (ks_threads (vop_decref (th_cwd me) (s4\<lparr> ks_curspl := ks_curspl s \<rparr>)))
                  (?t := None) \<rparr>)
          | Inr _ \<Rightarrow> Some (Inr ?t,
              (upd_thread cur (\<lambda>th. th\<lparr> th_child := add_child ?t (th_child th) \<rparr>)
                (upd_thread ?t (\<lambda>th. th\<lparr> th_parent := Some cur \<rparr>)
                  (s4\<lparr> ks_numthreads := ks_numthreads s + 1 \<rparr>)))
              \<lparr> ks_curspl := ks_curspl s \<rparr>)) = Some (r, s')"
        by (auto simp: cint_bind Option.bind_eq_Some_conv split: if_splits)
      from fork_prepare_done [OF l3(4) nt prep] obtain q sl zs where
        f: "tables_ok s4" "sl_l s4 = sl_l s" "zb_l s4 = zb_l s"
        "rq_l s4 = (if r' = Inr () then rq_l s @ [?t] else rq_l s)"
        "s4 = s3\<lparr> ks_sleepers := sl, ks_zombies := zs, ks_runqueue := q \<rparr>"
        "r' = Inr () \<longrightarrow> ks_numthreads s + 1 \<le> sleep_room s4 \<and> ks_numthreads s + 1 \<le> queue_slots s4"
        by (auto simp: l3)
      have s4: "ks_threads s4 = (ks_threads s)(?t \<mapsto> th')" "ks_numthreads s4 = ks_numthreads s"
        "ks_fresh s4 = n" "ks_locks s4 = lk" "ks_sems s4 = ks_sems s" "ks_curthread s4 = ks_curthread s"
        "ks_switching s4 = ks_switching s"
        by (simp_all add: f(5) s3)
      show ?thesis
      proof (cases r')
        case (Inl e)
        then have s': "r = Inl e" "s' = (vop_decref (th_cwd me) (s4\<lparr> ks_curspl := ks_curspl s \<rparr>))
            \<lparr> ks_threads := (ks_threads s4)(?t := None) \<rparr>" using fin by simp_all
        have "ks_threads s' = ks_threads s" using new by (simp add: s'(2) s4(1) fun_upd_idem)
        moreover have "tables_ok s'" "rq_l s' = rq_l s4" "sl_l s' = sl_l s4" "zb_l s' = zb_l s4"
          using f(1) by (simp_all add: s'(2) tables_ok_def rq_l_def sl_l_def zb_l_def)
        moreover have "ks_curthread s' = ks_curthread s" "ks_switching s' = ks_switching s"
          "ks_fresh s' = n" "ks_sems s' = ks_sems s" "ks_locks s' = lk"
          "ks_numthreads s' = ks_numthreads s" "ks_curspl s' = ks_curspl s"
          by (simp_all add: s'(2) s4)
        ultimately show ?thesis using c(5,6) f(2,3,4) s'(1) Inl by auto
      next
        case (Inr u)
        define s5 where "s5 = upd_thread cur (\<lambda>th. th\<lparr> th_child := add_child ?t (th_child th) \<rparr>)
           (upd_thread ?t (\<lambda>th. th\<lparr> th_parent := Some cur \<rparr>)
                         (s4\<lparr> ks_numthreads := ks_numthreads s + 1 \<rparr>))"
        have s': "r = Inr ?t" "s' = s5\<lparr> ks_curspl := ks_curspl s \<rparr>"
          using fin Inr by (simp_all add: s5_def)
        have "ks_threads s' = (ks_threads s)(?t \<mapsto> th'\<lparr> th_parent := Some cur \<rparr>,
                cur \<mapsto> me\<lparr> th_child := add_child ?t (th_child me) \<rparr>)"
          using ne me by (simp add: s'(2) s5_def upd_thread_def s4(1) fun_eq_iff)
        moreover have "tables_ok s'" "rq_l s' = rq_l s4" "sl_l s' = sl_l s4" "zb_l s' = zb_l s4"
          "sleep_room s' = sleep_room s4" "queue_slots s' = queue_slots s4"
          using f(1) by (simp_all add: s'(2) s5_def tables_ok_def rq_l_def sl_l_def zb_l_def
              sleep_room_def queue_slots_def)
        moreover have "ks_curthread s' = ks_curthread s" "ks_switching s' = ks_switching s"
          "ks_fresh s' = n" "ks_sems s' = ks_sems s" "ks_locks s' = lk"
          "ks_numthreads s' = ks_numthreads s + 1" "ks_curspl s' = ks_curspl s"
          by (simp_all add: s'(2) s5_def s4)
        moreover have "th_parent (th'\<lparr> th_parent := Some cur \<rparr>) = Some cur"
          "th_pid (th'\<lparr> th_parent := Some cur \<rparr>) = ks_pid_assign s"
          "th_kont (th'\<lparr> th_parent := Some cur \<rparr>) = [FStart]"
          "th_cwd (th'\<lparr> th_parent := Some cur \<rparr>) = th_cwd me"
          "th_sleepaddr (th'\<lparr> th_parent := Some cur \<rparr>) = None"
          by (simp_all add: th'_def c(2,4))
        ultimately show ?thesis using c(5,6) f(2,3,4,6) s'(1) Inr cur(1) me by auto
      qed
    qed
  qed
qed

end
