(* ===== verification/Kern_Synch.thy ===== *)
theory Kern_Synch
  imports Kern_Thread_Life
begin

text \<open>
  Semaphores, locks and condition variables (\<^verbatim>\<open>thread/synch.c\<close>), the clock
  (\<^verbatim>\<open>thread/hardclock.c\<close>), the interrupt path of \<^verbatim>\<open>mips_trap\<close> and \<^verbatim>\<open>mips_interrupt\<close>, and the
  machine made of all of them: a step is a kernel call of the running thread, a timer
  interrupt, or the scheduler switching to a thread, which then runs to the end of the
  calls it was blocked in or blocks again. With interrupts off between \<^verbatim>\<open>splhigh\<close> and
  \<^verbatim>\<open>thread_sleep\<close> each of these is atomic on the one processor.
\<close>

section \<open>Sleeping inside a loop\<close>

text \<open>
  A caller of \<^verbatim>\<open>thread_sleep\<close> that has more to do leaves a frame of its own. With a running
  thread \<^verbatim>\<open>thread_sleep\<close> always gives up the processor, so the other case does not arise.
\<close>

definition block_with :: "frame \<Rightarrow> (flow \<times> ksys) option \<Rightarrow> (flow \<times> ksys) option" where
  "block_with f r = do {
     (flow, s) \<leftarrow> r;
     case flow of Done \<Rightarrow> None | Blocked fs \<Rightarrow> Some (Blocked (fs @ [f]), s)
   }"

lemma block_with_Some:
  "block_with f r = Some (flow, s) \<longleftrightarrow> (\<exists>fs. r = Some (Blocked fs, s) \<and> flow = Blocked (fs @ [f]))"
  by (cases r) (auto simp: block_with_def split: flow.splits prod.splits)

section \<open>Semaphores\<close>

definition sem_create :: "bool \<Rightarrow> bool \<Rightarrow> int \<Rightarrow> ksys \<Rightarrow> (nat option \<times> ksys) option" where
  "sem_create ok_sem ok_name initial_count s = do {
     kassert (0 \<le> initial_count);
     if ok_sem \<and> ok_name
     then Some (Some (ks_fresh s),
       s\<lparr> ks_sems := (ks_sems s)(ks_fresh s \<mapsto> initial_count), ks_fresh := ks_fresh s + 1 \<rparr>)
     else Some (None, s)
   }"

definition sem_destroy :: "nat \<Rightarrow> ksys \<Rightarrow> ksys option" where
  "sem_destroy sem s = do {
     kassert (ks_sems s sem \<noteq> None);
     let (spl, s1) = splhigh s;
     b \<leftarrow> thread_hassleepers (Sem sem) s1;
     kassert (\<not> b);
     let s2 = snd (splx spl s1);
     Some (s2\<lparr> ks_sems := (ks_sems s2)(sem := None) \<rparr>)
   }"

text \<open>
  One turn of the loop of \<^verbatim>\<open>P\<close>; the next turn is the frame \<open>FP\<close>.
\<close>

definition P_loop :: "(u32 \<Rightarrow> bool) \<Rightarrow> nat \<Rightarrow> int \<Rightarrow> ksys \<Rightarrow> (flow \<times> ksys) option" where
  "P_loop kmalloc_ok sem spl s = do {
     count \<leftarrow> ks_sems s sem;
     if count = 0
     then block_with (FP sem spl) (thread_sleep kmalloc_ok (Sem sem) s)
     else do {
       kassert (0 < count);
       Some (Done, snd (splx spl (s\<lparr> ks_sems := (ks_sems s)(sem \<mapsto> count - 1) \<rparr>)))
     }
   }"

definition sem_P :: "(u32 \<Rightarrow> bool) \<Rightarrow> nat \<Rightarrow> ksys \<Rightarrow> (flow \<times> ksys) option" where
  "sem_P kmalloc_ok sem s = do {
     kassert (ks_sems s sem \<noteq> None);
     kassert (ks_in_interrupt s = 0);
     let (spl, s1) = splhigh s;
     P_loop kmalloc_ok sem spl s1
   }"

definition sem_V :: "(u32 \<Rightarrow> bool) \<Rightarrow> nat \<Rightarrow> ksys \<Rightarrow> ksys option" where
  "sem_V kmalloc_ok sem s = do {
     count \<leftarrow> ks_sems s sem;
     let (spl, s1) = splhigh s;
     c \<leftarrow> cint (count + 1);
     kassert (0 < c);
     s2 \<leftarrow> thread_wakeup kmalloc_ok (Sem sem) (s1\<lparr> ks_sems := (ks_sems s1)(sem \<mapsto> c) \<rparr>);
     Some (snd (splx spl s2))
   }"

section \<open>Locks\<close>

definition acquire_loop :: "(u32 \<Rightarrow> bool) \<Rightarrow> nat \<Rightarrow> int \<Rightarrow> ksys \<Rightarrow> (flow \<times> ksys) option" where
  "acquire_loop kmalloc_ok lock spl s = do {
     own \<leftarrow> ks_locks s lock;
     if own \<noteq> None
     then block_with (FAcquire lock spl) (thread_sleep kmalloc_ok (Lock lock) s)
     else Some (Done, snd (splx spl (s\<lparr> ks_locks := (ks_locks s)(lock \<mapsto> ks_curthread s) \<rparr>)))
   }"

definition lock_acquire :: "(u32 \<Rightarrow> bool) \<Rightarrow> nat \<Rightarrow> ksys \<Rightarrow> (flow \<times> ksys) option" where
  "lock_acquire kmalloc_ok lock s = do {
     kassert (ks_locks s lock \<noteq> None);
     let (interrupt, s1) = splhigh s;
     acquire_loop kmalloc_ok lock interrupt s1
   }"

definition lock_do_i_hold :: "nat \<Rightarrow> ksys \<Rightarrow> bool option" where
  "lock_do_i_hold lock s = do {
     own \<leftarrow> ks_locks s lock;
     Some (own = ks_curthread s)
   }"

definition lock_release :: "(u32 \<Rightarrow> bool) \<Rightarrow> nat \<Rightarrow> ksys \<Rightarrow> ksys option" where
  "lock_release kmalloc_ok lock s = do {
     h \<leftarrow> lock_do_i_hold lock s;
     kassert h;
     let (interrupt, s1) = splhigh s;
     s2 \<leftarrow> thread_wakeup kmalloc_ok (Lock lock) (s1\<lparr> ks_locks := (ks_locks s1)(lock \<mapsto> None) \<rparr>);
     Some (snd (splx interrupt s2))
   }"

section \<open>Condition variables\<close>

definition cv_wait :: "(u32 \<Rightarrow> bool) \<Rightarrow> nat \<Rightarrow> nat \<Rightarrow> ksys \<Rightarrow> (flow \<times> ksys) option" where
  "cv_wait kmalloc_ok cv lock s = (
     let (interrupt, s1) = splhigh s in do {
       kassert (cv \<in> ks_cvs s1);
       kassert (ks_locks s1 lock \<noteq> None);
       s2 \<leftarrow> lock_release kmalloc_ok lock s1;
       block_with (FWait lock interrupt) (thread_sleep kmalloc_ok (Cv cv) s2)
     })"

text \<open>The rest of \<^verbatim>\<open>cv_wait\<close> once the thread has been woken.\<close>

definition cv_wait_end :: "(u32 \<Rightarrow> bool) \<Rightarrow> nat \<Rightarrow> int \<Rightarrow> ksys \<Rightarrow> (flow \<times> ksys) option" where
  "cv_wait_end kmalloc_ok lock interrupt s = do {
     (flow, s1) \<leftarrow> lock_acquire kmalloc_ok lock s;
     case flow of
       Done \<Rightarrow> Some (Done, snd (splx interrupt s1))
     | Blocked fs \<Rightarrow> Some (Blocked (fs @ [FSplx interrupt]), s1)
   }"

definition cv_signal :: "(u32 \<Rightarrow> bool) \<Rightarrow> nat \<Rightarrow> nat \<Rightarrow> ksys \<Rightarrow> ksys option" where
  "cv_signal kmalloc_ok cv lock s = do {
     kassert (cv \<in> ks_cvs s);
     kassert (ks_locks s lock \<noteq> None);
     let (interrupt, s1) = splhigh s;
     s2 \<leftarrow> thread_wakeone kmalloc_ok (Cv cv) s1;
     Some (snd (splx interrupt s2))
   }"

definition cv_broadcast :: "(u32 \<Rightarrow> bool) \<Rightarrow> nat \<Rightarrow> nat \<Rightarrow> ksys \<Rightarrow> ksys option" where
  "cv_broadcast kmalloc_ok cv lock s = do {
     kassert (cv \<in> ks_cvs s);
     kassert (ks_locks s lock \<noteq> None);
     let (interrupt, s1) = splhigh s;
     s2 \<leftarrow> thread_wakeup kmalloc_ok (Cv cv) s1;
     Some (snd (splx interrupt s2))
   }"

section \<open>Clock and interrupts\<close>

definition HZ :: int where
  "HZ = 100"

definition clock_loop :: "(u32 \<Rightarrow> bool) \<Rightarrow> int \<Rightarrow> int \<Rightarrow> ksys \<Rightarrow> (flow \<times> ksys) option" where
  "clock_loop kmalloc_ok num_secs spl s =
     (if 0 < num_secs
      then block_with (FClock num_secs spl) (thread_sleep kmalloc_ok Lbolt s)
      else Some (Done, snd (splx spl s)))"

definition clocksleep :: "(u32 \<Rightarrow> bool) \<Rightarrow> int \<Rightarrow> ksys \<Rightarrow> (flow \<times> ksys) option" where
  "clocksleep kmalloc_ok num_secs s =
     (let (spl, s1) = splhigh s in clock_loop kmalloc_ok num_secs spl s1)"

definition hardclock :: "(u32 \<Rightarrow> bool) \<Rightarrow> ksys \<Rightarrow> (flow \<times> ksys) option" where
  "hardclock kmalloc_ok s = do {
     let n = ks_lbolt_counter s + 1;
     s1 \<leftarrow> (if HZ \<le> n
            then thread_wakeup kmalloc_ok Lbolt (s\<lparr> ks_lbolt_counter := 0 \<rparr>)
            else Some (s\<lparr> ks_lbolt_counter := n \<rparr>));
     thread_yield kmalloc_ok s1
   }"

text \<open>The end of \<^verbatim>\<open>mips_interrupt\<close> and of \<^verbatim>\<open>mips_trap\<close>.\<close>

definition interrupt_end :: "int \<Rightarrow> int \<Rightarrow> ksys \<Rightarrow> ksys" where
  "interrupt_end old_in savespl s =
     (snd (splhigh (s\<lparr> ks_in_interrupt := old_in \<rparr>)))\<lparr> ks_curspl := savespl \<rparr>"

definition timer_interrupt :: "(u32 \<Rightarrow> bool) \<Rightarrow> ksys \<Rightarrow> (flow \<times> ksys) option" where
  "timer_interrupt kmalloc_ok s = do {
     let savespl = ks_curspl s;
     let old_in = ks_in_interrupt s;
     let s1 = s\<lparr> ks_curspl := SPL_HIGH, ks_in_interrupt := 1 \<rparr>;
     kassert (0 < ks_curspl s1);
     (flow, s2) \<leftarrow> hardclock kmalloc_ok s1;
     case flow of
       Done \<Rightarrow> Some (Done, interrupt_end old_in savespl s2)
     | Blocked fs \<Rightarrow> Some (Blocked (fs @ [FIntr old_in savespl]), s2)
   }"

section \<open>The machine\<close>

fun run_frame :: "(u32 \<Rightarrow> bool) \<Rightarrow> frame \<Rightarrow> ksys \<Rightarrow> (flow \<times> ksys) option" where
  "run_frame ok FSwitch s = do { s1 \<leftarrow> mi_switch_end ok s; Some (Done, s1) }"
| "run_frame ok FStart s = do { s1 \<leftarrow> mi_threadstart s; Some (Done, s1) }"
| "run_frame ok FSleep s = do { s1 \<leftarrow> thread_sleep_end s; Some (Done, s1) }"
| "run_frame ok (FYield spl) s = Some (Done, snd (splx spl s))"
| "run_frame ok (FP sem spl) s = P_loop ok sem spl s"
| "run_frame ok (FAcquire lock spl) s = acquire_loop ok lock spl s"
| "run_frame ok (FWait lock spl) s = cv_wait_end ok lock spl s"
| "run_frame ok (FSplx spl) s = Some (Done, snd (splx spl s))"
| "run_frame ok (FClock n spl) s = clock_loop ok (n - 1) spl s"
| "run_frame ok (FIntr old_in savespl) s = Some (Done, interrupt_end old_in savespl s)"
| "run_frame ok FDead s = None"

fun run_frames :: "(u32 \<Rightarrow> bool) \<Rightarrow> frame list \<Rightarrow> ksys \<Rightarrow> (flow \<times> ksys) option" where
  "run_frames ok [] s = Some (Done, s)"
| "run_frames ok (f # fs) s = do {
     (flow, s1) \<leftarrow> run_frame ok f s;
     case flow of
       Done \<Rightarrow> run_frames ok fs s1
     | Blocked gs \<Rightarrow> Some (Blocked (gs @ fs), s1)
   }"

text \<open>What a running thread may call.\<close>

datatype kcall =
    Yield | Exit | Fork "nat \<Rightarrow> bool" string
  | SemP nat | SemV nat | Acquire nat | Release nat
  | CvWait nat nat | CvSignal nat nat | CvBroadcast nat nat
  | Clocksleep int
  | SemCreate int | SemDestroy nat | LockCreate | CvCreate

fun kcall_exec :: "(u32 \<Rightarrow> bool) \<Rightarrow> kcall \<Rightarrow> ksys \<Rightarrow> (flow \<times> ksys) option" where
  "kcall_exec ok Yield s = thread_yield ok s"
| "kcall_exec ok Exit s = thread_exit ok s"
| "kcall_exec ok (Fork mem name) s = do { (r, s1) \<leftarrow> thread_fork mem name s; Some (Done, s1) }"
| "kcall_exec ok (SemP m) s = sem_P ok m s"
| "kcall_exec ok (SemV m) s = do { s1 \<leftarrow> sem_V ok m s; Some (Done, s1) }"
| "kcall_exec ok (Acquire l) s = lock_acquire ok l s"
| "kcall_exec ok (Release l) s = do { s1 \<leftarrow> lock_release ok l s; Some (Done, s1) }"
| "kcall_exec ok (CvWait c l) s = cv_wait ok c l s"
| "kcall_exec ok (CvSignal c l) s = do { s1 \<leftarrow> cv_signal ok c l s; Some (Done, s1) }"
| "kcall_exec ok (CvBroadcast c l) s = do { s1 \<leftarrow> cv_broadcast ok c l s; Some (Done, s1) }"
| "kcall_exec ok (Clocksleep n) s = clocksleep ok n s"
| "kcall_exec ok (SemCreate n) s = do { (r, s1) \<leftarrow> sem_create (ok 0) (ok 0) n s; Some (Done, s1) }"
| "kcall_exec ok (SemDestroy m) s = do { s1 \<leftarrow> sem_destroy m s; Some (Done, s1) }"
| "kcall_exec ok LockCreate s = Some (Done, snd (lock_create (ok 0) (ok 0) s))"
| "kcall_exec ok CvCreate s = Some (Done, snd (cv_create (ok 0) (ok 0) s))"

definition save_frames :: "tid \<Rightarrow> flow \<Rightarrow> ksys \<Rightarrow> ksys" where
  "save_frames c flow s =
     (case flow of Done \<Rightarrow> s | Blocked fs \<Rightarrow> upd_thread c (\<lambda>th. th\<lparr> th_kont := fs \<rparr>) s)"

text \<open>Who takes a step: a thread in a kernel call, a thread coming back from \<^verbatim>\<open>mi_switch\<close>, or the timer.\<close>

datatype actor = Call tid kcall | Resume tid | Timer | Idle

inductive kstep :: "actor \<Rightarrow> ksys \<Rightarrow> ksys \<Rightarrow> bool" where
  call: "ks_curthread s = Some c \<Longrightarrow> kcall_exec ok op s = Some (flow, s1) \<Longrightarrow>
    kstep (Call c op) s (save_frames c flow s1)"
| resume: "ks_curthread s = None \<Longrightarrow> dispatch s = Some s1 \<Longrightarrow> ks_curthread s1 = Some c \<Longrightarrow>
    ks_threads s1 c = Some th \<Longrightarrow>
    run_frames ok (th_kont th) (upd_thread c (\<lambda>th. th\<lparr> th_kont := [] \<rparr>) s1) = Some (flow, s2) \<Longrightarrow>
    kstep (Resume c) s (save_frames c flow s2)"
| timer: "ks_curthread s = Some c \<Longrightarrow> ks_curspl s = 0 \<Longrightarrow>
    timer_interrupt ok s = Some (flow, s1) \<Longrightarrow>
    kstep Timer s (save_frames c flow s1)"
| idle: "ks_curthread s = None \<Longrightarrow> timer_interrupt ok s = Some (Done, s1) \<Longrightarrow>
    kstep Idle s s1"

inductive ksteps :: "ksys \<Rightarrow> ksys \<Rightarrow> bool" where
  refl: "ksteps s s"
| step: "ksteps s s1 \<Longrightarrow> kstep a s1 s2 \<Longrightarrow> ksteps s s2"

end
