(* ===== verification/Kern_Synch_Inv.thy ===== *)
theory Kern_Synch_Inv
  imports Kern_Synch
begin

text \<open>
  The invariant of the machine and its preservation by every step: on top of the
  placement of threads, a thread asleep on a semaphore finds its count zero, and a
  thread asleep on a lock finds the lock held, so that no wakeup is ever lost.
\<close>

section \<open>The invariant\<close>

definition asleep :: "ksys \<Rightarrow> wchan \<Rightarrow> tid set" where
  "asleep s ch = {t \<in> set (sl_l s). sleeps_on s ch t}"

definition sync_inv :: "ksys \<Rightarrow> bool" where
  "sync_inv s \<longleftrightarrow> thread_inv s \<and>
     (\<forall>m\<in>dom (ks_sems s). m < ks_fresh s) \<and> (\<forall>l\<in>dom (ks_locks s). l < ks_fresh s) \<and>
     (\<forall>m c. ks_sems s m = Some c \<longrightarrow> 0 \<le> c) \<and>
     (\<forall>m. asleep s (Sem m) \<noteq> {} \<longrightarrow> m < ks_fresh s \<and> (\<forall>c. ks_sems s m = Some c \<longrightarrow> c = 0)) \<and>
     (\<forall>l. asleep s (Lock l) \<noteq> {} \<longrightarrow> l < ks_fresh s \<and> ks_locks s l \<noteq> Some None)"

lemma thread_inv_unaffected [simp]:
  "thread_inv (s\<lparr> ks_sems := x1 \<rparr>) = thread_inv s" "thread_inv (s\<lparr> ks_locks := x2 \<rparr>) = thread_inv s"
  "thread_inv (s\<lparr> ks_cvs := x3 \<rparr>) = thread_inv s" "thread_inv (s\<lparr> ks_curspl := x4 \<rparr>) = thread_inv s"
  "thread_inv (s\<lparr> ks_in_interrupt := x4 \<rparr>) = thread_inv s"
  "thread_inv (s\<lparr> ks_lbolt_counter := x4 \<rparr>) = thread_inv s"
  "thread_inv (s\<lparr> ks_as_active := x5 \<rparr>) = thread_inv s"
  by (simp_all add: thread_inv_def tables_ok_def where_defs sleeps_on_def)

lemma sl_l_unaffected [simp]:
  "sl_l (s\<lparr> ks_sems := x1 \<rparr>) = sl_l s" "sl_l (s\<lparr> ks_locks := x2 \<rparr>) = sl_l s"
  "sl_l (s\<lparr> ks_cvs := x3 \<rparr>) = sl_l s" "sl_l (s\<lparr> ks_in_interrupt := x4 \<rparr>) = sl_l s"
  "sl_l (s\<lparr> ks_lbolt_counter := x4 \<rparr>) = sl_l s" "sl_l (s\<lparr> ks_as_active := x5 \<rparr>) = sl_l s"
  "sl_l (s\<lparr> ks_fresh := x6 \<rparr>) = sl_l s"
  by (simp_all add: sl_l_def)

lemma asleep_unaffected [simp]:
  "asleep (s\<lparr> ks_sems := x1 \<rparr>) = asleep s" "asleep (s\<lparr> ks_locks := x2 \<rparr>) = asleep s"
  "asleep (s\<lparr> ks_cvs := x3 \<rparr>) = asleep s" "asleep (s\<lparr> ks_curspl := x4 \<rparr>) = asleep s"
  "asleep (s\<lparr> ks_in_interrupt := x4 \<rparr>) = asleep s" "asleep (s\<lparr> ks_lbolt_counter := x4 \<rparr>) = asleep s"
  "asleep (s\<lparr> ks_as_active := x5 \<rparr>) = asleep s" "asleep (s\<lparr> ks_fresh := x6 \<rparr>) = asleep s"
  by (simp_all add: asleep_def sleeps_on_def fun_eq_iff)

lemma sync_inv_unaffected [simp]:
  "sync_inv (s\<lparr> ks_cvs := x3 \<rparr>) = sync_inv s" "sync_inv (s\<lparr> ks_curspl := x4 \<rparr>) = sync_inv s"
  "sync_inv (s\<lparr> ks_in_interrupt := x4 \<rparr>) = sync_inv s"
  "sync_inv (s\<lparr> ks_lbolt_counter := x4 \<rparr>) = sync_inv s"
  "sync_inv (s\<lparr> ks_as_active := x5 \<rparr>) = sync_inv s"
  by (simp_all add: sync_inv_def)

lemma sync_inv_thread: "sync_inv s \<Longrightarrow> thread_inv s"
  by (simp add: sync_inv_def)

lemma sync_inv_tables: "sync_inv s \<Longrightarrow> tables_ok s"
  by (simp add: sync_inv_def thread_inv_def)

lemma sync_invD:
  assumes "sync_inv s"
  shows "ks_sems s m \<noteq> None \<Longrightarrow> m < ks_fresh s" "ks_locks s l \<noteq> None \<Longrightarrow> l < ks_fresh s"
    "ks_sems s m = Some c \<Longrightarrow> 0 \<le> c"
    "asleep s (Sem m) \<noteq> {} \<Longrightarrow> m < ks_fresh s"
    "asleep s (Sem m) \<noteq> {} \<Longrightarrow> ks_sems s m = Some c \<Longrightarrow> c = 0"
    "asleep s (Lock l) \<noteq> {} \<Longrightarrow> l < ks_fresh s"
    "asleep s (Lock l) \<noteq> {} \<Longrightarrow> ks_locks s l \<noteq> Some None"
  using assms by (auto simp: sync_inv_def)

lemma sync_invI:
  assumes "thread_inv s"
    and "\<And>m. ks_sems s m \<noteq> None \<Longrightarrow> m < ks_fresh s" "\<And>l. ks_locks s l \<noteq> None \<Longrightarrow> l < ks_fresh s"
    and "\<And>m c. ks_sems s m = Some c \<Longrightarrow> 0 \<le> c"
    and "\<And>m. asleep s (Sem m) \<noteq> {} \<Longrightarrow> m < ks_fresh s"
    and "\<And>m c. asleep s (Sem m) \<noteq> {} \<Longrightarrow> ks_sems s m = Some c \<Longrightarrow> c = 0"
    and "\<And>l. asleep s (Lock l) \<noteq> {} \<Longrightarrow> l < ks_fresh s"
    and "\<And>l. asleep s (Lock l) \<noteq> {} \<Longrightarrow> ks_locks s l \<noteq> Some None"
  shows "sync_inv s"
  unfolding sync_inv_def dom_def using assms by simp

text \<open>
  Fewer sleepers, counters and owners as before except where nobody sleeps, and new
  objects with new numbers.
\<close>

lemma sync_inv_change:
  assumes "sync_inv s" "thread_inv s'" "ks_fresh s \<le> ks_fresh s'"
    and sems: "\<And>m. ks_sems s' m = ks_sems s m \<or> ks_sems s' m = None \<or>
      asleep s' (Sem m) = {} \<and> m < ks_fresh s' \<and> (\<exists>c\<ge>0. ks_sems s' m = Some c)"
    and locks: "\<And>l. ks_locks s' l = ks_locks s l \<or> ks_locks s' l = None \<or>
      l < ks_fresh s' \<and> (asleep s' (Lock l) = {} \<or> (\<exists>t. ks_locks s' l = Some (Some t)))"
    and sub: "\<And>ch. asleep s' ch \<subseteq> asleep s ch"
  shows "sync_inv s'"
proof (rule sync_invI [OF assms(2)])
  have A: "asleep s ch \<noteq> {}" if "asleep s' ch \<noteq> {}" for ch using sub [of ch] that by blast
  note D = sync_invD [OF assms(1)]
  fix m l c
  show "ks_sems s' m \<noteq> None \<Longrightarrow> m < ks_fresh s'"
    using sems [of m] D(1) [of m] assms(3) by auto
  show "ks_locks s' l \<noteq> None \<Longrightarrow> l < ks_fresh s'"
    using locks [of l] D(2) [of l] assms(3) by auto
  show "ks_sems s' m = Some c \<Longrightarrow> 0 \<le> c"
    using sems [of m] D(3) [of m c] by auto
  show "asleep s' (Sem m) \<noteq> {} \<Longrightarrow> m < ks_fresh s'"
    using A D(4) [of m] assms(3) by (meson less_le_trans)
  show "asleep s' (Sem m) \<noteq> {} \<Longrightarrow> ks_sems s' m = Some c \<Longrightarrow> c = 0"
    using A [of "Sem m"] D(5) [of m c] sems [of m] by auto
  show "asleep s' (Lock l) \<noteq> {} \<Longrightarrow> l < ks_fresh s'"
    using A D(6) [of l] assms(3) by (meson less_le_trans)
  show "asleep s' (Lock l) \<noteq> {} \<Longrightarrow> ks_locks s' l \<noteq> Some None"
    using A [of "Lock l"] D(7) [of l] locks [of l] by auto
qed

lemma sync_inv_shrink:
  assumes "sync_inv s" "thread_inv s'" "ks_sems s' = ks_sems s" "ks_fresh s \<le> ks_fresh s'"
    and locks: "\<And>l. ks_locks s' l = ks_locks s l \<or> ks_locks s' l = None \<or>
      ks_fresh s \<le> l \<and> l < ks_fresh s' \<and> ks_locks s' l = Some None"
    and sub: "\<And>ch. asleep s' ch \<subseteq> asleep s ch"
  shows "sync_inv s'"
proof (rule sync_inv_change [OF assms(1,2,4)])
  fix l
  have "asleep s' (Lock l) = {}" if "ks_fresh s \<le> l"
    using sync_invD(6) [OF assms(1), of l] sub [of "Lock l"] that by auto
  then show "ks_locks s' l = ks_locks s l \<or> ks_locks s' l = None \<or>
      l < ks_fresh s' \<and> (asleep s' (Lock l) = {} \<or> (\<exists>t. ks_locks s' l = Some (Some t)))"
    using locks [of l] by auto
qed (use assms in auto)

section \<open>Who is asleep after each operation\<close>

lemma wakeup_asleep:
  assumes "tables_ok s" "thread_wakeup kmalloc_ok ch s = Some s'"
  shows "asleep s' ch = {}" "d \<noteq> ch \<Longrightarrow> asleep s' d = asleep s d"
    "ks_sems s' = ks_sems s" "ks_locks s' = ks_locks s" "ks_fresh s' = ks_fresh s"
    "ks_curthread s' = ks_curthread s" "ks_curspl s' = ks_curspl s" "ks_cvs s' = ks_cvs s"
    "ks_threads s' = ks_threads s" "ks_numthreads s' = ks_numthreads s"
proof -
  note w = thread_wakeup_done [OF assms]
  from w(5) obtain q sl where s': "s' = s\<lparr> ks_runqueue := q, ks_sleepers := sl \<rparr>" by blast
  have on: "sleeps_on s' = sleeps_on s" by (simp add: s' sleeps_on_def fun_eq_iff)
  have "\<not> (sleeps_on s ch t \<and> sleeps_on s d t)" if "d \<noteq> ch" for d t
    using that by (auto simp: sleeps_on_def split: option.splits)
  then show "asleep s' ch = {}" "d \<noteq> ch \<Longrightarrow> asleep s' d = asleep s d"
    by (auto simp: asleep_def on w(3))
  show "ks_sems s' = ks_sems s" "ks_locks s' = ks_locks s" "ks_fresh s' = ks_fresh s"
    "ks_curthread s' = ks_curthread s" "ks_curspl s' = ks_curspl s" "ks_cvs s' = ks_cvs s"
    "ks_threads s' = ks_threads s" "ks_numthreads s' = ks_numthreads s"
    by (simp_all add: s')
qed

lemma wakeup_sync_inv:
  assumes "sync_inv s" "thread_wakeup kmalloc_ok ch s = Some s'"
  shows "sync_inv s'"
proof (rule sync_inv_shrink [OF assms(1)])
  note w = wakeup_asleep [OF sync_inv_tables [OF assms(1)] assms(2)]
  show "thread_inv s'" by (rule thread_wakeup_inv [OF sync_inv_thread [OF assms(1)] assms(2)])
  show "asleep s' d \<subseteq> asleep s d" for d using w(1,2) by (cases "d = ch") auto
qed (use wakeup_asleep [OF sync_inv_tables [OF assms(1)] assms(2)] in simp_all)

lemma wakeone_sync_inv:
  assumes "sync_inv s" "thread_wakeone kmalloc_ok ch s = Some s'"
  shows "sync_inv s'" "ks_sems s' = ks_sems s" "ks_locks s' = ks_locks s"
proof -
  note w = thread_wakeone_done [OF sync_inv_tables [OF assms(1)] assms(2)]
  from w(3) obtain q sl where s': "s' = s\<lparr> ks_runqueue := q, ks_sleepers := sl \<rparr>" by blast
  have same: "sleeps_on s' = sleeps_on s" "ks_sems s' = ks_sems s" "ks_locks s' = ks_locks s"
    "ks_fresh s' = ks_fresh s"
    by (simp_all add: s' sleeps_on_def fun_eq_iff)
  show "ks_sems s' = ks_sems s" "ks_locks s' = ks_locks s" by (fact same)+
  show "sync_inv s'"
    by (rule sync_inv_shrink [OF assms(1) thread_wakeone_inv [OF sync_inv_thread [OF assms(1)] assms(2)]])
       (use w(5) in \<open>auto simp: same asleep_def\<close>)
qed

text \<open>Going to sleep on something that is not available keeps the invariant.\<close>

lemma sleep_asleep:
  assumes "sync_inv s" "thread_sleep kmalloc_ok ch s = Some (flow, s')"
  obtains c where "ks_curthread s = Some c" "flow = Blocked [FSwitch, FSleep]"
    "asleep s' ch = insert c (asleep s ch)" "\<And>d. d \<noteq> ch \<Longrightarrow> asleep s' d = asleep s d"
    "ks_sems s' = ks_sems s" "ks_locks s' = ks_locks s" "ks_fresh s' = ks_fresh s"
    "c \<notin> set (sl_l s)"
proof -
  obtain c th where c: "ks_curthread s = Some c" "ks_threads s c = Some th"
    "flow = Blocked [FSwitch, FSleep]" "sl_l s' = sl_l s @ [c]"
    "\<exists>q sl zs. s' = s\<lparr> ks_threads := (ks_threads s)(c \<mapsto> th\<lparr> th_sleepaddr := Some ch \<rparr>),
        ks_curthread := None, ks_switching := Some c, ks_runqueue := q, ks_sleepers := sl,
        ks_zombies := zs \<rparr>"
    using thread_sleep_done [OF sync_inv_tables [OF assms(1)] assms(2)] by metis
  have thr: "ks_threads s' = (ks_threads s)(c \<mapsto> th\<lparr> th_sleepaddr := Some ch \<rparr>)"
    "ks_sems s' = ks_sems s" "ks_locks s' = ks_locks s" "ks_fresh s' = ks_fresh s"
    using c(5) by auto
  have nin: "c \<notin> set (sl_l s)"
    using assms(1) c(1) by (auto simp: sync_inv_def thread_inv_def live_def cur_l_def)
  have on: "sleeps_on s' d t = (if t = c then d = ch else sleeps_on s d t)" for d t
    by (auto simp: sleeps_on_def thr(1))
  show thesis
  proof (rule that [OF c(1,3)])
    show "asleep s' ch = insert c (asleep s ch)" using nin by (auto simp: asleep_def c(4) on)
    show "asleep s' d = asleep s d" if "d \<noteq> ch" for d
      using nin that by (auto simp: asleep_def c(4) on)
  qed (use thr nin in simp_all)
qed

lemma sleep_sync_inv:
  assumes "sync_inv s" "thread_sleep kmalloc_ok ch s = Some (flow, s')"
    and sem: "\<And>m. ch = Sem m \<Longrightarrow> ks_sems s m = Some 0"
    and lock: "\<And>l. ch = Lock l \<Longrightarrow> \<exists>t. ks_locks s l = Some (Some t)"
  shows "sync_inv s'"
proof -
  obtain c where c: "ks_curthread s = Some c" "asleep s' ch = insert c (asleep s ch)"
    "\<And>d. d \<noteq> ch \<Longrightarrow> asleep s' d = asleep s d"
    "ks_sems s' = ks_sems s" "ks_locks s' = ks_locks s" "ks_fresh s' = ks_fresh s"
    using sleep_asleep [OF assms(1,2)] by metis
  have inv: "thread_inv s'" by (rule thread_sleep_inv [OF sync_inv_thread [OF assms(1)] assms(2)])
  have "m < ks_fresh s \<and> (\<forall>x. ks_sems s m = Some x \<longrightarrow> x = 0)" if "asleep s' (Sem m) \<noteq> {}" for m
  proof (cases "ch = Sem m")
    case True
    then show ?thesis using sem assms(1) by (auto simp: sync_inv_def)
  next
    case False
    then show ?thesis using c(3) that assms(1) by (auto simp: sync_inv_def)
  qed
  moreover have "l < ks_fresh s \<and> ks_locks s l \<noteq> Some None" if "asleep s' (Lock l) \<noteq> {}" for l
  proof (cases "ch = Lock l")
    case True
    then show ?thesis using lock assms(1) by (auto simp: sync_inv_def)
  next
    case False
    then show ?thesis using c(3) that assms(1) by (auto simp: sync_inv_def)
  qed
  ultimately show ?thesis using inv assms(1) by (auto simp: sync_inv_def c(4-6))
qed

section \<open>The synchronization operations\<close>

lemma splx_inv [simp]: "sync_inv (snd (splx n s)) = sync_inv s"
  by (simp add: splx_def)

lemma splhigh_inv [simp]: "sync_inv (snd (splhigh s)) = sync_inv s"
  by (simp add: splhigh_def)

lemma P_loop_inv:
  assumes "sync_inv s" "P_loop kmalloc_ok m spl s = Some (flow, s')"
  shows "sync_inv s'"
proof -
  from assms(2) obtain cnt where cnt: "ks_sems s m = Some cnt"
    by (auto simp: P_loop_def Option.bind_eq_Some_conv)
  show ?thesis
  proof (cases "cnt = 0")
    case True
    with assms(2) cnt obtain fl where sl: "thread_sleep kmalloc_ok (Sem m) s = Some (fl, s')"
      by (auto simp: P_loop_def block_with_Some)
    show ?thesis by (rule sleep_sync_inv [OF assms(1) sl]) (use True cnt in auto)
  next
    case False
    with assms(2) cnt have "0 < cnt"
      and s': "s' = s\<lparr> ks_sems := (ks_sems s)(m \<mapsto> cnt - 1), ks_curspl := spl \<rparr>"
      by (auto simp: P_loop_def ksimps splx_def split: if_splits)
    moreover from False cnt assms(1) have "asleep s (Sem m) = {}" by (auto simp: sync_inv_def)
    ultimately show ?thesis using sync_invD(1) [OF assms(1), of m] cnt
      by (intro sync_inv_change [OF assms(1)]) (auto simp: sync_inv_thread [OF assms(1)])
  qed
qed

lemma acquire_loop_inv:
  assumes "sync_inv s" "acquire_loop kmalloc_ok l spl s = Some (flow, s')" "ks_curthread s \<noteq> None"
  shows "sync_inv s'"
proof -
  from assms(2) obtain own where own: "ks_locks s l = Some own"
    by (auto simp: acquire_loop_def Option.bind_eq_Some_conv)
  show ?thesis
  proof (cases own)
    case (Some t)
    with assms(2) own obtain fl where sl: "thread_sleep kmalloc_ok (Lock l) s = Some (fl, s')"
      by (auto simp: acquire_loop_def block_with_Some)
    show ?thesis by (rule sleep_sync_inv [OF assms(1) sl]) (use Some own in auto)
  next
    case None
    with assms(2) own
    have s': "s' = s\<lparr> ks_locks := (ks_locks s)(l \<mapsto> ks_curthread s), ks_curspl := spl \<rparr>"
      by (auto simp: acquire_loop_def splx_def)
    then show ?thesis using sync_invD(2) [OF assms(1), of l] own assms(3)
      by (intro sync_inv_change [OF assms(1)]) (auto simp: sync_inv_thread [OF assms(1)])
  qed
qed

lemma sem_V_inv:
  assumes "sync_inv s" "sem_V kmalloc_ok m s = Some s'"
  shows "sync_inv s'"
proof -
  let ?s = "\<lambda>c. s\<lparr> ks_curspl := SPL_HIGH, ks_sems := (ks_sems s)(m \<mapsto> c) \<rparr>"
  from assms(2) obtain cnt s2 where cnt: "ks_sems s m = Some cnt" "0 < cnt + 1"
    and w: "thread_wakeup kmalloc_ok (Sem m) (?s (cnt + 1)) = Some s2"
    and s': "s' = s2\<lparr> ks_curspl := ks_curspl s \<rparr>"
    by (auto simp: sem_V_def splhigh_def splx_def ksimps Option.bind_eq_Some_conv split: if_splits)
  have tab: "tables_ok (?s (cnt + 1))"
    using sync_inv_tables [OF assms(1)] by (simp add: tables_ok_def)
  have "thread_inv (?s (cnt + 1))" using sync_inv_thread [OF assms(1)] by simp
  from thread_wakeup_inv [OF this w] have inv: "thread_inv s2" .
  note a = wakeup_asleep [OF tab w]
  have sub: "asleep s2 ch \<subseteq> asleep s ch" for ch
    using a(1) a(2) [of ch] by (cases "ch = Sem m") auto
  have "m < ks_fresh s" using sync_invD(1) [OF assms(1)] cnt by auto
  then have "sync_inv s2"
    by (intro sync_inv_change [OF assms(1) inv]) (use cnt(2) sub a in auto)
  then show ?thesis by (simp add: s')
qed

lemma lock_release_inv:
  assumes "sync_inv s" "lock_release kmalloc_ok l s = Some s'"
  shows "sync_inv s'" "ks_curthread s' = ks_curthread s" "ks_curspl s' = ks_curspl s"
proof -
  let ?s = "s\<lparr> ks_curspl := SPL_HIGH, ks_locks := (ks_locks s)(l \<mapsto> None) \<rparr>"
  from assms(2) obtain s2 where own: "ks_locks s l = Some (ks_curthread s)"
    and w: "thread_wakeup kmalloc_ok (Lock l) ?s = Some s2"
    and s': "s' = s2\<lparr> ks_curspl := ks_curspl s \<rparr>"
    by (auto simp: lock_release_def lock_do_i_hold_def splhigh_def splx_def ksimps
        Option.bind_eq_Some_conv split: if_splits)
  have tab: "tables_ok ?s" using sync_inv_tables [OF assms(1)] by (simp add: tables_ok_def)
  have "thread_inv ?s" using sync_inv_thread [OF assms(1)] by simp
  from thread_wakeup_inv [OF this w] have inv: "thread_inv s2" .
  note a = wakeup_asleep [OF tab w]
  have sub: "asleep s2 ch \<subseteq> asleep s ch" for ch
    using a(1) a(2) [of ch] by (cases "ch = Lock l") auto
  have "l < ks_fresh s" using sync_invD(2) [OF assms(1)] own by auto
  then have "sync_inv s2"
    by (intro sync_inv_change [OF assms(1) inv]) (use sub a in auto)
  then show "sync_inv s'" by (simp add: s')
  show "ks_curthread s' = ks_curthread s" "ks_curspl s' = ks_curspl s" using a by (simp_all add: s')
qed

lemma cv_wait_inv:
  assumes "sync_inv s" "cv_wait kmalloc_ok cv l s = Some (flow, s')"
  shows "sync_inv s'"
proof -
  from assms(2) obtain s2 fl where r: "lock_release kmalloc_ok l (s\<lparr> ks_curspl := SPL_HIGH \<rparr>) = Some s2"
    and sl: "thread_sleep kmalloc_ok (Cv cv) s2 = Some (fl, s')"
    by (auto simp: cv_wait_def splhigh_def splx_def ksimps Option.bind_eq_Some_conv block_with_Some
        split: if_split_asm)
  have "sync_inv s2" by (rule lock_release_inv [OF _ r]) (simp add: assms(1))
  from sleep_sync_inv [OF this sl] show ?thesis by simp
qed

end
