(* ===== verification/Kern_Machine.thy ===== *)
theory Kern_Machine
  imports Kern_Synch_Inv
begin

text \<open>
  Every step of the machine keeps the invariant, and a lock changes hands only by the
  action of the thread that owns it or of the thread that takes it while it is free.
\<close>

section \<open>Who may change a lock\<close>

text \<open>
  \<open>locks_by d c s s'\<close>: from \<open>s\<close> to \<open>s'\<close> every lock is as before, or was free or owned by
  \<open>c\<close> and still is free or owned by \<open>c\<close>, or, if \<open>d\<close>, has been destroyed.
\<close>

definition locks_by :: "bool \<Rightarrow> tid \<Rightarrow> ksys \<Rightarrow> ksys \<Rightarrow> bool" where
  "locks_by d c s s' \<longleftrightarrow> (\<forall>l. ks_locks s' l = ks_locks s l \<or> d \<and> ks_locks s' l = None \<or>
     ks_locks s l \<in> {Some None, Some (Some c)} \<and> ks_locks s' l \<in> {Some None, Some (Some c)})"

lemma locks_by_same: "ks_locks s' = ks_locks s \<Longrightarrow> locks_by d c s s'"
  by (simp add: locks_by_def)

lemma locks_by_cong: "locks_by d c s s1 \<Longrightarrow> ks_locks s2 = ks_locks s1 \<Longrightarrow> locks_by d c s s2"
  by (simp add: locks_by_def)

lemma locks_by_trans:
  assumes "locks_by d c s1 s2" "locks_by d c s2 s3"
  shows "locks_by d c s1 s3"
  unfolding locks_by_def
proof
  fix l
  from assms(1) have a: "ks_locks s2 l = ks_locks s1 l \<or> d \<and> ks_locks s2 l = None \<or>
     ks_locks s1 l \<in> {Some None, Some (Some c)} \<and> ks_locks s2 l \<in> {Some None, Some (Some c)}"
    by (simp add: locks_by_def)
  from assms(2) have b: "ks_locks s3 l = ks_locks s2 l \<or> d \<and> ks_locks s3 l = None \<or>
     ks_locks s2 l \<in> {Some None, Some (Some c)} \<and> ks_locks s3 l \<in> {Some None, Some (Some c)}"
    by (simp add: locks_by_def)
  from a b show "ks_locks s3 l = ks_locks s1 l \<or> d \<and> ks_locks s3 l = None \<or>
     ks_locks s1 l \<in> {Some None, Some (Some c)} \<and> ks_locks s3 l \<in> {Some None, Some (Some c)}"
    by (elim disjE) auto
qed

lemma locks_by_weaken: "locks_by False c s s' \<Longrightarrow> locks_by d c s s'"
  unfolding locks_by_def by blast

section \<open>Frames\<close>

lemma upd_cur_inv:
  assumes "sync_inv s" "ks_curthread s = Some c"
  shows "sync_inv (upd_thread c f s)"
proof (rule sync_inv_shrink [OF assms(1)])
  have nin: "c \<notin> set (sl_l s)"
    using assms by (auto simp: sync_inv_def thread_inv_def live_def cur_l_def)
  then show "asleep (upd_thread c f s) ch \<subseteq> asleep s ch" for ch
    by (auto simp: asleep_def sleeps_on_upd)
  show "thread_inv (upd_thread c f s)"
    using nin by (intro thread_inv_frame [OF sync_inv_thread [OF assms(1)]]) (auto simp: sleeps_on_upd)
qed simp_all

lemma save_frames_inv:
  assumes "sync_inv s"
  shows "sync_inv (save_frames c flow s)"
proof (cases flow)
  case (Blocked fs)
  have on: "sleeps_on (upd_thread c (\<lambda>th. th\<lparr> th_kont := fs \<rparr>) s) ch t = sleeps_on s ch t" for ch t
    by (cases "t = c") (auto simp: sleeps_on_def upd_thread_def split: option.splits)
  show ?thesis
    by (rule sync_inv_shrink [OF assms], rule thread_inv_frame [OF sync_inv_thread [OF assms]])
       (auto simp: on asleep_def Blocked save_frames_def)
qed (simp add: assms save_frames_def)

lemma save_frames_same [simp]:
  "ks_locks (save_frames c flow s) = ks_locks s" "ks_sems (save_frames c flow s) = ks_sems s"
  "ks_numthreads (save_frames c flow s) = ks_numthreads s"
  "ks_sleepers (save_frames c flow s) = ks_sleepers s"
  by (cases flow; simp add: save_frames_def)+

lemma mi_switch_end_inv:
  assumes "sync_inv s" "ks_curthread s = Some c" "mi_switch_end kmalloc_ok s = Some s'"
  shows "sync_inv s' \<and> ks_curthread s' = Some c \<and> locks_by True c s s'"
proof -
  obtain s1 where e: "exorcise kmalloc_ok s = Some s1" and a: "as_activate_cur s1 = Some s'"
    using assms(3) by (auto simp: mi_switch_end_def Option.bind_eq_Some_conv)
  have sw: "ks_switching s = None" using assms(1,2) by (auto simp: sync_inv_def thread_inv_def)
  from exorcise_done [OF sync_inv_tables [OF assms(1)] e] obtain lk cv zs where
    l: "sl_l s1 = sl_l s" and lk: "lk \<subseteq>\<^sub>m ks_locks s"
    and s1: "s1 = s\<lparr> ks_threads := ks_threads s |` (- set (zb_l s)), ks_locks := lk, ks_cvs := cv,
        ks_zombies := zs \<rparr>" by blast
  have same: "ks_sems s1 = ks_sems s" "ks_fresh s1 = ks_fresh s" "ks_locks s1 = lk"
    "ks_curthread s1 = ks_curthread s" "ks_threads s1 = ks_threads s |` (- set (zb_l s))"
    by (simp_all add: s1)
  have lk': "lk l = ks_locks s l \<or> lk l = None" for l
    using lk by (cases "lk l") (auto simp: map_le_def dom_def)
  have by_c: "locks_by True c s s1" unfolding locks_by_def same(3) using lk' by blast
  have "sync_inv s1"
  proof (rule sync_inv_shrink [OF assms(1) exorcise_inv [OF sync_inv_thread [OF assms(1)] e sw]])
    show "asleep s1 ch \<subseteq> asleep s ch" for ch
      by (auto simp: asleep_def l sleeps_on_def same restrict_map_def split: if_splits option.splits)
    show "ks_locks s1 l = ks_locks s l \<or> ks_locks s1 l = None \<or>
      ks_fresh s \<le> l \<and> l < ks_fresh s1 \<and> ks_locks s1 l = Some None" for l
      using lk' [of l] by (auto simp: same)
  qed (simp_all add: same)
  moreover have "s' = s1 \<or> (\<exists>as. s' = s1\<lparr> ks_as_active := Some as \<rparr>)"
    using a by (auto simp: as_activate_cur_def Option.bind_eq_Some_conv split: option.splits)
  ultimately show ?thesis using same(4) assms(2) by (auto intro: locks_by_cong [OF by_c])
qed

lemma acquire_loop_locks:
  assumes "sync_inv s" "ks_curthread s = Some c" "acquire_loop kmalloc_ok l spl s = Some (flow, s')"
  shows "locks_by False c s s'" "flow = Done \<Longrightarrow> ks_curthread s' = Some c \<and> ks_locks s' l = Some (Some c)"
proof -
  from assms(3) obtain own where own: "ks_locks s l = Some own"
    by (auto simp: acquire_loop_def Option.bind_eq_Some_conv)
  have "locks_by False c s s' \<and> (flow = Done \<longrightarrow> ks_curthread s' = Some c \<and> ks_locks s' l = Some (Some c))"
  proof (cases own)
    case (Some t)
    with assms(3) own obtain fs where sl: "thread_sleep kmalloc_ok (Lock l) s = Some (Blocked fs, s')"
      and "flow = Blocked (fs @ [FAcquire l spl])"
      by (auto simp: acquire_loop_def block_with_Some)
    moreover from sleep_asleep [OF assms(1) sl] have "ks_locks s' = ks_locks s" by blast
    ultimately show ?thesis by (simp add: locks_by_def)
  next
    case None
    with assms(2,3) own show ?thesis
      by (auto simp: acquire_loop_def splx_def locks_by_def split: if_splits)
  qed
  then show "locks_by False c s s'"
    "flow = Done \<Longrightarrow> ks_curthread s' = Some c \<and> ks_locks s' l = Some (Some c)" by auto
qed

lemma sleep_keeps_locks:
  assumes "sync_inv s" "thread_sleep kmalloc_ok ch s = Some (flow, s')"
  shows "ks_locks s' = ks_locks s" "ks_sems s' = ks_sems s" "\<exists>fs. flow = Blocked fs"
  using sleep_asleep [OF assms] by blast+

lemma P_loop_locks:
  assumes "sync_inv s" "ks_curthread s = Some c" "P_loop kmalloc_ok m spl s = Some (flow, s')"
  shows "ks_locks s' = ks_locks s" "flow = Done \<Longrightarrow> ks_curthread s' = Some c"
proof -
  from assms(3) obtain cnt where cnt: "ks_sems s m = Some cnt"
    by (auto simp: P_loop_def Option.bind_eq_Some_conv)
  have "ks_locks s' = ks_locks s \<and> (flow = Done \<longrightarrow> ks_curthread s' = Some c)"
  proof (cases "cnt = 0")
    case True
    with assms(3) cnt obtain fs where sl: "thread_sleep kmalloc_ok (Sem m) s = Some (Blocked fs, s')"
      and "flow = Blocked (fs @ [FP m spl])"
      by (auto simp: P_loop_def block_with_Some)
    with sleep_keeps_locks [OF assms(1) sl] show ?thesis by simp
  next
    case False
    with assms(2,3) cnt show ?thesis by (auto simp: P_loop_def ksimps splx_def split: if_splits)
  qed
  then show "ks_locks s' = ks_locks s" "flow = Done \<Longrightarrow> ks_curthread s' = Some c" by auto
qed

text \<open>What every frame guarantees.\<close>

definition good_step :: "bool \<Rightarrow> tid \<Rightarrow> ksys \<Rightarrow> flow \<Rightarrow> ksys \<Rightarrow> bool" where
  "good_step d c s flow s' \<longleftrightarrow>
     sync_inv s' \<and> locks_by d c s s' \<and> (flow = Done \<longrightarrow> ks_curthread s' = Some c)"

lemma lock_acquire_good:
  assumes "sync_inv s" "ks_curthread s = Some c" "lock_acquire kmalloc_ok l s = Some (flow, s')"
  shows "good_step False c s flow s'" "flow = Done \<Longrightarrow> ks_locks s' l = Some (Some c)"
proof -
  let ?s = "s\<lparr> ks_curspl := SPL_HIGH \<rparr>"
  from assms(3) have a: "acquire_loop kmalloc_ok l (ks_curspl s) ?s = Some (flow, s')"
    by (auto simp: lock_acquire_def splhigh_def splx_def ksimps split: if_splits)
  have s: "sync_inv ?s" "ks_curthread ?s = Some c" using assms(1,2) by simp_all
  show "good_step False c s flow s'"
    using acquire_loop_inv [OF s(1) a] acquire_loop_locks [OF s a] s(2)
    by (simp add: good_step_def locks_by_def)
  show "flow = Done \<Longrightarrow> ks_locks s' l = Some (Some c)" using acquire_loop_locks [OF s a] by simp
qed

lemma cv_wait_end_good:
  assumes "sync_inv s" "ks_curthread s = Some c" "cv_wait_end kmalloc_ok l spl s = Some (flow, s')"
  shows "good_step False c s flow s'"
proof -
  from assms(3) obtain fl s1 where a: "lock_acquire kmalloc_ok l s = Some (fl, s1)"
    and r: "(case fl of Done \<Rightarrow> Some (Done, snd (splx spl s1))
             | Blocked fs \<Rightarrow> Some (Blocked (fs @ [FSplx spl]), s1)) = Some (flow, s')"
    by (auto simp: cv_wait_end_def Option.bind_eq_Some_conv)
  from lock_acquire_good(1) [OF assms(1,2) a] r show ?thesis
    by (cases fl) (auto simp: good_step_def locks_by_def splx_def)
qed

lemma clock_loop_good:
  assumes "sync_inv s" "ks_curthread s = Some c" "clock_loop kmalloc_ok n spl s = Some (flow, s')"
  shows "good_step False c s flow s'"
proof (cases "0 < n")
  case True
  with assms(3) obtain fs where sl: "thread_sleep kmalloc_ok Lbolt s = Some (Blocked fs, s')"
    and "flow = Blocked (fs @ [FClock n spl])" by (auto simp: clock_loop_def block_with_Some)
  with sleep_sync_inv [OF assms(1) sl] sleep_keeps_locks [OF assms(1) sl] show ?thesis
    by (simp add: good_step_def locks_by_def)
next
  case False
  with assms show ?thesis by (auto simp: clock_loop_def good_step_def locks_by_def splx_def)
qed

lemma run_frame_good:
  assumes "sync_inv s" "ks_curthread s = Some c" "run_frame ok f s = Some (flow, s')"
  shows "good_step True c s flow s'"
proof (cases f)
  case FSwitch
  with assms obtain "flow = Done" "mi_switch_end ok s = Some s'"
    by (auto simp: Option.bind_eq_Some_conv)
  with mi_switch_end_inv [OF assms(1,2)] show ?thesis by (auto simp: good_step_def)
next
  case FStart
  with assms obtain s1 where "flow = Done" "as_activate_cur s = Some s1" "s' = s1\<lparr> ks_curspl := 0 \<rparr>"
    by (auto simp: mi_threadstart_def spl0_def splx_def Option.bind_eq_Some_conv)
  moreover have "s1 = s \<or> (\<exists>as. s1 = s\<lparr> ks_as_active := Some as \<rparr>)"
    using calculation(2) by (auto simp: as_activate_cur_def Option.bind_eq_Some_conv split: option.splits)
  ultimately show ?thesis using assms(1,2) by (auto simp: good_step_def locks_by_def)
next
  case FSleep
  with assms have "flow = Done" "s' = upd_thread c (\<lambda>th. th\<lparr> th_sleepaddr := None \<rparr>) s"
    by (auto simp: thread_sleep_end_def ksimps Option.bind_eq_Some_conv split: if_splits)
  with upd_cur_inv [OF assms(1,2)] assms(2) show ?thesis by (simp add: good_step_def locks_by_def)
next
  case (FP m spl)
  with assms P_loop_inv [OF assms(1)] P_loop_locks [OF assms(1,2)] show ?thesis
    by (auto simp: good_step_def locks_by_same)
next
  case (FAcquire l spl)
  with assms acquire_loop_inv [OF assms(1)] acquire_loop_locks [OF assms(1,2)] show ?thesis
    by (auto simp: good_step_def intro: locks_by_weaken)
next
  case (FWait l spl)
  with cv_wait_end_good [OF assms(1,2)] assms(3) show ?thesis
    by (auto simp: good_step_def intro: locks_by_weaken)
next
  case (FClock n spl)
  with clock_loop_good [OF assms(1,2)] assms(3) show ?thesis
    by (auto simp: good_step_def intro: locks_by_weaken)
qed (use assms in \<open>auto simp: good_step_def locks_by_def splx_def interrupt_end_def splhigh_def\<close>)

lemma run_frames_good:
  "sync_inv s \<Longrightarrow> ks_curthread s = Some c \<Longrightarrow> run_frames ok fs s = Some (flow, s') \<Longrightarrow>
   good_step True c s flow s'"
proof (induction fs arbitrary: s)
  case Nil
  then show ?case by (simp add: good_step_def locks_by_def)
next
  case (Cons f fs)
  then obtain fl s1 where f: "run_frame ok f s = Some (fl, s1)"
    and r: "(case fl of Done \<Rightarrow> run_frames ok fs s1 | Blocked gs \<Rightarrow> Some (Blocked (gs @ fs), s1))
      = Some (flow, s')" by (auto simp: Option.bind_eq_Some_conv)
  note g = run_frame_good [OF Cons(2,3) f]
  show ?case
  proof (cases fl)
    case Done
    with g have "sync_inv s1" "ks_curthread s1 = Some c" by (simp_all add: good_step_def)
    from Cons(1) [OF this] r Done g show ?thesis
      by (auto simp: good_step_def intro: locks_by_trans)
  next
    case (Blocked gs)
    with r g show ?thesis by (auto simp: good_step_def)
  qed
qed

section \<open>Kernel calls\<close>

lemma yield_good:
  assumes "sync_inv s" "thread_yield kmalloc_ok s = Some (flow, s')"
  shows "sync_inv s'" "ks_locks s' = ks_locks s" "flow = Done \<Longrightarrow> s' = s"
    "ks_curthread s = Some c \<Longrightarrow> flow \<noteq> Done"
proof -
  from thread_yield_done [OF sync_inv_tables [OF assms(1)] assms(2)]
  have *: "(flow = Done \<and> s' = s \<and> ks_curthread s = None) \<or> flow \<noteq> Done \<and> ks_locks s' = ks_locks s \<and> ks_sems s' = ks_sems s \<and>
      ks_fresh s' = ks_fresh s \<and> sl_l s' = sl_l s \<and> ks_threads s' = ks_threads s"
    by auto
  then show "ks_locks s' = ks_locks s" "flow = Done \<Longrightarrow> s' = s"
    "ks_curthread s = Some c \<Longrightarrow> flow \<noteq> Done" by auto
  have "asleep s' = asleep s" using * by (auto simp: asleep_def sleeps_on_def fun_eq_iff)
  with * show "sync_inv s'"
    by (intro sync_inv_shrink [OF assms(1) thread_yield_inv [OF sync_inv_thread [OF assms(1)] assms(2)]])
       auto
qed

lemma exit_good:
  assumes "sync_inv s" "thread_exit kmalloc_ok s = Some (flow, s')"
  shows "sync_inv s'" "ks_locks s' = ks_locks s" "flow \<noteq> Done"
proof -
  obtain c th where e: "ks_curthread s = Some c" "ks_threads s c = Some th"
    "flow = Blocked [FSwitch, FDead]" "sl_l s' = sl_l s"
    "ks_threads s' = (ks_threads s)(c \<mapsto> th\<lparr> th_vmspace := None, th_cwd := None \<rparr>)"
    "ks_fresh s' = ks_fresh s" "ks_locks s' = ks_locks s" "ks_sems s' = ks_sems s"
    using thread_exit_done [OF sync_inv_tables [OF assms(1)] assms(2)] by metis
  have "asleep s' = asleep s" using e(2) by (auto simp: asleep_def sleeps_on_def e(4,5) fun_eq_iff)
  then show "sync_inv s'"
    by (intro sync_inv_shrink [OF assms(1) thread_exit_inv [OF sync_inv_thread [OF assms(1)] assms(2)]])
       (auto simp: e(6-8))
  show "ks_locks s' = ks_locks s" "flow \<noteq> Done" using e by simp_all
qed

lemma fresh_not_asleep:
  assumes "thread_inv s"
  shows "ks_fresh s \<notin> set (sl_l s)"
proof
  assume "ks_fresh s \<in> set (sl_l s)"
  then have "ks_fresh s \<in> dom (ks_threads s)" using assms unfolding thread_inv_def live_def by auto
  then have "ks_fresh s < ks_fresh s" using assms unfolding thread_inv_def by blast
  then show False by simp
qed

lemma fork_thread_inv:
  assumes "thread_inv s" "thread_fork mem name s = Some (r, s')"
  shows "thread_inv s'"
proof -
  note f = thread_fork_done [OF assms]
  have new: "ks_threads s (ks_fresh s) = None"
    using assms(1) unfolding thread_inv_def by (meson domIff less_irrefl)
  show ?thesis
  proof (cases r)
    case (Inl e)
    with f have l: "ks_threads s' = ks_threads s" "rq_l s' = rq_l s" "sl_l s' = sl_l s" "zb_l s' = zb_l s"
      "ks_curthread s' = ks_curthread s" "ks_switching s' = ks_switching s" "ks_fresh s \<le> ks_fresh s'"
      "ks_numthreads s' = ks_numthreads s" "tables_ok s'" by auto
    have lv: "live s' = live s" by (simp add: live_def l cur_l_def)
    show ?thesis
      by (rule thread_inv_move [OF assms(1) l(9)])
         (use assms(1) in \<open>auto simp: l lv thread_inv_def sleeps_on_def\<close>)
  next
    case (Inr t)
    with f obtain c me th where l: "t = ks_fresh s" "t < ks_fresh s'" "rq_l s' = rq_l s @ [t]"
      "sl_l s' = sl_l s" "zb_l s' = zb_l s" "ks_curthread s' = ks_curthread s"
      "ks_switching s' = ks_switching s" "ks_numthreads s' = ks_numthreads s + 1" "tables_ok s'"
      "ks_curthread s = Some c" "ks_threads s c = Some me"
      "ks_threads s' = (ks_threads s)(t \<mapsto> th, c \<mapsto> me\<lparr> th_child := add_child t (th_child me) \<rparr>)"
      by auto
    have dom: "dom (ks_threads s') = insert t (dom (ks_threads s))" using l(11) by (auto simp: l(12))
    have lv: "live s' = cur_l s @ (rq_l s @ [t]) @ sl_l s" by (simp add: live_def l cur_l_def)
    have nin: "t \<notin> set (live s @ zb_l s)" using assms(1) new l(1) by (auto simp: thread_inv_def)
    have on: "sleeps_on s' a u = sleeps_on s a u" if "u \<noteq> t" for a u
      using that l(11) by (auto simp: sleeps_on_def l(12))
    have sl: "\<forall>u\<in>set (sl_l s'). \<exists>a. sleeps_on s' a u"
    proof
      fix u assume u: "u \<in> set (sl_l s')"
      then have "u \<noteq> t" using fresh_not_asleep [OF assms(1)] by (auto simp: l(1,4))
      moreover obtain a where "sleeps_on s a u"
        using assms(1) u unfolding thread_inv_def l(4) by blast
      ultimately show "\<exists>a. sleeps_on s' a u" using on by blast
    qed
    have fr: "\<forall>u\<in>dom (ks_threads s'). u < ks_fresh s'"
    proof
      fix u assume "u \<in> dom (ks_threads s')"
      then have "u = t \<or> u < ks_fresh s" using assms(1) unfolding dom thread_inv_def by blast
      then show "u < ks_fresh s'" using l(1,2) by auto
    qed
    have D: "distinct (live s @ zb_l s)" "set (live s @ zb_l s) = dom (ks_threads s)"
      "ks_numthreads s = int (length (live s))" "ks_switching s = None"
      using assms(1) l(10) by (simp_all add: thread_inv_def)
    have "distinct (live s' @ zb_l s')" using D(1) nin unfolding lv l(5) by (auto simp: live_def)
    moreover have "set (live s' @ zb_l s') = dom (ks_threads s')"
      unfolding dom D(2) [symmetric] lv l(5) by (auto simp: live_def)
    moreover have "ks_numthreads s' = int (length (live s'))" unfolding lv l(8) D(3) by (simp add: live_def)
    ultimately show ?thesis using sl fr l(6,7,9,10) D(4) unfolding thread_inv_def by simp
  qed
qed

lemma fork_good:
  assumes "sync_inv s" "ks_curthread s = Some c" "thread_fork mem name s = Some (r, s')"
  shows "sync_inv s'" "ks_curthread s' = Some c"
    "ks_locks s' l = ks_locks s l \<or> ks_locks s l = None \<and> ks_locks s' l = Some None"
proof -
  note f = thread_fork_done [OF sync_inv_thread [OF assms(1)] assms(3)]
  have locks: "ks_locks s' l = ks_locks s l \<or> ks_fresh s \<le> l \<and> l < ks_fresh s' \<and> ks_locks s' l = Some None" for l
    using f by blast
  have t: "t \<notin> set (sl_l s)" if "r = Inr t" for t
    using f that fresh_not_asleep [OF sync_inv_thread [OF assms(1)]] by auto
  have "asleep s' ch \<subseteq> asleep s ch" for ch
  proof (cases r)
    case (Inl e)
    then show ?thesis using f by (auto simp: asleep_def sleeps_on_def)
  next
    case (Inr u)
    with f obtain c' me th where thr: "ks_threads s c' = Some me"
      "ks_threads s' = (ks_threads s)(u \<mapsto> th, c' \<mapsto> me\<lparr> th_child := add_child u (th_child me) \<rparr>)"
      "sl_l s' = sl_l s" by auto
    then have on: "sleeps_on s' ch x = sleeps_on s ch x" if "x \<noteq> u" for x
      using that by (auto simp: sleeps_on_def)
    show ?thesis
    proof
      fix x assume x: "x \<in> asleep s' ch"
      then have "x \<noteq> u" using t [OF Inr] thr(3) by (auto simp: asleep_def)
      then show "x \<in> asleep s ch" using x on [of x] thr(3) by (simp add: asleep_def)
    qed
  qed
  then show "sync_inv s'"
    by (intro sync_inv_shrink [OF assms(1) fork_thread_inv [OF sync_inv_thread [OF assms(1)] assms(3)]])
       (use f locks in auto)
  show "ks_curthread s' = Some c" using f assms(2) by simp
  have "ks_locks s l = None" if "ks_fresh s \<le> l"
    using sync_invD(2) [OF assms(1), of l] that by (meson not_le)
  then show "ks_locks s' l = ks_locks s l \<or> ks_locks s l = None \<and> ks_locks s' l = Some None"
    using locks [of l] by auto
qed

lemma sem_create_good:
  assumes "sync_inv s" "sem_create a b n s = Some (r, s')"
  shows "sync_inv s'" "ks_locks s' = ks_locks s" "ks_curthread s' = ks_curthread s"
proof -
  have n: "0 \<le> n" and s': "s' = s \<or> s' = s\<lparr> ks_sems := (ks_sems s)(ks_fresh s \<mapsto> n), ks_fresh := ks_fresh s + 1 \<rparr>"
    using assms(2) by (auto simp: sem_create_def ksimps split: if_splits)
  then show "ks_locks s' = ks_locks s" "ks_curthread s' = ks_curthread s" by auto
  have "thread_inv s'"
    using s' sync_inv_thread [OF assms(1)]
    by (elim disjE) (auto intro!: thread_inv_frame [of s] simp: sleeps_on_def)
  moreover have "asleep s (Sem (ks_fresh s)) = {}" using sync_invD(4) [OF assms(1)] by blast
  ultimately show "sync_inv s'"
    using s' n by (intro sync_inv_change [OF assms(1)]) (auto split: if_splits)
qed

lemma sem_destroy_good:
  assumes "sync_inv s" "sem_destroy m s = Some s'"
  shows "sync_inv s'" "ks_locks s' = ks_locks s" "ks_curthread s' = ks_curthread s"
proof -
  have s': "s' = s\<lparr> ks_sems := (ks_sems s)(m := None) \<rparr>"
    using assms(2) by (auto simp: sem_destroy_def splhigh_def splx_def ksimps
        Option.bind_eq_Some_conv split: if_splits)
  then show "ks_locks s' = ks_locks s" "ks_curthread s' = ks_curthread s" by auto
  show "sync_inv s'"
    using s' by (intro sync_inv_change [OF assms(1)]) (auto simp: sync_inv_thread [OF assms(1)])
qed

lemma lock_create_good:
  assumes "sync_inv s" "lock_create a b s = (r, s')"
  shows "sync_inv s'" "ks_locks s' l = ks_locks s l \<or> ks_locks s l = None \<and> ks_locks s' l = Some None"
    "ks_curthread s' = ks_curthread s"
proof -
  from lock_create_done [OF assms(2)] obtain lk n where s': "s' = s\<lparr> ks_locks := lk, ks_fresh := n \<rparr>"
    "ks_fresh s \<le> n" and lk: "\<And>l. lk l = ks_locks s l \<or> ks_fresh s \<le> l \<and> l < n \<and> lk l = Some None"
    by auto
  have "thread_inv s'"
    using s' sync_inv_thread [OF assms(1)] by (auto intro!: thread_inv_frame [of s] simp: sleeps_on_def)
  then show "sync_inv s'" using s' lk by (intro sync_inv_shrink [OF assms(1)]) auto
  have "ks_locks s l = None" if "ks_fresh s \<le> l"
    using sync_invD(2) [OF assms(1), of l] that by (meson not_le)
  then show "ks_locks s' l = ks_locks s l \<or> ks_locks s l = None \<and> ks_locks s' l = Some None"
    using lk [of l] s'(1) by auto
  show "ks_curthread s' = ks_curthread s" by (simp add: s'(1))
qed

lemma cv_create_good:
  assumes "sync_inv s" "cv_create a b s = (r, s')"
  shows "sync_inv s'" "ks_locks s' = ks_locks s" "ks_curthread s' = ks_curthread s"
proof -
  from cv_create_done [OF assms(2)] obtain cv n where s': "s' = s\<lparr> ks_cvs := cv, ks_fresh := n \<rparr>"
    "ks_fresh s \<le> n" by auto
  have "thread_inv s'"
    using s' sync_inv_thread [OF assms(1)] by (auto intro!: thread_inv_frame [of s] simp: sleeps_on_def)
  then show "sync_inv s'" using s' by (intro sync_inv_shrink [OF assms(1)]) auto
  show "ks_locks s' = ks_locks s" "ks_curthread s' = ks_curthread s" by (simp_all add: s'(1))
qed

lemma release_locks:
  assumes "sync_inv s" "ks_curthread s = Some c" "lock_release kmalloc_ok l s = Some s'"
  shows "locks_by False c s s'" "ks_locks s' l = Some None"
proof -
  let ?s = "s\<lparr> ks_curspl := SPL_HIGH, ks_locks := (ks_locks s)(l \<mapsto> None) \<rparr>"
  from assms(3) obtain s2 where own: "ks_locks s l = Some (ks_curthread s)"
    and w: "thread_wakeup kmalloc_ok (Lock l) ?s = Some s2"
    and s': "s' = s2\<lparr> ks_curspl := ks_curspl s \<rparr>"
    by (auto simp: lock_release_def lock_do_i_hold_def splhigh_def splx_def ksimps
        Option.bind_eq_Some_conv split: if_splits)
  have "tables_ok ?s" using sync_inv_tables [OF assms(1)] by (simp add: tables_ok_def)
  from wakeup_asleep(4) [OF this w] have "ks_locks s' = (ks_locks s)(l \<mapsto> None)" by (simp add: s')
  with own assms(2) show "locks_by False c s s'" "ks_locks s' l = Some None"
    by (auto simp: locks_by_def)
qed

text \<open>
  What a call guarantees: the invariant, and every lock is either untouched, or was free
  or owned by the caller and still is, or is new.
\<close>

definition locks_step :: "tid \<Rightarrow> ksys \<Rightarrow> ksys \<Rightarrow> bool" where
  "locks_step c s s' \<longleftrightarrow> (\<forall>l. ks_locks s' l = ks_locks s l \<or>
     ks_locks s l \<in> {None, Some None, Some (Some c)} \<and> ks_locks s' l \<in> {Some None, Some (Some c)})"

lemma locks_step_by: "locks_by False c s s' \<Longrightarrow> locks_step c s s'"
  unfolding locks_by_def locks_step_def by blast

lemma locks_step_same: "ks_locks s' = ks_locks s \<Longrightarrow> locks_step c s s'"
  by (simp add: locks_step_def)

lemma locks_step_new:
  "(\<And>l. ks_locks s' l = ks_locks s l \<or> ks_locks s l = None \<and> ks_locks s' l = Some None) \<Longrightarrow>
   locks_step c s s'"
  unfolding locks_step_def by blast

lemma splhigh_eq: "splhigh s = (ks_curspl s, s\<lparr> ks_curspl := SPL_HIGH \<rparr>)"
  by (simp add: splhigh_def splx_def)

lemma wake_call_good:
  assumes "sync_inv s"
  shows "thread_wakeup kmalloc_ok ch (s\<lparr> ks_curspl := SPL_HIGH \<rparr>) = Some s1 \<Longrightarrow>
      sync_inv s1 \<and> ks_locks s1 = ks_locks s"
    and "thread_wakeone kmalloc_ok ch (s\<lparr> ks_curspl := SPL_HIGH \<rparr>) = Some s1 \<Longrightarrow>
      sync_inv s1 \<and> ks_locks s1 = ks_locks s"
proof -
  let ?s = "s\<lparr> ks_curspl := SPL_HIGH \<rparr>"
  have s: "sync_inv ?s" using assms by simp
  show "sync_inv s1 \<and> ks_locks s1 = ks_locks s" if "thread_wakeup kmalloc_ok ch ?s = Some s1"
    using wakeup_sync_inv [OF s that] wakeup_asleep(4) [OF sync_inv_tables [OF s] that] by simp
  show "sync_inv s1 \<and> ks_locks s1 = ks_locks s" if "thread_wakeone kmalloc_ok ch ?s = Some s1"
    using wakeone_sync_inv [OF s that] by simp
qed

lemma kcall_good:
  assumes "sync_inv s" "ks_curthread s = Some c" "kcall_exec ok op s = Some (flow, s')"
  shows "sync_inv s' \<and> locks_step c s s'"
proof (cases op)
  case Yield
  with assms yield_good [OF assms(1)] show ?thesis by (auto intro: locks_step_same)
next
  case Exit
  with assms exit_good [OF assms(1)] show ?thesis by (auto intro: locks_step_same)
next
  case (Fork mem name)
  with assms(3) obtain r where "thread_fork mem name s = Some (r, s')"
    by (auto simp: Option.bind_eq_Some_conv)
  from fork_good [OF assms(1,2) this] show ?thesis by (auto intro: locks_step_new)
next
  case (SemP m)
  then have p: "P_loop ok m (ks_curspl s) (s\<lparr> ks_curspl := SPL_HIGH \<rparr>) = Some (flow, s')"
    using assms(3) by (auto simp: sem_P_def splhigh_eq ksimps split: if_splits)
  have "sync_inv (s\<lparr> ks_curspl := SPL_HIGH \<rparr>)" using assms(1) by simp
  from P_loop_inv [OF this p] P_loop_locks [OF this _ p, of c] assms(2) show ?thesis
    by (auto intro: locks_step_same)
next
  case (SemV m)
  then have v: "sem_V ok m s = Some s'" using assms(3) by (auto simp: Option.bind_eq_Some_conv)
  then obtain k s2 where w: "thread_wakeup ok (Sem m)
        (s\<lparr> ks_curspl := SPL_HIGH, ks_sems := (ks_sems s)(m \<mapsto> k) \<rparr>) = Some s2"
    and s': "s' = s2\<lparr> ks_curspl := ks_curspl s \<rparr>"
    by (auto simp: sem_V_def splhigh_eq splx_def ksimps Option.bind_eq_Some_conv split: if_splits)
  have "tables_ok (s\<lparr> ks_curspl := SPL_HIGH, ks_sems := (ks_sems s)(m \<mapsto> k) \<rparr>)"
    using sync_inv_tables [OF assms(1)] by (simp add: tables_ok_def)
  from wakeup_asleep(4) [OF this w] sem_V_inv [OF assms(1) v] show ?thesis
    by (auto intro!: locks_step_same simp: s')
next
  case (Acquire l)
  with assms lock_acquire_good(1) [OF assms(1,2)] show ?thesis
    by (auto simp: good_step_def intro: locks_step_by)
next
  case (Release l)
  then have r: "lock_release ok l s = Some s'" using assms(3) by (auto simp: Option.bind_eq_Some_conv)
  from lock_release_inv(1) [OF assms(1) r] release_locks(1) [OF assms(1,2) r] show ?thesis
    by (auto intro: locks_step_by)
next
  case (CvWait cv l)
  let ?s = "s\<lparr> ks_curspl := SPL_HIGH \<rparr>"
  from CvWait assms(3) obtain s2 fl where r: "lock_release ok l ?s = Some s2"
    and sl: "thread_sleep ok (Cv cv) s2 = Some (fl, s')"
    by (auto simp: cv_wait_def splhigh_eq ksimps Option.bind_eq_Some_conv block_with_Some
        split: if_split_asm)
  have s: "sync_inv ?s" "ks_curthread ?s = Some c" using assms(1,2) by simp_all
  from sleep_keeps_locks(1) [OF lock_release_inv(1) [OF s(1) r] sl] release_locks(1) [OF s r]
  have "locks_step c s s'" by (auto intro!: locks_step_by simp: locks_by_def)
  with cv_wait_inv [OF assms(1)] CvWait assms(3) show ?thesis by auto
next
  case (CvSignal cv l)
  with assms(3) obtain s1 where "thread_wakeone ok (Cv cv) (s\<lparr> ks_curspl := SPL_HIGH \<rparr>) = Some s1"
    "s' = s1\<lparr> ks_curspl := ks_curspl s \<rparr>"
    by (auto simp: cv_signal_def splhigh_eq splx_def ksimps Option.bind_eq_Some_conv split: if_splits)
  with wake_call_good [OF assms(1)] show ?thesis by (auto intro: locks_step_same)
next
  case (CvBroadcast cv l)
  with assms(3) obtain s1 where "thread_wakeup ok (Cv cv) (s\<lparr> ks_curspl := SPL_HIGH \<rparr>) = Some s1"
    "s' = s1\<lparr> ks_curspl := ks_curspl s \<rparr>"
    by (auto simp: cv_broadcast_def splhigh_eq splx_def ksimps Option.bind_eq_Some_conv split: if_splits)
  with wake_call_good [OF assms(1)] show ?thesis by (auto intro: locks_step_same)
next
  case (Clocksleep n)
  then have "clock_loop ok n (ks_curspl s) (s\<lparr> ks_curspl := SPL_HIGH \<rparr>) = Some (flow, s')"
    using assms(3) by (simp add: clocksleep_def splhigh_eq)
  from clock_loop_good [OF _ _ this] assms(1,2) show ?thesis
    by (auto simp: good_step_def locks_by_def intro!: locks_step_by)
next
  case (SemCreate n)
  with assms(3) sem_create_good [OF assms(1)] show ?thesis
    by (auto simp: Option.bind_eq_Some_conv intro: locks_step_same)
next
  case (SemDestroy m)
  with assms(3) sem_destroy_good [OF assms(1)] show ?thesis
    by (auto simp: Option.bind_eq_Some_conv intro: locks_step_same)
next
  case LockCreate
  then obtain r where "lock_create (ok 0) (ok 0) s = (r, s')"
    using assms(3) by (cases "lock_create (ok 0) (ok 0) s") simp
  from lock_create_good [OF assms(1) this] show ?thesis by (blast intro: locks_step_new)
next
  case CvCreate
  then obtain r where "cv_create (ok 0) (ok 0) s = (r, s')"
    using assms(3) by (cases "cv_create (ok 0) (ok 0) s") simp
  from cv_create_good [OF assms(1) this] show ?thesis by (blast intro: locks_step_same)
qed

section \<open>Steps\<close>

lemma timer_good:
  assumes "sync_inv s" "timer_interrupt ok s = Some (flow, s')"
  shows "sync_inv s'" "ks_locks s' = ks_locks s"
proof -
  let ?s = "s\<lparr> ks_curspl := SPL_HIGH, ks_in_interrupt := 1 \<rparr>"
  from assms(2) obtain fl s2 where h: "hardclock ok ?s = Some (fl, s2)"
    and r: "(case fl of Done \<Rightarrow> Some (Done, interrupt_end (ks_in_interrupt s) (ks_curspl s) s2)
       | Blocked fs \<Rightarrow> Some (Blocked (fs @ [FIntr (ks_in_interrupt s) (ks_curspl s)]), s2)) = Some (flow, s')"
    by (auto simp: timer_interrupt_def ksimps Let_def Option.bind_eq_Some_conv split: if_splits)
  have s: "sync_inv ?s" using assms(1) by simp
  from h obtain s1 where w: "s1 = ?s\<lparr> ks_lbolt_counter := ks_lbolt_counter s + 1 \<rparr> \<or>
      thread_wakeup ok Lbolt (?s\<lparr> ks_lbolt_counter := 0 \<rparr>) = Some s1"
    and y: "thread_yield ok s1 = Some (fl, s2)"
    by (auto simp: hardclock_def Let_def Option.bind_eq_Some_conv split: if_splits)
  have s0: "sync_inv (?s\<lparr> ks_lbolt_counter := 0 \<rparr>)" using s by simp
  from w have s1: "sync_inv s1" "ks_locks s1 = ks_locks s"
    using s wakeup_sync_inv [OF s0] wakeup_asleep(4) [OF sync_inv_tables [OF s0]] by auto
  note g = yield_good(1,2) [OF s1(1) y]
  from g r s1(2) show "sync_inv s'" "ks_locks s' = ks_locks s"
    by (cases fl; auto simp: interrupt_end_def splhigh_eq)+
qed

text \<open>Dispatching a thread disturbs neither sleepers nor locks.\<close>

lemma dispatch_good:
  assumes "sync_inv s" "ks_curthread s = None" "dispatch s = Some s'"
  shows "sync_inv s'" "ks_locks s' = ks_locks s"
proof -
  note d = dispatch_done [OF sync_inv_thread [OF assms(1)] assms(2,3)]
  have "ks_locks s' = ks_locks s \<and> ks_sems s' = ks_sems s \<and> ks_fresh s' = ks_fresh s \<and>
    (\<forall>u. map_option (\<lambda>th. th\<lparr> th_ininterrupt := 0 \<rparr>) (ks_threads s' u) =
         map_option (\<lambda>th. th\<lparr> th_ininterrupt := 0 \<rparr>) (ks_threads s u))"
    using d by (cases "rq_l s") auto
  then have same: "ks_locks s' = ks_locks s" "ks_sems s' = ks_sems s" "ks_fresh s' = ks_fresh s"
    and thr: "\<And>u. map_option (\<lambda>th. th\<lparr> th_ininterrupt := 0 \<rparr>) (ks_threads s' u) =
         map_option (\<lambda>th. th\<lparr> th_ininterrupt := 0 \<rparr>) (ks_threads s u)" by auto
  show "ks_locks s' = ks_locks s" by fact
  have on: "sleeps_on s' ch u = sleeps_on s ch u" for ch u
    using thr [of u] by (cases "ks_threads s' u"; cases "ks_threads s u")
      (auto simp: sleeps_on_def dest: arg_cong [of _ _ th_sleepaddr])
  show "sync_inv s'"
    by (rule sync_inv_shrink [OF assms(1)]) (use d same on in \<open>auto simp: asleep_def\<close>)
qed

text \<open>The thread that a step is an action of.\<close>

fun acts :: "actor \<Rightarrow> tid option" where
  "acts (Call c op) = Some c"
| "acts (Resume c) = Some c"
| "acts Timer = None"
| "acts Idle = None"

lemma kstep_good:
  assumes "kstep a s s'" "sync_inv s"
  shows "sync_inv s'"
    and "ks_locks s' l = ks_locks s l \<or> (\<exists>c. a = Resume c) \<and> ks_locks s' l = None \<or>
      (\<exists>c. acts a = Some c \<and> ks_locks s l \<in> {None, Some None, Some (Some c)} \<and>
           ks_locks s' l \<in> {Some None, Some (Some c)})"
proof -
  have "sync_inv s' \<and> (ks_locks s' l = ks_locks s l \<or> (\<exists>c. a = Resume c) \<and> ks_locks s' l = None \<or>
      (\<exists>c. acts a = Some c \<and> ks_locks s l \<in> {None, Some None, Some (Some c)} \<and>
           ks_locks s' l \<in> {Some None, Some (Some c)}))"
    using assms
  proof cases
    case (call c ok op flow s1)
    from kcall_good [OF assms(2) call(3,4)] have g: "sync_inv s1" "locks_step c s s1" by auto
    from g(2) have "ks_locks s1 l = ks_locks s l \<or>
      ks_locks s l \<in> {None, Some None, Some (Some c)} \<and> ks_locks s1 l \<in> {Some None, Some (Some c)}"
      unfolding locks_step_def by blast
    with g(1) call(1,2) show ?thesis by (auto simp: save_frames_inv)
  next
    case (resume s1 c th ok flow s2)
    note d = dispatch_good [OF assms(2) resume(3,4)]
    let ?s = "upd_thread c (\<lambda>th. th\<lparr> th_kont := [] \<rparr>) s1"
    have "sync_inv ?s" "ks_curthread ?s = Some c" using upd_cur_inv [OF d(1) resume(5)] resume(5) by auto
    from run_frames_good [OF this resume(7)] have g: "sync_inv s2" "locks_by True c ?s s2"
      by (auto simp: good_step_def)
    from g(2) have "ks_locks s2 l = ks_locks s l \<or> ks_locks s2 l = None \<or>
      ks_locks s l \<in> {Some None, Some (Some c)} \<and> ks_locks s2 l \<in> {Some None, Some (Some c)}"
      unfolding locks_by_def by (simp add: d(2))
    with g(1) resume(1,2) show ?thesis by (auto simp: save_frames_inv)
  next
    case (timer c ok flow s1)
    with timer_good [OF assms(2)] show ?thesis by (auto simp: save_frames_inv)
  next
    case (idle ok)
    with timer_good [OF assms(2)] show ?thesis by auto
  qed
  then show "sync_inv s'"
    "ks_locks s' l = ks_locks s l \<or> (\<exists>c. a = Resume c) \<and> ks_locks s' l = None \<or>
      (\<exists>c. acts a = Some c \<and> ks_locks s l \<in> {None, Some None, Some (Some c)} \<and>
           ks_locks s' l \<in> {Some None, Some (Some c)})" by blast+
qed

lemma ksteps_inv: "ksteps s s' \<Longrightarrow> sync_inv s \<Longrightarrow> sync_inv s'"
  by (induction rule: ksteps.induct) (auto intro: kstep_good(1))

section \<open>Start of the kernel\<close>

text \<open>
  The globals as the kernel image has them, and the two bootstrap calls \<^verbatim>\<open>boot\<close> makes for
  the thread system.
\<close>

definition ksys_image :: ksys where
  "ksys_image = \<lparr> ks_curthread = None, ks_switching = None, ks_threads = Map.empty,
     ks_sleepers = None, ks_zombies = None, ks_runqueue = None, ks_numthreads = 0,
     ks_pid_assign = 0, ks_curspl = SPL_HIGH, ks_in_interrupt = 0, ks_sems = Map.empty,
     ks_locks = Map.empty, ks_cvs = {}, ks_lbolt_counter = 0, ks_fresh = 0,
     ks_vrefs = (\<lambda>_. 0), ks_as_active = None, ks_as_destroyed = [] \<rparr>"

definition kernel_start :: "(u32 \<Rightarrow> bool) \<Rightarrow> (nat \<Rightarrow> bool) \<Rightarrow> (tid \<times> ksys) option" where
  "kernel_start kmalloc_ok mem = do {
     s \<leftarrow> scheduler_bootstrap kmalloc_ok ksys_image;
     thread_bootstrap mem s
   }"

lemma q_create_invar:
  assumes "q_create kmalloc_ok 32 = Some q"
  shows "q_invar q" "q_list q = []" "q_size q = 32"
proof -
  have b: "unat (word_of_int (32 * 4) :: u32) div 4 = nat 32" by (rule slot_bytes) simp_all
  have q: "q = \<lparr> q_size = 32, q_nextwrite = 0, q_nextread = 0, q_data = replicate (nat 32) None \<rparr>"
    using assms unfolding q_create_def Let_def b by (auto split: if_splits)
  have "q_rep q []" unfolding q by (rule q_rep_fresh) simp_all
  then show "q_invar q" "q_list q = []" by (simp_all add: q_rep_invar)
  show "q_size q = 32" by (simp add: q)
qed

lemma array_create_invar:
  assumes "array_create kmalloc_ok = Some a"
  shows "array_invar a" "array_list a = []"
proof -
  have "a = \<lparr> arr_num = 0, arr_max = 0, arr_v = None \<rparr>"
    using assms by (auto simp: array_create_def split: if_splits)
  then show "array_invar a" "array_list a = []" by (simp_all add: array_defs)
qed

lemma kernel_start_inv:
  assumes "kernel_start kmalloc_ok mem = Some (t, s)"
  shows "sync_inv s"
proof -
  from assms obtain q sl zs s1 where q: "q_create kmalloc_ok 32 = Some q"
    and sl: "array_create (\<lambda>_. mem 8) = Some sl" and zs: "array_create (\<lambda>_. mem 9) = Some zs"
    and tc: "thread_create mem ''<boot/menu>'' (ksys_image\<lparr> ks_runqueue := Some q, ks_sleepers := Some sl,
        ks_zombies := Some zs \<rparr>) = Some (Some t, s1)"
    and s: "s = s1\<lparr> ks_curthread := Some t, ks_numthreads := 1, ks_pid_assign := 0 \<rparr>"
    by (auto simp: kernel_start_def scheduler_bootstrap_def thread_bootstrap_def Option.bind_eq_Some_conv)
  from thread_create_done [OF tc] obtain th lk cv n where t: "t = 0" "0 < n"
    and s1: "s1 = ksys_image\<lparr> ks_runqueue := Some q, ks_sleepers := Some sl, ks_zombies := Some zs,
       ks_fresh := n, ks_locks := lk, ks_cvs := cv, ks_pid_assign := 1, ks_threads := [0 \<mapsto> th] \<rparr>"
    and lk: "\<forall>l. lk l = None \<or> 0 < l \<and> l < n \<and> lk l = Some None"
    by (fastforce simp: ksys_image_def)
  note c = q_create_invar [OF q] array_create_invar [OF sl] array_create_invar [OF zs]
  have f: "ks_runqueue s = Some q" "ks_sleepers s = Some sl" "ks_zombies s = Some zs" "ks_fresh s = n"
    "ks_locks s = lk" "ks_threads s = [0 \<mapsto> th]" "ks_curthread s = Some 0" "ks_numthreads s = 1"
    "ks_switching s = None" "ks_sems s = Map.empty"
    by (simp_all add: s s1 t ksys_image_def)
  have l: "rq_l s = []" "sl_l s = []" "zb_l s = []" "cur_l s = [0]" "tables_ok s"
    using c by (simp_all add: f rq_l_def sl_l_def zb_l_def cur_l_def tables_ok_def)
  show ?thesis
  proof (rule sync_invI)
    show "thread_inv s" using t(2) by (simp add: thread_inv_def live_def l f)
    show "ks_locks s l \<noteq> None \<Longrightarrow> l < ks_fresh s" for l using lk [rule_format, of l] by (auto simp: f)
  qed (simp_all add: f asleep_def l)
qed

end
