(* ===== verification/Thread_Props.thy ===== *)
theory Thread_Props
  imports Kern_Machine
begin

text \<open>
  The properties of the thread system and the synchronization primitives, for every
  state the machine reaches from the start of the kernel, with runs of the machine that
  show their hypotheses hold.
\<close>

section \<open>Concrete runs\<close>

definition run_call :: "kcall \<Rightarrow> ksys \<Rightarrow> ksys" where
  "run_call op s = (case kcall_exec (\<lambda>_. True) op s of
      Some (flow, s1) \<Rightarrow> save_frames (the (ks_curthread s)) flow s1 | None \<Rightarrow> s)"

definition can_call :: "kcall \<Rightarrow> ksys \<Rightarrow> bool" where
  "can_call op s \<longleftrightarrow> ks_curthread s \<noteq> None \<and> kcall_exec (\<lambda>_. True) op s \<noteq> None"

lemma run_call_step: "can_call op s \<Longrightarrow> kstep (Call (the (ks_curthread s)) op) s (run_call op s)"
  unfolding can_call_def run_call_def
  by (cases "kcall_exec (\<lambda>_. True) op s"; cases "ks_curthread s") (auto intro: kstep.call)

definition run_resume :: "ksys \<Rightarrow> (tid \<times> ksys) option" where
  "run_resume s = do {
     kassert (ks_curthread s = None);
     s1 \<leftarrow> dispatch s;
     c \<leftarrow> ks_curthread s1;
     th \<leftarrow> ks_threads s1 c;
     (flow, s2) \<leftarrow> run_frames (\<lambda>_. True) (th_kont th) (upd_thread c (\<lambda>th. th\<lparr> th_kont := [] \<rparr>) s1);
     Some (c, save_frames c flow s2)
   }"

lemma run_resume_step: "run_resume s = Some (c, s') \<Longrightarrow> kstep (Resume c) s s'"
  by (auto simp: run_resume_def ksimps Option.bind_eq_Some_conv intro: kstep.resume split: if_splits)

definition boot_state :: ksys where
  "boot_state = snd (the (kernel_start (\<lambda>_. True) (\<lambda>_. True)))"

lemma boot_state_start: "kernel_start (\<lambda>_. True) (\<lambda>_. True) = Some (0, boot_state)"
proof -
  have "map_option fst (kernel_start (\<lambda>_. True) (\<lambda>_. True)) = Some 0" by code_simp
  then show ?thesis by (auto simp: boot_state_def)
qed

lemma boot_state_inv: "sync_inv boot_state"
  by (rule kernel_start_inv [OF boot_state_start])

text \<open>The boot thread creates a semaphore with count 0 and another thread, and does a P.\<close>

definition blocked_state :: ksys where
  "blocked_state = run_call (SemP 4) (run_call (Fork (\<lambda>_. True) ''t'') (run_call (SemCreate 0) boot_state))"

lemma blocked_state_steps: "ksteps boot_state blocked_state"
proof -
  let ?s1 = "run_call (SemCreate 0) boot_state"
  let ?s2 = "run_call (Fork (\<lambda>_. True) ''t'') ?s1"
  have "can_call (SemCreate 0) boot_state" "can_call (Fork (\<lambda>_. True) ''t'') ?s1" "can_call (SemP 4) ?s2"
    by code_simp+
  then show ?thesis
    unfolding blocked_state_def by (meson ksteps.intros run_call_step)
qed

section \<open>Properties\<close>

text \<open>
  C1. In every state reachable from the start of the kernel, every thread structure is in
  exactly one place (processor, run queue, sleepers, zombies), none is lost or listed
  twice, and \<^verbatim>\<open>numthreads\<close> is the number of threads that are not zombies.
\<close>

theorem threads_conserved:
  assumes "kernel_start kmalloc_ok mem = Some (t, s0)" "ksteps s0 s"
  shows "distinct (cur_l s @ rq_l s @ sl_l s @ zb_l s) \<and>
    set (cur_l s @ rq_l s @ sl_l s @ zb_l s) = dom (ks_threads s) \<and>
    ks_numthreads s = int (length (cur_l s @ rq_l s @ sl_l s))"
proof -
  have "thread_inv s"
    by (rule sync_inv_thread [OF ksteps_inv [OF assms(2) kernel_start_inv [OF assms(1)]]])
  then show ?thesis by (simp add: thread_inv_def live_def)
qed

theorem threads_conserved_witness:
  "distinct (cur_l blocked_state @ rq_l blocked_state @ sl_l blocked_state @ zb_l blocked_state) \<and>
   ks_numthreads blocked_state = 2 \<and> rq_l blocked_state = [5] \<and> sl_l blocked_state = [0]"
proof -
  have "rq_l blocked_state = [5]" "sl_l blocked_state = [0]" "cur_l blocked_state = []"
    by code_simp+
  with threads_conserved [OF boot_state_start blocked_state_steps] show ?thesis by simp
qed



text \<open>
  C3. Mutual exclusion: a lock that a thread owns stays that thread's through every step that
  is not an action of the thread itself (unless the lock object is destroyed), and a
  thread becomes owner only by its own action, on a lock nobody owned.
\<close>

theorem lock_exclusion:
  assumes "sync_inv s" "kstep a s s'"
  shows "(ks_locks s l = Some (Some t) \<and> acts a \<noteq> Some t \<longrightarrow>
      ks_locks s' l = Some (Some t) \<or> (\<exists>c. a = Resume c) \<and> ks_locks s' l = None) \<and>
    (ks_locks s' l = Some (Some t) \<and> ks_locks s l \<noteq> Some (Some t) \<longrightarrow>
      acts a = Some t \<and> (\<forall>u. ks_locks s l \<noteq> Some (Some u)))"
  using kstep_good(2) [OF assms(2,1), of l] by auto

theorem lock_exclusion_witness:
  "ks_locks (run_call (Acquire 4) (run_call LockCreate boot_state)) 4 = Some (Some 0) \<and>
   ks_locks (run_call LockCreate boot_state) 4 = Some None"
proof -
  let ?s = "run_call LockCreate boot_state"
  have c: "can_call LockCreate boot_state" "can_call (Acquire 4) ?s" "ks_curthread ?s = Some 0"
    "ks_locks ?s 4 = Some None" "ks_locks (run_call (Acquire 4) ?s) 4 = Some (Some 0)"
    by code_simp+
  have inv: "sync_inv ?s" by (rule kstep_good(1) [OF run_call_step [OF c(1)] boot_state_inv])
  have "acts (Call (the (ks_curthread ?s)) (Acquire 4)) = Some 0 \<and> (\<forall>u. ks_locks ?s 4 \<noteq> Some (Some u))"
    using lock_exclusion [OF inv run_call_step [OF c(2)], of 4 0] c by simp
  with c show ?thesis by simp
qed

text \<open>
  C4. \<^verbatim>\<open>lock_acquire\<close>, \<^verbatim>\<open>lock_release\<close>: acquiring a free lock returns at once with the caller as
  owner; acquiring a held one puts the caller among the sleepers on that lock and
  changes no owner; releasing requires ownership, frees the lock and wakes every
  thread asleep on it.
\<close>

theorem lock_behaviour:
  assumes "sync_inv s" "ks_curthread s = Some c" "ks_locks s l = Some own"
  shows "(own = None \<longrightarrow> (\<exists>s'. lock_acquire ok l s = Some (Done, s') \<and> ks_locks s' l = Some (Some c) \<and>
            ks_curspl s' = ks_curspl s)) \<and>
    (own \<noteq> None \<and> lock_acquire ok l s = Some (flow, s1) \<longrightarrow>
        flow \<noteq> Done \<and> asleep s1 (Lock l) = insert c (asleep s (Lock l)) \<and> ks_locks s1 = ks_locks s) \<and>
    (lock_release ok l s = Some s2 \<longrightarrow>
        own = Some c \<and> ks_locks s2 l = Some None \<and> asleep s2 (Lock l) = {} \<and>
        ks_curspl s2 = ks_curspl s) \<and>
    (own \<noteq> Some c \<longrightarrow> lock_release ok l s = None)"
proof (intro conjI impI)
  show "\<exists>s'. lock_acquire ok l s = Some (Done, s') \<and> ks_locks s' l = Some (Some c) \<and>
      ks_curspl s' = ks_curspl s" if "own = None"
    using assms that by (auto simp: lock_acquire_def acquire_loop_def splhigh_eq splx_def)
  let ?s = "s\<lparr> ks_curspl := SPL_HIGH \<rparr>"
  {
    assume h: "own \<noteq> None \<and> lock_acquire ok l s = Some (flow, s1)"
    then obtain fs where sl: "thread_sleep ok (Lock l) ?s = Some (Blocked fs, s1)"
      and "flow = Blocked (fs @ [FAcquire l (ks_curspl s)])"
      using assms(3) by (auto simp: lock_acquire_def acquire_loop_def splhigh_eq block_with_Some)
    moreover have "sync_inv ?s" using assms(1) by simp
    from sleep_asleep [OF this sl] assms(2)
    have "asleep s1 (Lock l) = insert c (asleep s (Lock l))" "ks_locks s1 = ks_locks s" by auto
    ultimately show "flow \<noteq> Done" "asleep s1 (Lock l) = insert c (asleep s (Lock l))"
      "ks_locks s1 = ks_locks s" by auto
  }
  {
    assume r: "lock_release ok l s = Some s2"
    let ?s' = "s\<lparr> ks_curspl := SPL_HIGH, ks_locks := (ks_locks s)(l \<mapsto> None) \<rparr>"
    from r obtain s3 where own: "ks_locks s l = Some (ks_curthread s)"
      and w: "thread_wakeup ok (Lock l) ?s' = Some s3" and s2: "s2 = s3\<lparr> ks_curspl := ks_curspl s \<rparr>"
      by (auto simp: lock_release_def lock_do_i_hold_def splhigh_eq splx_def ksimps
          Option.bind_eq_Some_conv split: if_splits)
    have "tables_ok ?s'" using sync_inv_tables [OF assms(1)] by (simp add: tables_ok_def)
    from wakeup_asleep(1) [OF this w] show "asleep s2 (Lock l) = {}" by (simp add: s2)
    show "own = Some c" using own assms by simp
    show "ks_locks s2 l = Some None" by (rule release_locks(2) [OF assms(1,2) r])
    show "ks_curspl s2 = ks_curspl s" by (simp add: s2)
  }
  show "lock_release ok l s = None" if "own \<noteq> Some c"
    using that assms by (simp add: lock_release_def lock_do_i_hold_def)
qed

theorem lock_behaviour_witness:
  "\<exists>s s'. sync_inv s \<and> ks_curthread s = Some 0 \<and> ks_locks s 4 = Some None \<and>
     lock_acquire (\<lambda>_. True) 4 s = Some (Done, s') \<and> ks_locks s' 4 = Some (Some 0)"
proof -
  let ?s = "run_call LockCreate boot_state"
  have c: "can_call LockCreate boot_state" "ks_curthread ?s = Some 0" "ks_locks ?s 4 = Some None"
    by code_simp+
  have inv: "sync_inv ?s" by (rule kstep_good(1) [OF run_call_step [OF c(1)] boot_state_inv])
  obtain s' where "lock_acquire (\<lambda>_. True) 4 ?s = Some (Done, s')" "ks_locks s' 4 = Some (Some 0)"
    using lock_behaviour [OF inv c(2,3), of "\<lambda>_. True"] by auto
  with inv c show ?thesis by blast
qed

end
