(* ===== verification/Kern_Uio.thy ===== *)
theory Kern_Uio
  imports Kern_Coremap
begin

text \<open>
  Moving data between the kernel and a buffer of a process:
  \<^verbatim>\<open>kern/lib/copyinout.c\<close> and \<^verbatim>\<open>kern/userprog/uio.c\<close>.

  A \<^verbatim>\<open>struct uio\<close> is a record with the memory its iovec points into (\<open>uio_mem\<close>), the
  addresses whose access ends in a fatal fault (\<open>uio_bad\<close>: those \<^verbatim>\<open>vm_fault\<close> refuses)
  and the address space of the current thread (\<open>uio_curspace\<close>). The kernel buffer on the
  other side of a copy is a separate object: a list of bytes, passed in and handed back. A copy
  between distinct objects does not depend on its direction, so \<^verbatim>\<open>memcpy\<close> and
  \<^verbatim>\<open>memmove\<close> are the byte loops below; a fault in the middle leaves the bytes before it
  copied. The addresses of a kernel buffer given to \<^verbatim>\<open>mk_kuio\<close> count from its start.

  The theory shows that user copies never touch an address at or above \<open>USERTOP\<close>, fail
  exactly when some byte of the range is outside user space or faults, and that
  \<^verbatim>\<open>uiomove\<close> accounts for every byte it moves.
\<close>

section \<open>Byte copies that may fault\<close>

type_synonym bytes = "u8 list"
type_synonym umem = "u32 \<Rightarrow> u8"

definition USERTOP :: u32 where
  "USERTOP = MIPS_KSEG0"

fun load_bytes :: "(u32 \<Rightarrow> bool) \<Rightarrow> umem \<Rightarrow> u32 \<Rightarrow> nat \<Rightarrow> bytes \<times> bool" where
  "load_bytes bad m a 0 = ([], True)"
| "load_bytes bad m a (Suc n) =
     (if bad a then ([], False)
      else let (xs, done) = load_bytes bad m (a + 1) n in (m a # xs, done))"

fun store_bytes :: "(u32 \<Rightarrow> bool) \<Rightarrow> umem \<Rightarrow> u32 \<Rightarrow> bytes \<Rightarrow> umem \<times> bool" where
  "store_bytes bad m a [] = (m, True)"
| "store_bytes bad m a (x # xs) =
     (if bad a then (m, False) else store_bytes bad (m(a := x)) (a + 1) xs)"

text \<open>The bytes of a kernel buffer from \<open>pos\<close> on, overwritten.\<close>

definition patch :: "nat \<Rightarrow> bytes \<Rightarrow> bytes \<Rightarrow> bytes" where
  "patch pos xs buf = take pos buf @ xs @ drop (pos + length xs) buf"

section \<open>copyinout.c\<close>

text \<open>The value on success is \<^verbatim>\<open>*stoplen\<close>.\<close>

definition copycheck :: "u32 \<Rightarrow> nat \<Rightarrow> errno + nat" where
  "copycheck userptr len = (
     let bot = userptr; top_a = bot + word_of_nat len - 1 in
     if top_a < bot then Inl EFAULT
     else if bot \<ge> USERTOP then Inl EFAULT
     else if top_a \<ge> USERTOP then Inr (unat (USERTOP - bot))
     else Inr len)"

text \<open>Both take the kernel buffer as a list; \<^verbatim>\<open>copyin\<close> hands back its bytes from \<open>dest\<close> on.\<close>

definition copyin :: "(u32 \<Rightarrow> bool) \<Rightarrow> umem \<Rightarrow> u32 \<Rightarrow> nat \<Rightarrow> bytes \<Rightarrow> (errno + unit) \<times> bytes" where
  "copyin bad m usersrc len dest =
     (case copycheck usersrc len of
        Inl e \<Rightarrow> (Inl e, dest)
      | Inr stoplen \<Rightarrow>
          if stoplen \<noteq> len then (Inl EFAULT, dest)
          else let (xs, done) = load_bytes bad m usersrc len in
               (if done then Inr () else Inl EFAULT, patch 0 xs dest))"

definition copyout :: "(u32 \<Rightarrow> bool) \<Rightarrow> umem \<Rightarrow> bytes \<Rightarrow> u32 \<Rightarrow> nat \<Rightarrow> (errno + unit) \<times> umem" where
  "copyout bad m src userdest len =
     (case copycheck userdest len of
        Inl e \<Rightarrow> (Inl e, m)
      | Inr stoplen \<Rightarrow>
          if stoplen \<noteq> len then (Inl EFAULT, m)
          else let (m', done) = store_bytes bad m userdest (take len src) in
               (if done then Inr () else Inl EFAULT, m'))"

text \<open>
  \<^verbatim>\<open>copystr\<close> from user memory into a kernel buffer, and the other way. The counter
  \<open>i\<close> runs below both limits; the value on success is \<^verbatim>\<open>*gotlen\<close>. A kernel string or
  buffer that ends before the copy does is an access outside the object, \<open>None\<close>.
\<close>

function copystr_in ::
  "(u32 \<Rightarrow> bool) \<Rightarrow> umem \<Rightarrow> bytes \<Rightarrow> u32 \<Rightarrow> nat \<Rightarrow> nat \<Rightarrow> nat \<Rightarrow> ((errno + nat) \<times> bytes) option" where
  "copystr_in bad m dest src maxlen stoplen i =
     (if i < maxlen \<and> i < stoplen
      then let a = src + word_of_nat i in
           if bad a then Some (Inl EFAULT, dest)
           else do {
             dest' \<leftarrow> slot_set dest (int i) (m a);
             if m a = 0 then Some (Inr (i + 1), dest')
             else copystr_in bad m dest' src maxlen stoplen (i + 1)
           }
      else Some (Inl (if stoplen < maxlen then EFAULT else ENAMETOOLONG), dest))"
  by pat_completeness auto
termination
  by (relation "measure (\<lambda>(bad, m, dest, src, maxlen, stoplen, i). maxlen - i)") auto

function copystr_out ::
  "(u32 \<Rightarrow> bool) \<Rightarrow> umem \<Rightarrow> u32 \<Rightarrow> bytes \<Rightarrow> nat \<Rightarrow> nat \<Rightarrow> nat \<Rightarrow> ((errno + nat) \<times> umem) option" where
  "copystr_out bad m dest src maxlen stoplen i =
     (if i < maxlen \<and> i < stoplen
      then do {
        c \<leftarrow> slot_get src (int i);
        let a = dest + word_of_nat i;
        if bad a then Some (Inl EFAULT, m)
        else if c = 0 then Some (Inr (i + 1), m(a := c))
        else copystr_out bad (m(a := c)) dest src maxlen stoplen (i + 1)
      }
      else Some (Inl (if stoplen < maxlen then EFAULT else ENAMETOOLONG), m))"
  by pat_completeness auto
termination
  by (relation "measure (\<lambda>(bad, m, dest, src, maxlen, stoplen, i). maxlen - i)") auto

definition copyinstr ::
  "(u32 \<Rightarrow> bool) \<Rightarrow> umem \<Rightarrow> u32 \<Rightarrow> bytes \<Rightarrow> nat \<Rightarrow> ((errno + nat) \<times> bytes) option" where
  "copyinstr bad m usersrc dest len =
     (case copycheck usersrc len of
        Inl e \<Rightarrow> Some (Inl e, dest)
      | Inr stoplen \<Rightarrow> copystr_in bad m dest usersrc len stoplen 0)"

definition copyoutstr ::
  "(u32 \<Rightarrow> bool) \<Rightarrow> umem \<Rightarrow> bytes \<Rightarrow> u32 \<Rightarrow> nat \<Rightarrow> ((errno + nat) \<times> umem) option" where
  "copyoutstr bad m src userdest len =
     (case copycheck userdest len of
        Inl e \<Rightarrow> Some (Inl e, m)
      | Inr stoplen \<Rightarrow> copystr_out bad m userdest src len stoplen 0)"

section \<open>uio.c\<close>

datatype uio_rw = UIO_READ | UIO_WRITE

datatype uio_seg = UIO_USERSPACE | UIO_SYSSPACE | UIO_USERISPACE

record uio =
  iov_base :: u32
  iov_len :: nat
  uio_offset :: int
  uio_resid :: nat
  uio_segflg :: uio_seg
  uio_rw :: uio_rw
  uio_space :: "nat option"
  uio_mem :: umem
  uio_bad :: "u32 \<Rightarrow> bool"
  uio_curspace :: "nat option"

text \<open>\<^verbatim>\<open>off_t\<close> is \<^verbatim>\<open>int32_t\<close>: a sum with a \<^verbatim>\<open>size_t\<close> is unsigned and stored back modulo \<open>2 ^ 32\<close>.\<close>

definition off32 :: "int \<Rightarrow> int" where
  "off32 x = (x + 2 ^ 31) mod 2 ^ 32 - 2 ^ 31"

definition size_sub :: "nat \<Rightarrow> nat \<Rightarrow> nat" where
  "size_sub a b = (a + 2 ^ 32 - b) mod 2 ^ 32"

text \<open>One pass of the loop moves \<open>sz\<close> bytes between \<open>buf\<close> at \<open>pos\<close> and the iovec.\<close>

definition uio_xfer :: "bytes \<Rightarrow> nat \<Rightarrow> nat \<Rightarrow> uio \<Rightarrow> (errno + unit) \<times> bytes \<times> uio" where
  "uio_xfer buf pos sz u =
     (case uio_segflg u of
        UIO_SYSSPACE \<Rightarrow>
          (case uio_rw u of
             UIO_READ \<Rightarrow> (Inr (), buf,
               u\<lparr> uio_mem := fst (store_bytes (\<lambda>_. False) (uio_mem u) (iov_base u) (take sz (drop pos buf))) \<rparr>)
           | UIO_WRITE \<Rightarrow>
               (Inr (), patch pos (fst (load_bytes (\<lambda>_. False) (uio_mem u) (iov_base u) sz)) buf, u))
      | _ \<Rightarrow>
          (case uio_rw u of
             UIO_READ \<Rightarrow>
               let (r, m') = copyout (uio_bad u) (uio_mem u) (drop pos buf) (iov_base u) sz in
               (r, buf, u\<lparr> uio_mem := m' \<rparr>)
           | UIO_WRITE \<Rightarrow>
               let (r, d) = copyin (uio_bad u) (uio_mem u) (iov_base u) sz (drop pos buf) in
               (r, take pos buf @ d, u)))"

definition uio_advance :: "nat \<Rightarrow> uio \<Rightarrow> uio" where
  "uio_advance sz u = u\<lparr>
     iov_base := iov_base u + word_of_nat sz,
     iov_len := iov_len u - sz,
     uio_resid := size_sub (uio_resid u) sz,
     uio_offset := off32 (uio_offset u + int sz) \<rparr>"

function uiomove_loop :: "bytes \<Rightarrow> nat \<Rightarrow> nat \<Rightarrow> uio \<Rightarrow> ((errno + unit) \<times> bytes \<times> uio) option" where
  "uiomove_loop buf pos n u =
     (if 0 < n \<and> 0 < uio_resid u
      then
        let sz = if iov_len u > n then n else iov_len u in
        if sz = 0 then None
        else if length buf < pos + sz then None
        else case uio_xfer buf pos sz u of
               (Inl e, buf', u') \<Rightarrow> Some (Inl e, buf', u')
             | (Inr _, buf', u') \<Rightarrow> uiomove_loop buf' (pos + sz) (n - sz) (uio_advance sz u')
      else Some (Inr (), buf, u))"
  by pat_completeness auto
termination
  by (relation "measure (\<lambda>(buf, pos, n, u). n)") (auto split: if_splits)

definition uiomove :: "bytes \<Rightarrow> nat \<Rightarrow> uio \<Rightarrow> ((errno + unit) \<times> bytes \<times> uio) option" where
  "uiomove ptr n u = do {
     kassert (if uio_segflg u = UIO_SYSSPACE then uio_space u = None
              else uio_space u = uio_curspace u);
     uiomove_loop ptr 0 n u
   }"

function uiomovezeros_loop :: "nat \<Rightarrow> uio \<Rightarrow> ((errno + unit) \<times> uio) option" where
  "uiomovezeros_loop n u =
     (if 0 < n
      then
        let amt = if 16 > n then n else 16 in
        case uiomove (replicate 16 0) amt u of
          None \<Rightarrow> None
        | Some (Inl e, _, u') \<Rightarrow> Some (Inl e, u')
        | Some (Inr _, _, u') \<Rightarrow> uiomovezeros_loop (n - amt) u'
      else Some (Inr (), u))"
  by pat_completeness auto
termination
  by (relation "measure (\<lambda>(n, u). n)") (auto split: if_splits)

definition uiomovezeros :: "nat \<Rightarrow> uio \<Rightarrow> ((errno + unit) \<times> uio) option" where
  "uiomovezeros n u = do {
     kassert (uio_rw u = UIO_READ);
     uiomovezeros_loop n u
   }"

definition kbuf_mem :: "bytes \<Rightarrow> umem" where
  "kbuf_mem buf a = (if unat a < length buf then buf ! unat a else 0)"

definition mk_kuio :: "bytes \<Rightarrow> nat \<Rightarrow> int \<Rightarrow> uio_rw \<Rightarrow> uio" where
  "mk_kuio kbuf len pos rw = \<lparr> iov_base = 0, iov_len = len, uio_offset = pos, uio_resid = len,
     uio_segflg = UIO_SYSSPACE, uio_rw = rw, uio_space = None,
     uio_mem = kbuf_mem kbuf, uio_bad = (\<lambda>_. False), uio_curspace = None \<rparr>"

declare copystr_in.simps [simp del] copystr_out.simps [simp del]
  uiomove_loop.simps [simp del] uiomovezeros_loop.simps [simp del]

section \<open>Memory as a sequence of bytes\<close>

definition mem_get :: "umem \<Rightarrow> u32 \<Rightarrow> nat \<Rightarrow> bytes" where
  "mem_get m a n = map (\<lambda>i. m (a + word_of_nat i)) [0..<n]"

definition mem_put :: "umem \<Rightarrow> u32 \<Rightarrow> bytes \<Rightarrow> umem" where
  "mem_put m a xs = (\<lambda>b. if unat (b - a) < length xs then xs ! unat (b - a) else m b)"

lemma mem_get_length [simp]: "length (mem_get m a n) = n"
  by (simp add: mem_get_def)

lemma mem_get_nth [simp]: "i < n \<Longrightarrow> mem_get m a n ! i = m (a + word_of_nat i)"
  by (simp add: mem_get_def)

lemma mem_get_0 [simp]: "mem_get m a 0 = []"
  by (simp add: mem_get_def)

lemma mem_put_Nil [simp]: "mem_put m a [] = m"
  by (simp add: mem_put_def)

lemma mem_get_Suc: "mem_get m a (Suc n) = m a # mem_get m (a + 1) n"
  by (simp add: mem_get_def upt_conv_Cons map_Suc_upt [symmetric] add.assoc del: upt_Suc)

lemma mem_get_add: "mem_get m a (k + n) = mem_get m a k @ mem_get m (a + word_of_nat k) n"
  by (induction k arbitrary: a) (simp_all add: mem_get_Suc add.assoc)

lemma mem_get_put:
  assumes "length xs \<le> 2 ^ 32"
  shows "mem_get (mem_put m a xs) a (length xs) = xs"
  using assms by (intro nth_equalityI) (simp_all add: mem_put_def unat_of_nat_small)

lemma mem_put_Cons:
  assumes "Suc (length xs) \<le> 2 ^ 32"
  shows "mem_put (m(a := x)) (a + 1) xs = mem_put m a (x # xs)"
proof
  fix b :: u32
  show "mem_put (m(a := x)) (a + 1) xs b = mem_put m a (x # xs) b"
  proof (cases "b = a")
    case True
    have "unat (b - (a + 1)) = 2 ^ 32 - 1"
      using True by (simp add: unsigned_minus_1_eq_mask mask_eq_exp_minus_1)
    with True assms show ?thesis by (simp add: mem_put_def)
  next
    case False
    then have "b - a \<noteq> 0" by simp
    then have "unat (b - a) = Suc (unat (b - a - 1))" by (simp add: unat_minus_one unat_gt_0)
    then have "unat (b - a) = Suc (unat (b - (a + 1)))" by (simp add: diff_diff_eq)
    with False show ?thesis by (simp add: mem_put_def)
  qed
qed

lemma mem_put_append:
  assumes "length xs + length ys \<le> 2 ^ 32"
  shows "mem_put (mem_put m a xs) (a + word_of_nat (length xs)) ys = mem_put m a (xs @ ys)"
  using assms
proof (induction xs arbitrary: m a)
  case (Cons x xs)
  have "mem_put (mem_put m a (x # xs)) (a + word_of_nat (length (x # xs))) ys
      = mem_put (mem_put (m(a := x)) (a + 1) xs) ((a + 1) + word_of_nat (length xs)) ys"
    using Cons(2) by (simp add: mem_put_Cons add.assoc add.commute [of 1])
  also have "\<dots> = mem_put (m(a := x)) (a + 1) (xs @ ys)" using Cons by simp
  also have "\<dots> = mem_put m a ((x # xs) @ ys)" using Cons(2) mem_put_Cons [of "xs @ ys"] by simp
  finally show ?case .
qed simp

lemma load_bytes_prefix:
  "\<exists>k\<le>n. load_bytes bad m a n = (mem_get m a k, k = n) \<and>
     (\<forall>i<k. \<not> bad (a + word_of_nat i)) \<and> (k < n \<longrightarrow> bad (a + word_of_nat k))"
proof (induction n arbitrary: a)
  case (Suc n)
  show ?case
  proof (cases "bad a")
    case True
    then show ?thesis by (intro exI [of _ 0]) simp
  next
    case False
    obtain k where k: "k \<le> n" "load_bytes bad m (a + 1) n = (mem_get m (a + 1) k, k = n)"
      "\<forall>i<k. \<not> bad (a + 1 + word_of_nat i)" "k < n \<longrightarrow> bad (a + 1 + word_of_nat k)"
      using Suc [of "a + 1"] by blast
    have "\<not> bad (a + word_of_nat i)" if "i < Suc k" for i
      using k(3) False that by (cases i) (auto simp: add.assoc)
    with k False show ?thesis by (intro exI [of _ "Suc k"]) (simp add: mem_get_Suc add.assoc)
  qed
qed simp

lemma store_bytes_prefix:
  assumes "length xs \<le> 2 ^ 32"
  shows "\<exists>k\<le>length xs. store_bytes bad m a xs = (mem_put m a (take k xs), k = length xs) \<and>
     (\<forall>i<k. \<not> bad (a + word_of_nat i)) \<and> (k < length xs \<longrightarrow> bad (a + word_of_nat k))"
  using assms
proof (induction xs arbitrary: m a)
  case (Cons x xs)
  show ?case
  proof (cases "bad a")
    case True
    then show ?thesis by (intro exI [of _ 0]) simp
  next
    case False
    obtain k where k: "k \<le> length xs"
      "store_bytes bad (m(a := x)) (a + 1) xs = (mem_put (m(a := x)) (a + 1) (take k xs), k = length xs)"
      "\<forall>i<k. \<not> bad (a + 1 + word_of_nat i)" "k < length xs \<longrightarrow> bad (a + 1 + word_of_nat k)"
      using Cons(1) [of "m(a := x)" "a + 1"] Cons(2) by (metis Suc_leD length_Cons)
    have "\<not> bad (a + word_of_nat i)" if "i < Suc k" for i
      using k(3) False that by (cases i) (auto simp: add.assoc)
    with k False Cons(2) show ?thesis
      by (intro exI [of _ "Suc k"]) (simp add: mem_put_Cons add.assoc)
  qed
qed simp

lemma load_bytes_ok [simp]:
  "\<forall>i<n. \<not> bad (a + word_of_nat i) \<Longrightarrow> load_bytes bad m a n = (mem_get m a n, True)"
  using load_bytes_prefix [of n bad m a] by (metis le_neq_implies_less)

lemma store_bytes_ok [simp]:
  "\<forall>i<length xs. \<not> bad (a + word_of_nat i) \<Longrightarrow> length xs \<le> 2 ^ 32 \<Longrightarrow>
     store_bytes bad m a xs = (mem_put m a xs, True)"
  using store_bytes_prefix [of xs bad m a] by (metis le_neq_implies_less order_refl take_all)

section \<open>User copies\<close>

definition user_range :: "u32 \<Rightarrow> nat \<Rightarrow> bool" where
  "user_range a n \<longleftrightarrow> 0 < n \<and> unat a + n \<le> 2 ^ 31"

definition faultless :: "(u32 \<Rightarrow> bool) \<Rightarrow> u32 \<Rightarrow> nat \<Rightarrow> bool" where
  "faultless bad a n \<longleftrightarrow> (\<forall>i<n. \<not> bad (a + word_of_nat i))"

lemma user_top: "unat USERTOP = 2 ^ 31"
  by (simp add: USERTOP_def MIPS_KSEG0_def)

lemma copycheck_whole:
  assumes "n < 2 ^ 32"
  shows "copycheck a n = Inr n \<longleftrightarrow> user_range a n"
    and "copycheck a n = Inl e \<Longrightarrow> e = EFAULT"
proof -
  show "copycheck a n = Inl e \<Longrightarrow> e = EFAULT"
    by (auto simp: copycheck_def Let_def split: if_splits)
  define t where "t = a + word_of_nat n - 1"
  have ut: "unat USERTOP = 2147483648" using user_top by simp
  have a: "unat a < 4294967296" using unat_less_2p32 [of a] by simp
  have "t = word_of_nat (unat a + n + 4294967295)" by (simp add: t_def)
  then have "unat t = (unat a + n + 4294967295) mod 4294967296" by (simp only: unat_of_nat) simp
  then consider "unat a + n = 0" "unat t = 4294967295"
    | "0 < unat a + n" "unat a + n \<le> 4294967296" "unat t = unat a + n - 1"
    | "4294967296 < unat a + n" "unat t = unat a + n - 4294967297"
    using a assms by (cases "unat a + n = 0"; cases "unat a + n \<le> 4294967296") (auto simp: mod_if)
  note t = this
  have d: "unat (USERTOP - a) = 2147483648 - unat a" if "unat a < 2147483648"
    using that ut by (simp add: unat_sub word_le_nat_alt)
  show "copycheck a n = Inr n \<longleftrightarrow> user_range a n"
    unfolding copycheck_def Let_def t_def [symmetric] user_range_def word_less_nat_alt word_le_nat_alt
    using assms a ut d by (cases rule: t) (auto split: if_splits)
qed

lemma copyin_outcome:
  assumes "n < 2 ^ 32"
  shows "user_range a n \<and> faultless bad a n \<Longrightarrow>
      copyin bad m a n dest = (Inr (), mem_get m a n @ drop n dest)"
    and "\<not> (user_range a n \<and> faultless bad a n) \<Longrightarrow>
      \<exists>k\<le>n. copyin bad m a n dest = (Inl EFAULT, mem_get m a k @ drop k dest)"
proof -
  have ck: "copycheck a n = Inr n \<longleftrightarrow> user_range a n" "copycheck a n = Inl e \<Longrightarrow> e = EFAULT" for e
    using copycheck_whole [OF assms] by auto
  show "copyin bad m a n dest = (Inr (), mem_get m a n @ drop n dest)"
    if "user_range a n \<and> faultless bad a n"
    using that ck(1) by (simp add: copyin_def faultless_def patch_def)
  obtain k where k: "k \<le> n" "load_bytes bad m a n = (mem_get m a k, k = n)"
    "\<forall>i<k. \<not> bad (a + word_of_nat i)"
    using load_bytes_prefix [of n bad m a] by blast
  assume "\<not> (user_range a n \<and> faultless bad a n)"
  then consider (out) e where "copycheck a n = Inl e" | (trim) j where "copycheck a n = Inr j" "j \<noteq> n"
    | (fault) "copycheck a n = Inr n" "\<not> faultless bad a n"
    using ck(1) by (cases "copycheck a n") auto
  then show "\<exists>k\<le>n. copyin bad m a n dest = (Inl EFAULT, mem_get m a k @ drop k dest)"
  proof cases
    case out
    then show ?thesis using ck(2) by (intro exI [of _ 0]) (simp add: copyin_def)
  next
    case trim
    then show ?thesis by (intro exI [of _ 0]) (simp add: copyin_def)
  next
    case fault
    then have "k \<noteq> n" using k(3) by (auto simp: faultless_def)
    then show ?thesis using fault(1) k(1,2)
      by (intro exI [of _ k]) (simp add: copyin_def patch_def)
  qed
qed

lemma copyout_outcome:
  assumes "n < 2 ^ 32" "n \<le> length src"
  shows "user_range a n \<and> faultless bad a n \<Longrightarrow>
      copyout bad m src a n = (Inr (), mem_put m a (take n src))"
    and "\<not> (user_range a n \<and> faultless bad a n) \<Longrightarrow>
      \<exists>k\<le>n. copyout bad m src a n = (Inl EFAULT, mem_put m a (take k src)) \<and>
        (0 < k \<longrightarrow> user_range a n \<and> faultless bad a k)"
proof -
  have ck: "copycheck a n = Inr n \<longleftrightarrow> user_range a n" "copycheck a n = Inl e \<Longrightarrow> e = EFAULT" for e
    using copycheck_whole [OF assms(1)] by auto
  have len: "length (take n src) = n" "n \<le> 2 ^ 32" using assms by auto
  show "copyout bad m src a n = (Inr (), mem_put m a (take n src))"
    if "user_range a n \<and> faultless bad a n"
    using that ck(1) len store_bytes_ok [of "take n src" bad a m]
    by (simp add: copyout_def faultless_def del: length_take)
  obtain k where k: "k \<le> n" "store_bytes bad m a (take n src) = (mem_put m a (take k src), k = n)"
    "\<forall>i<k. \<not> bad (a + word_of_nat i)"
    using store_bytes_prefix [of "take n src" bad m a] len by (auto simp: min_def)
  assume "\<not> (user_range a n \<and> faultless bad a n)"
  then consider (out) e where "copycheck a n = Inl e" | (trim) j where "copycheck a n = Inr j" "j \<noteq> n"
    | (fault) "copycheck a n = Inr n" "\<not> faultless bad a n"
    using ck(1) by (cases "copycheck a n") auto
  then show "\<exists>k\<le>n. copyout bad m src a n = (Inl EFAULT, mem_put m a (take k src)) \<and>
        (0 < k \<longrightarrow> user_range a n \<and> faultless bad a k)"
  proof cases
    case out
    then show ?thesis using ck(2) by (intro exI [of _ 0]) (simp add: copyout_def)
  next
    case trim
    then show ?thesis by (intro exI [of _ 0]) (simp add: copyout_def)
  next
    case fault
    then have "k \<noteq> n" using k(3) by (auto simp: faultless_def)
    then show ?thesis using fault(1) k ck(1)
      by (intro exI [of _ k]) (simp add: copyout_def faultless_def)
  qed
qed




section \<open>Strings from user space\<close>

text \<open>The part of the destination that \<^verbatim>\<open>copystr\<close> has filled after \<open>i\<close> characters.\<close>

lemma copystr_in_step:
  assumes "i < maxlen" "i < stoplen" "i < length dest" "\<not> bad (src + word_of_nat i)"
  shows "copystr_in bad m dest src maxlen stoplen i =
    (if m (src + word_of_nat i) = 0 then Some (Inr (i + 1), dest[i := 0])
     else copystr_in bad m (dest[i := m (src + word_of_nat i)]) src maxlen stoplen (i + 1))"
  using assms by (subst copystr_in.simps) (simp add: Let_def)

lemma copystr_in_found:
  assumes "i \<le> k" "k < maxlen" "k < stoplen" "k < length dest"
    "\<forall>j. i \<le> j \<and> j < k \<longrightarrow> m (src + word_of_nat j) \<noteq> 0" "m (src + word_of_nat k) = 0"
    "\<forall>j. i \<le> j \<and> j \<le> k \<longrightarrow> \<not> bad (src + word_of_nat j)"
  shows "copystr_in bad m dest src maxlen stoplen i
    = Some (Inr (k + 1), take i dest @ mem_get m (src + word_of_nat i) (k + 1 - i) @ drop (k + 1) dest)"
  using assms
proof (induction "k - i" arbitrary: i dest)
  case 0
  then have "i = k" by simp
  with 0 show ?case
    by (simp add: copystr_in_step upd_conv_take_nth_drop mem_get_Suc)
next
  case (Suc d)
  then have ik: "i < k" by simp
  let ?c = "m (src + word_of_nat i)"
  have "copystr_in bad m dest src maxlen stoplen i
      = copystr_in bad m (dest[i := ?c]) src maxlen stoplen (Suc i)"
    using Suc.prems ik by (simp add: copystr_in_step)
  also have "\<dots> = Some (Inr (k + 1), take (Suc i) (dest[i := ?c]) @
      mem_get m (src + word_of_nat (Suc i)) (k + 1 - Suc i) @ drop (k + 1) (dest[i := ?c]))"
    using Suc.prems Suc.hyps(2) ik by (intro Suc.hyps(1)) auto
  also have "take (Suc i) (dest[i := ?c]) = take i dest @ [?c]"
    using Suc.prems(4) ik by (intro take_Suc_update) simp
  also have "drop (k + 1) (dest[i := ?c]) = drop (k + 1) dest" using ik by simp
  finally have *: "copystr_in bad m dest src maxlen stoplen i = Some (Inr (k + 1), (take i dest @ [?c]) @
      mem_get m (src + word_of_nat (Suc i)) (k + 1 - Suc i) @ drop (k + 1) dest)" .
  have "k + 1 - i = Suc (k + 1 - Suc i)" using ik by simp
  then show ?case unfolding * by (simp add: mem_get_Suc add.assoc add.commute [of 1])
qed

lemma copystr_in_stop:
  assumes "i \<le> k" "k \<le> maxlen" "k \<le> stoplen" "k \<le> length dest"
    "\<forall>j. i \<le> j \<and> j < k \<longrightarrow> m (src + word_of_nat j) \<noteq> 0 \<and> \<not> bad (src + word_of_nat j)"
    "k < maxlen \<and> k < stoplen \<longrightarrow> bad (src + word_of_nat k)"
  shows "\<exists>d. copystr_in bad m dest src maxlen stoplen i = Some (Inl
    (if k < maxlen \<and> k < stoplen \<or> stoplen < maxlen then EFAULT else ENAMETOOLONG), d)"
  using assms
proof (induction "k - i" arbitrary: i dest)
  case 0
  then have "i = k" by simp
  with 0 show ?case by (subst copystr_in.simps) (auto simp: Let_def)
next
  case (Suc d)
  then have ik: "i < k" by simp
  have "copystr_in bad m dest src maxlen stoplen i
      = copystr_in bad m (dest[i := m (src + word_of_nat i)]) src maxlen stoplen (Suc i)"
    using Suc.prems ik by (simp add: copystr_in_step)
  then show ?case
    using Suc.prems Suc.hyps(2) ik
      Suc.hyps(1) [of "Suc i" "dest[i := m (src + word_of_nat i)]"] by simp
qed

lemma copycheck_trim:
  assumes "0 < len" "len \<le> 2 ^ 31"
  shows "copycheck a len = (if 2 ^ 31 \<le> unat a then Inl EFAULT else Inr (min len (2 ^ 31 - unat a)))"
proof (cases "2 ^ 31 \<le> unat a")
  case True
  then show ?thesis unfolding copycheck_def Let_def word_le_nat_alt user_top by simp
next
  case False
  define t where "t = a + word_of_nat len - 1"
  have "t = a + word_of_nat (len - 1)" using assms(1) by (simp add: t_def of_nat_diff)
  then have t: "unat t = unat a + (len - 1)"
    using False assms by (simp only:) (rule unat_add_small, simp)
  have "unat (USERTOP - a) = 2 ^ 31 - unat a"
    using False user_top by (subst unat_sub) (simp_all add: word_le_nat_alt)
  with False t assms show ?thesis
    unfolding copycheck_def Let_def t_def [symmetric] word_le_nat_alt word_less_nat_alt user_top
    by (auto simp: min_def)
qed

text \<open>A string of \<open>k\<close> characters and its terminator, readable in user space.\<close>

definition user_string :: "(u32 \<Rightarrow> bool) \<Rightarrow> umem \<Rightarrow> u32 \<Rightarrow> nat \<Rightarrow> bool" where
  "user_string bad m a k \<longleftrightarrow> user_range a (k + 1) \<and> faultless bad a (k + 1) \<and>
     m (a + word_of_nat k) = 0 \<and> (\<forall>j<k. m (a + word_of_nat j) \<noteq> 0)"

text \<open>
  C21. \<^verbatim>\<open>copyinstr\<close> either copies the user's string with its terminator into the kernel buffer and
  reports its length, exactly when a readable string that fits in \<^verbatim>\<open>len\<close> bytes starts at the
  address; or returns \<open>ENAMETOOLONG\<close>, exactly when \<^verbatim>\<open>len\<close> readable bytes hold no
  terminator; or returns \<open>EFAULT\<close>. It never writes outside the buffer.
\<close>

theorem copyinstr_outcome:
  assumes "0 < len" "len \<le> 2 ^ 31" "len \<le> length dest"
  shows "\<exists>r d. copyinstr bad m usersrc dest len = Some (r, d) \<and>
    (\<forall>g. r = Inr g \<longleftrightarrow> (\<exists>k<len. g = k + 1 \<and> user_string bad m usersrc k)) \<and>
    (\<forall>g. r = Inr g \<longrightarrow> d = mem_get m usersrc g @ drop g dest) \<and>
    (r = Inl ENAMETOOLONG \<longleftrightarrow> user_range usersrc len \<and> faultless bad usersrc len \<and>
       (\<forall>j<len. m (usersrc + word_of_nat j) \<noteq> 0)) \<and>
    (\<forall>e. r = Inl e \<longrightarrow> e = ENAMETOOLONG \<or> e = EFAULT)"
proof (cases "2 ^ 31 \<le> unat usersrc")
  case True
  then have "\<not> user_range usersrc n" for n by (auto simp: user_range_def)
  with True show ?thesis
    using copycheck_trim [OF assms(1,2), of usersrc] by (simp add: copyinstr_def user_string_def)
next
  case False
  define stop where "stop = min len (2 ^ 31 - unat usersrc)"
  let ?at = "\<lambda>j. usersrc + word_of_nat j"
  let ?halt = "\<lambda>j. j = stop \<or> bad (?at j) \<or> m (?at j) = 0"
  define k where "k = (LEAST j. ?halt j)"
  have k: "?halt k" unfolding k_def by (rule LeastI [of ?halt stop]) simp
  have below: "\<not> bad (?at j)" "m (?at j) \<noteq> 0" if "j < k" for j
    using not_less_Least [of j ?halt] that by (auto simp: k_def)
  have ks: "k \<le> stop" unfolding k_def by (rule Least_le) simp
  have run: "copyinstr bad m usersrc dest len = copystr_in bad m dest usersrc len stop 0"
    using copycheck_trim [OF assms(1,2), of usersrc] False by (simp add: copyinstr_def stop_def)
  have range: "user_range usersrc n \<longleftrightarrow> 0 < n \<and> n \<le> stop" if "n \<le> len" for n
    using that False by (auto simp: user_range_def stop_def)
  have str: "user_string bad m usersrc j \<longleftrightarrow> j = k \<and> k < stop \<and> \<not> bad (?at k)" if "j < len" for j
  proof
    assume s: "user_string bad m usersrc j"
    then have "?halt j" "j < stop" "\<forall>i<j. \<not> ?halt i" "\<not> bad (?at j)"
      using range [of "j + 1"] that by (auto simp: user_string_def faultless_def)
    then have "j = k" using k below ks by (metis nat_neq_iff)
    with \<open>j < stop\<close> \<open>\<not> bad (?at j)\<close> show "j = k \<and> k < stop \<and> \<not> bad (?at k)" by simp
  next
    assume j: "j = k \<and> k < stop \<and> \<not> bad (?at k)"
    then show "user_string bad m usersrc j"
      using k below range [of "k + 1"] that
      by (auto simp: user_string_def faultless_def less_Suc_eq)
  qed
  have long: "user_range usersrc len \<and> faultless bad usersrc len \<and> (\<forall>j<len. m (?at j) \<noteq> 0)
      \<longleftrightarrow> k = len"
  proof
    assume a: "user_range usersrc len \<and> faultless bad usersrc len \<and> (\<forall>j<len. m (?at j) \<noteq> 0)"
    then have "stop = len" "\<not> k < len"
      using range [of len] k by (auto simp: stop_def faultless_def)
    with ks show "k = len" by simp
  next
    assume "k = len"
    then show "user_range usersrc len \<and> faultless bad usersrc len \<and> (\<forall>j<len. m (?at j) \<noteq> 0)"
      using range [of len] below ks assms(1) by (auto simp: faultless_def)
  qed
  have stop: "stop \<le> len" by (simp add: stop_def)
  show ?thesis
  proof (cases "k < stop \<and> \<not> bad (?at k)")
    case True
    then have "copyinstr bad m usersrc dest len = Some (Inr (k + 1), mem_get m usersrc (k + 1) @ drop (k + 1) dest)"
      unfolding run using copystr_in_found [of 0 k len stop dest m usersrc bad] k below stop assms(3)
      by (auto simp: le_less)
    moreover have "k < len" "k \<noteq> len" using True stop by auto
    ultimately show ?thesis using True str long by auto
  next
    case False
    obtain d where d: "copyinstr bad m usersrc dest len = Some (Inl
        (if k < len \<and> k < stop \<or> stop < len then EFAULT else ENAMETOOLONG), d)"
      unfolding run using copystr_in_stop [of 0 k len stop dest m usersrc bad] False below ks stop assms(3)
      by auto
    have "k < len \<and> k < stop \<or> stop < len \<longleftrightarrow> k \<noteq> len" using ks stop by auto
    with d False str long show ?thesis by auto
  qed
qed

theorem copyinstr_outcome_witness:
  "\<exists>d. copyinstr (\<lambda>_. False) (mem_put (\<lambda>_. 0) 0x1000 [97, 98]) 0x1000 (replicate 8 0) 8 = Some (Inr 3, d)"
proof -
  let ?m = "mem_put (\<lambda>_. 0) 0x1000 [97, 98]"
  have "user_string (\<lambda>_. False) ?m 0x1000 2"
    by (auto simp: user_string_def user_range_def faultless_def mem_put_def less_2_cases_iff)
  then have "\<exists>k<8. (3 :: nat) = k + 1 \<and> user_string (\<lambda>_. False) ?m 0x1000 k"
    by (intro exI [of _ 2]) simp
  then show ?thesis
    using copyinstr_outcome [of 8 "replicate 8 0" "\<lambda>_. False" ?m "0x1000"] by auto
qed

section \<open>What a uio can take\<close>

text \<open>\<open>n\<close> more bytes go through: the counters cover them and no user byte of the iovec faults.\<close>

definition uio_ready :: "nat \<Rightarrow> uio \<Rightarrow> bool" where
  "uio_ready n u \<longleftrightarrow> n \<le> iov_len u \<and> n \<le> uio_resid u \<and> uio_resid u < 2 ^ 32 \<and>
     0 \<le> uio_offset u \<and> uio_offset u + int n < 2 ^ 31 \<and>
     (if uio_segflg u = UIO_SYSSPACE then uio_space u = None
      else uio_space u = uio_curspace u \<and> (0 < n \<longrightarrow> user_range (iov_base u) n) \<and>
           faultless (uio_bad u) (iov_base u) n)"

text \<open>What the uio is after \<open>xs\<close> has been delivered through it.\<close>

definition uio_deliver :: "bytes \<Rightarrow> uio \<Rightarrow> uio" where
  "uio_deliver xs u = uio_advance (length xs) (u\<lparr> uio_mem := mem_put (uio_mem u) (iov_base u) xs \<rparr>)"

definition uio_pending :: "uio \<Rightarrow> nat \<Rightarrow> bytes" where
  "uio_pending u n = mem_get (uio_mem u) (iov_base u) n"

lemma uio_pending_length [simp]: "length (uio_pending u n) = n"
  by (simp add: uio_pending_def)

lemma off32_id: "0 \<le> x \<Longrightarrow> x < 2 ^ 31 \<Longrightarrow> off32 x = x"
  by (simp add: off32_def)

lemma size_sub_le: "b \<le> a \<Longrightarrow> a < 2 ^ 32 \<Longrightarrow> size_sub a b = a - b"
  by (simp add: size_sub_def mod_if)

lemma uio_advance_simps [simp]:
  "iov_base (uio_advance n u) = iov_base u + word_of_nat n"
  "iov_len (uio_advance n u) = iov_len u - n"
  "uio_segflg (uio_advance n u) = uio_segflg u"
  "uio_rw (uio_advance n u) = uio_rw u"
  "uio_space (uio_advance n u) = uio_space u"
  "uio_mem (uio_advance n u) = uio_mem u"
  "uio_bad (uio_advance n u) = uio_bad u"
  "uio_curspace (uio_advance n u) = uio_curspace u"
  by (simp_all add: uio_advance_def)

lemma uio_advance_counts:
  assumes "uio_ready n u"
  shows "uio_resid (uio_advance n u) = uio_resid u - n"
    and "uio_offset (uio_advance n u) = uio_offset u + int n"
  using assms by (simp_all add: uio_ready_def uio_advance_def off32_id size_sub_le)

lemma uio_ready_mem [simp]: "uio_ready n (u\<lparr> uio_mem := m \<rparr>) = uio_ready n u"
  by (simp add: uio_ready_def)

lemma user_range_tail:
  assumes "user_range a (k + n)" "0 < n"
  shows "user_range (a + word_of_nat k) n"
  using assms unat_add_small [of a k] by (simp add: user_range_def)

lemma faultless_tail: "faultless bad a (k + n) \<Longrightarrow> faultless bad (a + word_of_nat k) n"
  unfolding faultless_def by (metis add.assoc add.commute add_less_cancel_right of_nat_add)

lemma uio_ready_advance:
  assumes "uio_ready (k + n) u"
  shows "uio_ready n (uio_advance k u)" and "uio_ready k u"
proof -
  show k: "uio_ready k u"
    using assms by (auto simp: uio_ready_def user_range_def faultless_def split: if_splits)
  show "uio_ready n (uio_advance k u)"
    using assms uio_advance_counts [OF k] user_range_tail [of "iov_base u" k n]
      faultless_tail [of "uio_bad u" "iov_base u" k n]
    by (auto simp: uio_ready_def split: if_splits)
qed

lemma uio_advance_0: "uio_ready 0 u \<Longrightarrow> uio_advance 0 u = u"
  by (simp add: uio_ready_def uio_advance_def off32_id size_sub_le)

lemma uio_advance_add:
  assumes "uio_ready (k + n) u"
  shows "uio_advance n (uio_advance k u) = uio_advance (k + n) u"
  using uio_advance_counts [OF uio_ready_advance(2) [OF assms]]
    uio_advance_counts [OF uio_ready_advance(1) [OF assms]] uio_advance_counts [OF assms]
  by (intro uio.equality) (simp_all add: add.assoc)

lemma uiomove_loop_step:
  assumes "uio_ready n u" "0 < n" "length buf \<ge> n"
  shows "uiomove_loop buf 0 n u = (case uio_xfer buf 0 n u of
      (Inl e, buf', u') \<Rightarrow> Some (Inl e, buf', u')
    | (Inr _, buf', u') \<Rightarrow> Some (Inr (), buf', uio_advance n u'))"
proof -
  have "(if iov_len u > n then n else iov_len u) = n" using assms(1) by (simp add: uio_ready_def)
  moreover have "0 < uio_resid u" using assms(1,2) by (simp add: uio_ready_def)
  moreover have "uiomove_loop b p 0 v = Some (Inr (), b, v)" for b p v
    by (subst uiomove_loop.simps) simp
  ultimately show ?thesis
    using assms(2,3) by (subst uiomove_loop.simps) (simp add: Let_def split: prod.splits sum.splits)
qed

lemma uiomove_read:
  assumes "uio_ready n u" "uio_rw u = UIO_READ" "n \<le> length buf"
  shows "uiomove buf n u = Some (Inr (), buf, uio_deliver (take n buf) u)"
proof (cases "n = 0")
  case True
  have "uio_advance 0 u = u" using assms(1) True by (simp add: uio_advance_0)
  with True assms(1) show ?thesis
    by (simp add: uiomove_def uiomove_loop.simps [of buf 0 0] uio_deliver_def uio_ready_def)
next
  case False
  have n: "n < 2 ^ 32" using assms(1) by (simp add: uio_ready_def)
  have len: "length (take n buf) = n" using assms(3) by simp
  have "uio_xfer buf 0 n u = (Inr (), buf, u\<lparr> uio_mem := mem_put (uio_mem u) (iov_base u) (take n buf) \<rparr>)"
  proof (cases "uio_segflg u = UIO_SYSSPACE")
    case True
    then show ?thesis using assms(2) n len by (simp add: uio_xfer_def)
  next
    case user: False
    then have "copyout (uio_bad u) (uio_mem u) buf (iov_base u) n
        = (Inr (), mem_put (uio_mem u) (iov_base u) (take n buf))"
      using copyout_outcome(1) [OF n assms(3)] assms(1) False by (simp add: uio_ready_def)
    then show ?thesis using user assms(2) by (auto simp: uio_xfer_def split: uio_seg.split)
  qed
  then show ?thesis
    using uiomove_loop_step [OF assms(1) _ assms(3)] False assms(1) len
    by (simp add: uiomove_def uio_deliver_def uio_ready_def)
qed

lemma uiomove_write:
  assumes "uio_ready n u" "uio_rw u = UIO_WRITE" "n \<le> length buf"
  shows "uiomove buf n u = Some (Inr (), uio_pending u n @ drop n buf, uio_advance n u)"
proof (cases "n = 0")
  case True
  have "uio_advance 0 u = u" using assms(1) True by (simp add: uio_advance_0)
  with True assms(1) show ?thesis
    by (simp add: uiomove_def uiomove_loop.simps [of buf 0 0] uio_pending_def uio_ready_def)
next
  case False
  have n: "n < 2 ^ 32" using assms(1) by (simp add: uio_ready_def)
  have "uio_xfer buf 0 n u = (Inr (), uio_pending u n @ drop n buf, u)"
  proof (cases "uio_segflg u = UIO_SYSSPACE")
    case True
    then show ?thesis using assms(2) by (simp add: uio_xfer_def patch_def uio_pending_def)
  next
    case user: False
    then have "copyin (uio_bad u) (uio_mem u) (iov_base u) n buf
        = (Inr (), mem_get (uio_mem u) (iov_base u) n @ drop n buf)"
      using copyin_outcome(1) [OF n] assms(1) False by (simp add: uio_ready_def)
    then show ?thesis
      using user assms(2) by (auto simp: uio_xfer_def uio_pending_def split: uio_seg.split)
  qed
  then show ?thesis
    using uiomove_loop_step [OF assms(1) _ assms(3)] False assms(1)
    by (simp add: uiomove_def uio_ready_def)
qed

lemma uio_deliver_simps [simp]:
  "iov_base (uio_deliver xs u) = iov_base u + word_of_nat (length xs)"
  "iov_len (uio_deliver xs u) = iov_len u - length xs"
  "uio_segflg (uio_deliver xs u) = uio_segflg u"
  "uio_rw (uio_deliver xs u) = uio_rw u"
  "uio_space (uio_deliver xs u) = uio_space u"
  "uio_mem (uio_deliver xs u) = mem_put (uio_mem u) (iov_base u) xs"
  "uio_bad (uio_deliver xs u) = uio_bad u"
  "uio_curspace (uio_deliver xs u) = uio_curspace u"
  by (simp_all add: uio_deliver_def)

lemma uio_deliver_counts:
  assumes "uio_ready (length xs) u"
  shows "uio_resid (uio_deliver xs u) = uio_resid u - length xs"
    and "uio_offset (uio_deliver xs u) = uio_offset u + int (length xs)"
  using uio_advance_counts [of "length xs" "u\<lparr> uio_mem := mem_put (uio_mem u) (iov_base u) xs \<rparr>"] assms
  by (simp_all add: uio_deliver_def)

lemma uio_ready_deliver:
  "uio_ready (length xs + n) u \<Longrightarrow> uio_ready n (uio_deliver xs u)"
  by (simp add: uio_deliver_def uio_ready_advance(1))

lemma uio_deliver_Nil: "uio_ready 0 u \<Longrightarrow> uio_deliver [] u = u"
  by (simp add: uio_deliver_def uio_advance_0)

lemma uio_deliver_append:
  assumes "uio_ready (length xs + length ys) u"
  shows "uio_deliver ys (uio_deliver xs u) = uio_deliver (xs @ ys) u"
proof -
  have "length xs + length ys \<le> 2 ^ 32" using assms by (simp add: uio_ready_def)
  then show ?thesis
    using uio_deliver_counts [OF uio_ready_advance(2) [OF assms]]
      uio_deliver_counts [OF uio_ready_deliver [OF assms]] uio_deliver_counts [of "xs @ ys" u] assms
    by (intro uio.equality) (simp_all add: add.assoc mem_put_append)
qed

lemma uiomovezeros_delivers:
  assumes "uio_ready n u" "uio_rw u = UIO_READ"
  shows "uiomovezeros n u = Some (Inr (), uio_deliver (replicate n 0) u)"
proof -
  have "uiomovezeros_loop n u = Some (Inr (), uio_deliver (replicate n 0) u)"
    using assms
  proof (induction n u rule: uiomovezeros_loop.induct)
    case (1 n u)
    show ?case
    proof (cases "n = 0")
      case True
      then show ?thesis using 1(2) by (subst uiomovezeros_loop.simps) (simp add: uio_deliver_Nil)
    next
      case False
      define a where "a = (if 16 > n then n else 16)"
      have a: "a + (n - a) = n" "a \<le> 16" by (simp_all add: a_def)
      have rdy: "uio_ready (a + (n - a)) u" using 1(2) a(1) by simp
      have mv: "uiomove (replicate 16 0) a u = Some (Inr (), replicate 16 0, uio_deliver (replicate a 0) u)"
        using uiomove_read [OF uio_ready_advance(2) [OF rdy] 1(3), of "replicate 16 0"] a(2)
        by (simp add: min_def)
      have "uiomovezeros_loop n u = uiomovezeros_loop (n - a) (uio_deliver (replicate a 0) u)"
        using False mv by (subst uiomovezeros_loop.simps) (simp add: a_def [symmetric] Let_def)
      also have "\<dots> = Some (Inr (), uio_deliver (replicate (n - a) 0) (uio_deliver (replicate a 0) u))"
        using uio_ready_deliver [of "replicate a 0"] rdy 1(3) False
        by (intro 1(1) [OF _ a_def mv refl refl refl]) simp_all
      also have "uio_deliver (replicate (n - a) 0) (uio_deliver (replicate a 0) u)
          = uio_deliver (replicate n 0) u"
        using rdy uio_deliver_append [of "replicate a 0" "replicate (n - a) 0" u] a(1)
        by (simp add: replicate_add [symmetric])
      finally show ?thesis .
    qed
  qed
  then show ?thesis using assms(2) by (simp add: uiomovezeros_def)
qed

section \<open>Kernel buffers\<close>

lemma mk_kuio_ready:
  "len < 2 ^ 31 \<Longrightarrow> 0 \<le> pos \<Longrightarrow> pos + int len < 2 ^ 31 \<Longrightarrow> n \<le> len \<Longrightarrow> uio_ready n (mk_kuio buf len pos rw)"
  by (simp add: uio_ready_def mk_kuio_def)

lemma mk_kuio_pending:
  "n \<le> length buf \<Longrightarrow> n < 2 ^ 32 \<Longrightarrow> uio_pending (mk_kuio buf len pos rw) n = take n buf"
  by (intro nth_equalityI) (simp_all add: uio_pending_def mk_kuio_def kbuf_mem_def unat_of_nat_small)

lemma mk_kuio_delivered:
  "length xs \<le> 2 ^ 32 \<Longrightarrow> mem_get (uio_mem (uio_deliver xs (mk_kuio buf len pos rw))) 0 (length xs) = xs"
  using mem_get_put [of xs "kbuf_mem buf" 0] by (simp add: mk_kuio_def)

lemma mk_kuio_simps [simp]:
  "iov_base (mk_kuio buf len pos rw) = 0" "iov_len (mk_kuio buf len pos rw) = len"
  "uio_offset (mk_kuio buf len pos rw) = pos" "uio_resid (mk_kuio buf len pos rw) = len"
  "uio_rw (mk_kuio buf len pos rw) = rw" "uio_segflg (mk_kuio buf len pos rw) = UIO_SYSSPACE"
  by (simp_all add: mk_kuio_def)

end
