(* ===== verification/Sfs_Disk.thy ===== *)
theory Sfs_Disk
  imports Kern_Uio Kern_Bitmap Kern_Array
begin

text \<open>
  The on-disk structures of SFS (\<^verbatim>\<open>kern/include/kern/sfs.h\<close>), its in-memory state
  (\<^verbatim>\<open>kern/include/sfs.h\<close>), block I/O (\<^verbatim>\<open>sfs_io.c\<close>) and block allocation
  (the first part of \<^verbatim>\<open>sfs_vnode.c\<close>).

  Structures are stored big-endian, as the MIPS lays them out. The device is a parameter: its
  state is the field \<open>sfs_device\<close> and its \<^verbatim>\<open>d_io\<close> the first argument of every
  operation that reaches the disk. Vnodes are objects on the kernel heap: a pointer is a number,
  \<open>sfs_node\<close> maps it to the object, and following a pointer to nothing is \<open>None\<close>.
\<close>

section \<open>On-disk structures\<close>

definition SFS_MAGIC :: u32 where "SFS_MAGIC = 0xabadf001"
definition SFS_BLOCKSIZE :: nat where "SFS_BLOCKSIZE = 512"
definition SFS_NDIRECT :: nat where "SFS_NDIRECT = 15"
definition SFS_DBPERIDB :: nat where "SFS_DBPERIDB = 128"
definition SFS_NAMELEN :: nat where "SFS_NAMELEN = 60"
definition SFS_SB_LOCATION :: nat where "SFS_SB_LOCATION = 0"
definition SFS_ROOT_LOCATION :: nat where "SFS_ROOT_LOCATION = 1"
definition SFS_MAP_LOCATION :: nat where "SFS_MAP_LOCATION = 2"
definition SFS_NOINO :: u32 where "SFS_NOINO = 0"
definition SFS_TYPE_INVAL :: u16 where "SFS_TYPE_INVAL = 0"
definition SFS_TYPE_FILE :: u16 where "SFS_TYPE_FILE = 1"
definition SFS_TYPE_DIR :: u16 where "SFS_TYPE_DIR = 2"

lemmas sfs_consts = SFS_BLOCKSIZE_def SFS_NDIRECT_def SFS_DBPERIDB_def SFS_NAMELEN_def
  SFS_SB_LOCATION_def SFS_ROOT_LOCATION_def SFS_MAP_LOCATION_def SFS_NOINO_def
  SFS_TYPE_INVAL_def SFS_TYPE_FILE_def SFS_TYPE_DIR_def

text \<open>The macros; sums and products are on \<^verbatim>\<open>u_int32_t\<close>.\<close>

definition SFS_BITMAPSIZE :: "nat \<Rightarrow> nat" where
  "SFS_BITMAPSIZE nblocks = ((nblocks + SFS_BLOCKSIZE * 8 - 1) mod 2 ^ 32) div (SFS_BLOCKSIZE * 8)
     * (SFS_BLOCKSIZE * 8)"

definition SFS_BITBLOCKS :: "nat \<Rightarrow> nat" where
  "SFS_BITBLOCKS nblocks = SFS_BITMAPSIZE nblocks div (SFS_BLOCKSIZE * 8)"

record sfs_superblock =
  sp_magic :: u32
  sp_nblocks :: u32
  sp_volname :: bytes
  sp_reserved :: "u32 list"

record sfs_inode =
  sfi_size :: u32
  sfi_type :: u16
  sfi_linkcount :: u16
  sfi_direct :: "u32 list"
  sfi_indirect :: u32
  sfi_waste :: "u32 list"

record sfs_dir =
  sfd_ino :: u32
  sfd_name :: bytes

section \<open>Memory layout\<close>

definition be32 :: "u32 \<Rightarrow> bytes" where
  "be32 w = [ucast (drop_bit 24 w), ucast (drop_bit 16 w), ucast (drop_bit 8 w), ucast w]"

definition be16 :: "u16 \<Rightarrow> bytes" where
  "be16 w = [ucast (drop_bit 8 w), ucast w]"

definition de32 :: "bytes \<Rightarrow> u32" where
  "de32 bs = push_bit 24 (ucast (bs ! 0)) OR push_bit 16 (ucast (bs ! 1))
     OR push_bit 8 (ucast (bs ! 2)) OR ucast (bs ! 3)"

definition de16 :: "bytes \<Rightarrow> u16" where
  "de16 bs = push_bit 8 (ucast (bs ! 0)) OR ucast (bs ! 1)"

definition be32s :: "u32 list \<Rightarrow> bytes" where
  "be32s ws = concat (map be32 ws)"

definition de32s :: "nat \<Rightarrow> bytes \<Rightarrow> u32 list" where
  "de32s n bs = map (\<lambda>i. de32 (drop (4 * i) bs)) [0..<n]"

definition super_bytes :: "sfs_superblock \<Rightarrow> bytes" where
  "super_bytes sp = be32 (sp_magic sp) @ be32 (sp_nblocks sp) @ sp_volname sp @ be32s (sp_reserved sp)"

definition super_of :: "bytes \<Rightarrow> sfs_superblock" where
  "super_of bs = \<lparr> sp_magic = de32 bs, sp_nblocks = de32 (drop 4 bs),
     sp_volname = take 32 (drop 8 bs), sp_reserved = de32s 118 (drop 40 bs) \<rparr>"

definition inode_bytes :: "sfs_inode \<Rightarrow> bytes" where
  "inode_bytes i = be32 (sfi_size i) @ be16 (sfi_type i) @ be16 (sfi_linkcount i)
     @ be32s (sfi_direct i) @ be32 (sfi_indirect i) @ be32s (sfi_waste i)"

definition inode_of :: "bytes \<Rightarrow> sfs_inode" where
  "inode_of bs = \<lparr> sfi_size = de32 bs, sfi_type = de16 (drop 4 bs), sfi_linkcount = de16 (drop 6 bs),
     sfi_direct = de32s 15 (drop 8 bs), sfi_indirect = de32 (drop 68 bs),
     sfi_waste = de32s 110 (drop 72 bs) \<rparr>"

definition dir_bytes :: "sfs_dir \<Rightarrow> bytes" where
  "dir_bytes sd = be32 (sfd_ino sd) @ sfd_name sd"

definition dir_of :: "bytes \<Rightarrow> sfs_dir" where
  "dir_of bs = \<lparr> sfd_ino = de32 bs, sfd_name = take 60 (drop 4 bs) \<rparr>"

section \<open>In-memory state\<close>

text \<open>Which of the two tables of vnode operations a vnode has.\<close>

datatype sfs_ops = Sfs_fileops | Sfs_dirops

record sfs_vnode =
  vn_refcount :: int
  vn_opencount :: int
  vn_ops :: sfs_ops
  sv_i :: sfs_inode
  sv_ino :: u32
  sv_dirty :: bool

record 'd sfs_fs =
  sfs_super :: sfs_superblock
  sfs_superdirty :: bool
  sfs_device :: 'd
  sfs_vnodes :: "nat karray"
  sfs_freemap :: bitmap
  sfs_freemapdirty :: bool
  sfs_node :: "nat \<Rightarrow> sfs_vnode option"
  sfs_nextptr :: nat

type_synonym 'd dev_io = "'d \<Rightarrow> uio \<Rightarrow> ((errno + unit) \<times> uio \<times> 'd) option"

text \<open>\<^verbatim>\<open>result = f(...); if (result) return result;\<close> and go on with the value handed back.\<close>

definition and_then :: "((errno + 'a) \<times> 's) option \<Rightarrow> ('a \<Rightarrow> 's \<Rightarrow> ((errno + 'b) \<times> 's) option) \<Rightarrow>
    ((errno + 'b) \<times> 's) option" where
  "and_then m f = (case m of None \<Rightarrow> None | Some (Inl e, s) \<Rightarrow> Some (Inl e, s) | Some (Inr x, s) \<Rightarrow> f x s)"

lemma and_then_simps [simp]:
  "and_then None f = None"
  "and_then (Some (Inl e, s)) f = Some (Inl e, s)"
  "and_then (Some (Inr x, s)) f = f x s"
  by (simp_all add: and_then_def)

definition upd_node :: "nat \<Rightarrow> (sfs_vnode \<Rightarrow> sfs_vnode) \<Rightarrow> 'd sfs_fs \<Rightarrow> 'd sfs_fs" where
  "upd_node p f fs = fs\<lparr> sfs_node := (sfs_node fs)(p := map_option f (sfs_node fs p)) \<rparr>"

definition upd_inode :: "nat \<Rightarrow> (sfs_inode \<Rightarrow> sfs_inode) \<Rightarrow> 'd sfs_fs \<Rightarrow> 'd sfs_fs" where
  "upd_inode p f = upd_node p (\<lambda>sv. sv\<lparr> sv_i := f (sv_i sv), sv_dirty := True \<rparr>)"

section \<open>Block I/O (sfs\_io.c)\<close>

function sfs_rwtry :: "'d dev_io \<Rightarrow> nat \<Rightarrow> 'd \<Rightarrow> uio \<Rightarrow> ((errno + unit) \<times> uio \<times> 'd) option" where
  "sfs_rwtry d_io tries d u =
     (case d_io d u of
        None \<Rightarrow> None
      | Some (result, u', d') \<Rightarrow>
          if result = Inl EINVAL then None
          else if result = Inl EIO \<and> tries < 10 then sfs_rwtry d_io (tries + 1) d' u'
          else Some (result, u', d'))"
  by pat_completeness auto
termination
  by (relation "measure (\<lambda>(d_io, tries, d, u). 10 - tries)") auto

definition sfs_rwblock :: "'d dev_io \<Rightarrow> uio \<Rightarrow> 'd sfs_fs \<Rightarrow> ((errno + unit) \<times> uio \<times> 'd sfs_fs) option" where
  "sfs_rwblock d_io u fs = do {
     (result, u', d') \<leftarrow> sfs_rwtry d_io 0 (sfs_device fs) u;
     Some (result, u', fs\<lparr> sfs_device := d' \<rparr>)
   }"

text \<open>\<^verbatim>\<open>SFSUIO\<close>: the byte offset of a block is a product of \<^verbatim>\<open>off_t\<close>s.\<close>

definition SFSUIO :: "bytes \<Rightarrow> nat \<Rightarrow> uio_rw \<Rightarrow> uio option" where
  "SFSUIO data block rw = do {
     pos \<leftarrow> cint (off32 (int block) * int SFS_BLOCKSIZE);
     Some (mk_kuio data SFS_BLOCKSIZE pos rw)
   }"

text \<open>A successful read hands back the content of the caller's block-sized buffer.\<close>

definition sfs_rblock :: "'d dev_io \<Rightarrow> nat \<Rightarrow> 'd sfs_fs \<Rightarrow> ((errno + bytes) \<times> 'd sfs_fs) option" where
  "sfs_rblock d_io block fs = do {
     ku \<leftarrow> SFSUIO (replicate SFS_BLOCKSIZE 0) block UIO_READ;
     (result, ku', fs') \<leftarrow> sfs_rwblock d_io ku fs;
     Some (case result of Inl e \<Rightarrow> Inl e | Inr _ \<Rightarrow> Inr (mem_get (uio_mem ku') 0 SFS_BLOCKSIZE), fs')
   }"

definition sfs_wblock :: "'d dev_io \<Rightarrow> bytes \<Rightarrow> nat \<Rightarrow> 'd sfs_fs \<Rightarrow> ((errno + unit) \<times> 'd sfs_fs) option" where
  "sfs_wblock d_io data block fs = do {
     ku \<leftarrow> SFSUIO data block UIO_WRITE;
     (result, ku', fs') \<leftarrow> sfs_rwblock d_io ku fs;
     Some (result, fs')
   }"

section \<open>Simple stuff and space allocation (sfs\_vnode.c)\<close>

definition sfs_clearblock :: "'d dev_io \<Rightarrow> nat \<Rightarrow> 'd sfs_fs \<Rightarrow> ((errno + unit) \<times> 'd sfs_fs) option" where
  "sfs_clearblock d_io block fs = sfs_wblock d_io (replicate SFS_BLOCKSIZE 0) block fs"

definition sfs_sync_inode :: "'d dev_io \<Rightarrow> nat \<Rightarrow> 'd sfs_fs \<Rightarrow> ((errno + unit) \<times> 'd sfs_fs) option" where
  "sfs_sync_inode d_io p fs = do {
     sv \<leftarrow> sfs_node fs p;
     if sv_dirty sv
     then and_then (sfs_wblock d_io (inode_bytes (sv_i sv)) (unat (sv_ino sv)) fs)
            (\<lambda>_ fs. Some (Inr (), upd_node p (\<lambda>sv. sv\<lparr> sv_dirty := False \<rparr>) fs))
     else Some (Inr (), fs)
   }"

definition sfs_balloc :: "'d dev_io \<Rightarrow> 'd sfs_fs \<Rightarrow> ((errno + nat) \<times> 'd sfs_fs) option" where
  "sfs_balloc d_io fs = do {
     (result, bm) \<leftarrow> bitmap_alloc (sfs_freemap fs);
     case result of
       Inl e \<Rightarrow> Some (Inl e, fs\<lparr> sfs_freemap := bm \<rparr>)
     | Inr diskblock \<Rightarrow> do {
         let fs = fs\<lparr> sfs_freemap := bm, sfs_freemapdirty := True \<rparr>;
         kassert (diskblock < unat (sp_nblocks (sfs_super fs)));
         and_then (sfs_clearblock d_io diskblock fs) (\<lambda>_ fs. Some (Inr diskblock, fs))
       }
   }"

definition sfs_bfree :: "nat \<Rightarrow> 'd sfs_fs \<Rightarrow> 'd sfs_fs option" where
  "sfs_bfree diskblock fs = do {
     bm \<leftarrow> bitmap_unmark (sfs_freemap fs) diskblock;
     Some (fs\<lparr> sfs_freemap := bm, sfs_freemapdirty := True \<rparr>)
   }"

definition sfs_bused :: "nat \<Rightarrow> 'd sfs_fs \<Rightarrow> bool option" where
  "sfs_bused diskblock fs = do {
     kassert (diskblock < unat (sp_nblocks (sfs_super fs)));
     w \<leftarrow> bitmap_isset (sfs_freemap fs) diskblock;
     Some (w \<noteq> 0)
   }"

declare sfs_rwtry.simps [simp del]

section \<open>What is written is what is read back\<close>

lemma be32_length [simp]: "length (be32 w) = 4"
  by (simp add: be32_def)

lemma be16_length [simp]: "length (be16 w) = 2"
  by (simp add: be16_def)

lemma be32s_length [simp]: "length (be32s ws) = 4 * length ws"
  by (induction ws) (simp_all add: be32s_def)

lemma de32s_length [simp]: "length (de32s n bs) = n"
  by (simp add: de32s_def)

lemma de32_be32 [simp]: "de32 (be32 w @ bs) = w"
proof (rule bit_word_eqI)
  fix n assume "n < LENGTH(32)"
  then have "n < 8 \<or> 8 \<le> n \<and> n < 16 \<or> 16 \<le> n \<and> n < 24 \<or> 24 \<le> n \<and> n < 32" by auto
  then show "bit (de32 (be32 w @ bs)) n = bit w n"
    unfolding de32_def be32_def
    by (elim disjE conjE) (auto simp: bit_or_iff bit_push_bit_iff bit_unsigned_iff bit_drop_bit_eq)
qed

lemma de16_be16 [simp]: "de16 (be16 w @ bs) = w"
proof (rule bit_word_eqI)
  fix n assume "n < LENGTH(16)"
  then have "n < 8 \<or> 8 \<le> n \<and> n < 16" by auto
  then show "bit (de16 (be16 w @ bs)) n = bit w n"
    by (auto simp: de16_def be16_def bit_simps)
qed

lemma be32s_Cons: "be32s (w # ws) = be32 w @ be32s ws"
  by (simp add: be32s_def)

lemma drop_be32s: "i < length ws \<Longrightarrow> \<exists>r. drop (4 * i) (be32s ws @ bs) = be32 (ws ! i) @ r"
proof (induction ws arbitrary: i)
  case (Cons w ws)
  then show ?case
    by (cases i) (auto simp: be32s_Cons)
qed simp

lemma de32s_be32s [simp]: "de32s (length ws) (be32s ws @ bs) = ws"
proof (rule nth_equalityI)
  fix i assume "i < length (de32s (length ws) (be32s ws @ bs))"
  then have i: "i < length ws" by simp
  then obtain r where "drop (4 * i) (be32s ws @ bs) = be32 (ws ! i) @ r" using drop_be32s by blast
  with i show "de32s (length ws) (be32s ws @ bs) ! i = ws ! i" by (simp add: de32s_def)
qed simp

lemma de32_nil [simp]: "de32 (be32 w) = w"
  using de32_be32 [of w "[]"] by simp

lemma de32s_nil: "length ws = n \<Longrightarrow> de32s n (be32s ws) = ws"
  using de32s_be32s [of ws "[]"] by simp

lemma de32s_append: "length ws = n \<Longrightarrow> de32s n (be32s ws @ bs) = ws"
  using de32s_be32s by blast

definition inode_sized :: "sfs_inode \<Rightarrow> bool" where
  "inode_sized i \<longleftrightarrow> length (sfi_direct i) = 15 \<and> length (sfi_waste i) = 110"

lemma inode_bytes_length: "inode_sized i \<Longrightarrow> length (inode_bytes i) = 512"
  by (simp add: inode_bytes_def inode_sized_def)

lemma inode_of_sized [simp]: "inode_sized (inode_of bs)"
  by (simp add: inode_of_def inode_sized_def)

lemma inode_roundtrip: "inode_sized i \<Longrightarrow> inode_of (inode_bytes i @ bs) = i"
  by (simp add: inode_of_def inode_bytes_def inode_sized_def de32s_append)

lemma dir_bytes_length: "length (sfd_name sd) = 60 \<Longrightarrow> length (dir_bytes sd) = 64"
  by (simp add: dir_bytes_def)

lemma dir_roundtrip: "length (sfd_name sd) = 60 \<Longrightarrow> dir_of (dir_bytes sd) = sd"
  by (simp add: dir_of_def dir_bytes_def)

lemma de32s_zeros: "j < n \<Longrightarrow> 4 * n \<le> k \<Longrightarrow> de32s n (replicate k 0) ! j = 0"
  by (simp add: de32s_def de32_def)

end
