(* ===== verification/Dev_Lhd.thy ===== *)
theory Dev_Lhd
  imports Kern_Uio
begin

text \<open>
  The LAMEbus disk driver, \<^verbatim>\<open>kern/dev/lamebus/lhd.c\<close>.

  The drive itself is hardware. It is a parameter of the driver,
  \<open>drive d sector iswrite buf = (status, buf', d')\<close>: what the drive in state \<open>d\<close> makes of the
  operation started by writing the sector and status registers with \<open>buf\<close> in the card's
  buffer, namely the status it reports by interrupt, the buffer afterwards and its new state.
  The driver runs one request at a time (\<^verbatim>\<open>lh_clear\<close>); a wait that nobody ends is
  \<open>None\<close>, as is an access outside an object.

  The theory states the contract a file system relies on, as the locale \<open>block_device\<close>,
  and shows that the driver keeps it on every drive without media errors.
\<close>

section \<open>The driver\<close>

type_synonym 'd drive = "'d \<Rightarrow> nat \<Rightarrow> bool \<Rightarrow> bytes \<Rightarrow> u32 \<times> bytes \<times> 'd"

definition LHD_SECTSIZE :: nat where
  "LHD_SECTSIZE = 512"

definition LHD_STATEMASK :: u32 where
  "LHD_STATEMASK = 0x1d"

definition LHD_OK :: u32 where "LHD_OK = 4"
definition LHD_INVSECT :: u32 where "LHD_INVSECT = 12"
definition LHD_MEDIA :: u32 where "LHD_MEDIA = 20"

record 'd lhd_softc =
  lh_disk :: 'd
  lh_buf :: bytes
  lh_stat :: u32
  lh_result :: "errno + unit"
  lh_clear :: nat
  lh_done :: nat
  d_blocks :: nat

definition lhd_code_to_errno :: "u32 \<Rightarrow> errno + unit" where
  "lhd_code_to_errno code =
     (if code AND LHD_STATEMASK = LHD_OK then Inr ()
      else if code AND LHD_STATEMASK = LHD_INVSECT then Inl EINVAL
      else if code AND LHD_STATEMASK = LHD_MEDIA then Inl EIO
      else Inl EAGAIN)"

definition lhd_iodone :: "errno + unit \<Rightarrow> 'd lhd_softc \<Rightarrow> 'd lhd_softc" where
  "lhd_iodone err lh = lh\<lparr> lh_result := err, lh_done := lh_done lh + 1 \<rparr>"

definition lhd_irq :: "'d lhd_softc \<Rightarrow> 'd lhd_softc" where
  "lhd_irq lh = (
     let val = lh_stat lh; state = val AND LHD_STATEMASK in
     if state = LHD_OK \<or> state = LHD_INVSECT \<or> state = LHD_MEDIA
     then lhd_iodone (lhd_code_to_errno val) (lh\<lparr> lh_stat := 0 \<rparr>)
     else lh)"

text \<open>Writing the sector and status registers: the drive works and posts its status.\<close>

definition lhd_start :: "'d drive \<Rightarrow> nat \<Rightarrow> bool \<Rightarrow> 'd lhd_softc \<Rightarrow> 'd lhd_softc" where
  "lhd_start drive sector iswrite lh = (
     let (st, buf, d) = drive (lh_disk lh) sector iswrite (lh_buf lh) in
     lh\<lparr> lh_disk := d, lh_buf := buf, lh_stat := st \<rparr>)"

text \<open>One pass of the loop of \<^verbatim>\<open>lhd_io\<close> for one sector.\<close>

definition lhd_sector :: "'d drive \<Rightarrow> nat \<Rightarrow> 'd lhd_softc \<Rightarrow> uio \<Rightarrow>
    ((errno + unit) \<times> uio \<times> 'd lhd_softc) option" where
  "lhd_sector drive sector lh u = do {
     kassert (0 < lh_clear lh);
     let lh = lh\<lparr> lh_clear := lh_clear lh - 1 \<rparr>;
     (r, buf, u) \<leftarrow> (if uio_rw u = UIO_WRITE then uiomove (lh_buf lh) LHD_SECTSIZE u
                     else Some (Inr (), lh_buf lh, u));
     let lh = lh\<lparr> lh_buf := buf \<rparr>;
     case r of
       Inl e \<Rightarrow> Some (Inl e, u, lh\<lparr> lh_clear := lh_clear lh + 1 \<rparr>)
     | Inr _ \<Rightarrow> do {
         let lh = lhd_irq (lhd_start drive sector (uio_rw u = UIO_WRITE) lh);
         kassert (0 < lh_done lh);
         let lh = lh\<lparr> lh_done := lh_done lh - 1 \<rparr>;
         (r, buf, u) \<leftarrow> (if lh_result lh = Inr () \<and> uio_rw u = UIO_READ
                         then uiomove (lh_buf lh) LHD_SECTSIZE u
                         else Some (lh_result lh, lh_buf lh, u));
         Some (r, u, lh\<lparr> lh_buf := buf, lh_clear := lh_clear lh + 1 \<rparr>)
       }
   }"

fun lhd_sectors :: "'d drive \<Rightarrow> nat \<Rightarrow> nat \<Rightarrow> 'd lhd_softc \<Rightarrow> uio \<Rightarrow>
    ((errno + unit) \<times> uio \<times> 'd lhd_softc) option" where
  "lhd_sectors drive sector 0 lh u = Some (Inr (), u, lh)"
| "lhd_sectors drive sector (Suc n) lh u =
     (case lhd_sector drive sector lh u of
        None \<Rightarrow> None
      | Some (Inl e, u', lh') \<Rightarrow> Some (Inl e, u', lh')
      | Some (Inr _, u', lh') \<Rightarrow> lhd_sectors drive ((sector + 1) mod 2 ^ 32) n lh' u')"

text \<open>C division truncates towards zero; the quotient and remainder are stored in \<^verbatim>\<open>u_int32_t\<close>.\<close>

definition u32_quot :: "int \<Rightarrow> int \<Rightarrow> nat" where
  "u32_quot a b = nat ((if 0 \<le> a then a div b else - ((- a) div b)) mod 2 ^ 32)"

definition u32_rem :: "int \<Rightarrow> int \<Rightarrow> nat" where
  "u32_rem a b = nat ((if 0 \<le> a then a mod b else - ((- a) mod b)) mod 2 ^ 32)"

definition lhd_io :: "'d drive \<Rightarrow> 'd lhd_softc \<Rightarrow> uio \<Rightarrow>
    ((errno + unit) \<times> uio \<times> 'd lhd_softc) option" where
  "lhd_io drive lh u = (
     let sector = u32_quot (uio_offset u) (int LHD_SECTSIZE);
         sectoff = u32_rem (uio_offset u) (int LHD_SECTSIZE);
         len = uio_resid u div LHD_SECTSIZE;
         lenoff = uio_resid u mod LHD_SECTSIZE in
     if sectoff \<noteq> 0 \<or> lenoff \<noteq> 0 then Some (Inl EINVAL, u, lh)
     else if (sector + len) mod 2 ^ 32 > d_blocks lh then Some (Inl EINVAL, u, lh)
     else lhd_sectors drive sector len lh u)"

text \<open>
  \<^verbatim>\<open>config_lhd\<close>: the semaphores start at 1 and 0; the number of sectors is read from the
  hardware; \<open>adddev\<close> is the result of \<^verbatim>\<open>vfs_adddev\<close>.
\<close>

definition config_lhd :: "bool \<Rightarrow> bool \<Rightarrow> errno + unit \<Rightarrow> 'd \<Rightarrow> bytes \<Rightarrow> nat \<Rightarrow> errno + ('d lhd_softc)" where
  "config_lhd sem1_ok sem2_ok adddev disk buf nsect = (
     if \<not> sem1_ok then Inl ENOMEM
     else if \<not> sem2_ok then Inl ENOMEM
     else case adddev of
       Inl e \<Rightarrow> Inl e
     | Inr _ \<Rightarrow> Inr \<lparr> lh_disk = disk, lh_buf = buf, lh_stat = 0, lh_result = Inr (),
                      lh_clear = 1, lh_done = 0, d_blocks = nsect \<rparr>)"

section \<open>The contract of a block device\<close>

locale block_device =
  fixes d_io :: "'d \<Rightarrow> uio \<Rightarrow> ((errno + unit) \<times> uio \<times> 'd) option"
    and blk :: "'d \<Rightarrow> nat \<Rightarrow> bytes"
    and nblk :: "'d \<Rightarrow> nat"
    and dev_ok :: "'d \<Rightarrow> bool"
  assumes blk_length: "dev_ok d \<Longrightarrow> b < nblk d \<Longrightarrow> length (blk d b) = 512"
    and nblk_bound: "dev_ok d \<Longrightarrow> nblk d < 2 ^ 22"
    and read_block: "dev_ok d \<Longrightarrow> b < nblk d \<Longrightarrow> uio_rw u = UIO_READ \<Longrightarrow> uio_offset u = 512 * int b \<Longrightarrow>
      uio_resid u = 512 \<Longrightarrow> uio_ready 512 u \<Longrightarrow>
      \<exists>d'. d_io d u = Some (Inr (), uio_deliver (blk d b) u, d') \<and> dev_ok d' \<and> nblk d' = nblk d \<and>
           blk d' = blk d"
    and write_block: "dev_ok d \<Longrightarrow> b < nblk d \<Longrightarrow> uio_rw u = UIO_WRITE \<Longrightarrow> uio_offset u = 512 * int b \<Longrightarrow>
      uio_resid u = 512 \<Longrightarrow> uio_ready 512 u \<Longrightarrow>
      \<exists>d'. d_io d u = Some (Inr (), uio_advance 512 u, d') \<and> dev_ok d' \<and> nblk d' = nblk d \<and>
           blk d' = (blk d)(b := uio_pending u 512)"

section \<open>The driver keeps the contract\<close>

text \<open>
  What the driver expects of the drive: \<open>sect\<close> is the content of the sectors and
  \<open>nsect\<close> their number. A request for a sector that exists completes without error, a read
  fills the buffer and a write stores it.
\<close>

definition drive_ok :: "'d drive \<Rightarrow> ('d \<Rightarrow> nat \<Rightarrow> bytes) \<Rightarrow> nat \<Rightarrow> bool" where
  "drive_ok drive sect nsect \<longleftrightarrow> (\<forall>d s w b st b' d'.
     s < nsect \<and> length b = 512 \<and> drive d s w b = (st, b', d') \<longrightarrow>
       st AND LHD_STATEMASK = LHD_OK \<and> length b' = 512 \<and>
       (if w then sect d' = (sect d)(s := b) else b' = sect d s \<and> sect d' = sect d))"

definition lhd_idle :: "('d \<Rightarrow> nat \<Rightarrow> bytes) \<Rightarrow> nat \<Rightarrow> 'd lhd_softc \<Rightarrow> bool" where
  "lhd_idle sect nsect lh \<longleftrightarrow> length (lh_buf lh) = 512 \<and> lh_clear lh = 1 \<and> lh_done lh = 0 \<and>
     d_blocks lh = nsect \<and> (\<forall>s<nsect. length (sect (lh_disk lh) s) = 512)"

lemma lhd_irq_ok:
  "lh_stat lh AND LHD_STATEMASK = LHD_OK \<Longrightarrow>
     lhd_irq lh = lh\<lparr> lh_stat := 0, lh_result := Inr (), lh_done := lh_done lh + 1 \<rparr>"
  by (simp add: lhd_irq_def Let_def lhd_iodone_def lhd_code_to_errno_def)

lemma lhd_sector_read:
  assumes "drive_ok drive sect nsect" "lhd_idle sect nsect lh" "s < nsect"
    "uio_rw u = UIO_READ" "uio_ready 512 u"
  shows "\<exists>lh'. lhd_sector drive s lh u = Some (Inr (), uio_deliver (sect (lh_disk lh) s) u, lh') \<and>
    lhd_idle sect nsect lh' \<and> sect (lh_disk lh') = sect (lh_disk lh)"
proof -
  obtain st b' d' where dr: "drive (lh_disk lh) s False (lh_buf lh) = (st, b', d')"
    by (metis prod_cases3)
  have ok: "st AND LHD_STATEMASK = LHD_OK" "length b' = 512" "b' = sect (lh_disk lh) s"
    "sect d' = sect (lh_disk lh)"
    using assms(1) dr assms(2,3) unfolding drive_ok_def lhd_idle_def by force+
  have mv: "uiomove b' LHD_SECTSIZE u = Some (Inr (), b', uio_deliver b' u)"
    using uiomove_read [OF assms(5,4), of b'] ok(2) by (simp add: LHD_SECTSIZE_def)
  show ?thesis
    using assms(2,4) dr ok mv
    by (simp add: lhd_sector_def lhd_start_def lhd_irq_ok lhd_idle_def Let_def)
qed

lemma lhd_sector_write:
  assumes "drive_ok drive sect nsect" "lhd_idle sect nsect lh" "s < nsect"
    "uio_rw u = UIO_WRITE" "uio_ready 512 u"
  shows "\<exists>lh'. lhd_sector drive s lh u = Some (Inr (), uio_advance 512 u, lh') \<and>
    lhd_idle sect nsect lh' \<and> sect (lh_disk lh') = (sect (lh_disk lh))(s := uio_pending u 512)"
proof -
  let ?b = "uio_pending u 512"
  obtain st b' d' where dr: "drive (lh_disk lh) s True ?b = (st, b', d')"
    by (metis prod_cases3)
  have ok: "st AND LHD_STATEMASK = LHD_OK" "length b' = 512" "sect d' = (sect (lh_disk lh))(s := ?b)"
    using assms(1) dr assms(3) uio_pending_length [of u 512] unfolding drive_ok_def by metis+
  have mv: "uiomove (lh_buf lh) LHD_SECTSIZE u = Some (Inr (), ?b, uio_advance 512 u)"
    using uiomove_write [OF assms(5,4), of "lh_buf lh"] assms(2)
    by (simp add: LHD_SECTSIZE_def lhd_idle_def)
  show ?thesis
    using assms(2,4) dr ok mv
    by (simp add: lhd_sector_def lhd_start_def lhd_irq_ok lhd_idle_def Let_def)
qed

lemma lhd_io_block:
  assumes "uio_offset u = 512 * int b" "uio_resid u = 512" "b < d_blocks lh" "d_blocks lh < 2 ^ 22"
  shows "lhd_io drive lh u = lhd_sectors drive b 1 lh u"
  using assms
  by (simp add: lhd_io_def Let_def LHD_SECTSIZE_def u32_quot_def u32_rem_def)

text \<open>The driver is idle, in front of such a drive that is small enough for the file system.\<close>

definition lhd_ready :: "'d drive \<Rightarrow> ('d \<Rightarrow> nat \<Rightarrow> bytes) \<Rightarrow> nat \<Rightarrow> 'd lhd_softc \<Rightarrow> bool" where
  "lhd_ready drive sect nsect lh \<longleftrightarrow> drive_ok drive sect nsect \<and> nsect < 2 ^ 22 \<and> lhd_idle sect nsect lh"

interpretation lhd: block_device "lhd_io drive" "\<lambda>lh. sect (lh_disk lh)" d_blocks "lhd_ready drive sect nsect"
  for drive sect nsect
proof (unfold_locales, goal_cases)
  case (3 lh b u)
  then show ?case
    using lhd_sector_read [of drive sect nsect lh b u] lhd_io_block [of u b lh drive]
    by (auto simp: lhd_idle_def lhd_ready_def)
next
  case (4 lh b u)
  then show ?case
    using lhd_sector_write [of drive sect nsect lh b u] lhd_io_block [of u b lh drive]
    by (auto simp: lhd_idle_def lhd_ready_def)
qed (auto simp: lhd_idle_def lhd_ready_def)

end
