(* ===== verification/Sfs_File.thy ===== *)
theory Sfs_File
  imports Sfs_Disk Dev_Lhd
begin

text \<open>
  Files of SFS: block mapping, file I/O and truncation
  (\<^verbatim>\<open>sfs_bmap\<close>, \<^verbatim>\<open>sfs_partialio\<close>, \<^verbatim>\<open>sfs_blockio\<close>, \<^verbatim>\<open>sfs_io\<close> and
  \<^verbatim>\<open>sfs_truncate\<close> of \<^verbatim>\<open>sfs_vnode.c\<close>). The static buffers of these functions are
  written before they are read in every call, so they are local values here.
\<close>

section \<open>Block mapping\<close>

text \<open>The last lines of \<^verbatim>\<open>sfs_bmap\<close>: a mapped block must be marked in use.\<close>

definition hand_back :: "u32 \<Rightarrow> 'd sfs_fs \<Rightarrow> ((errno + nat) \<times> 'd sfs_fs) option" where
  "hand_back block fs = do {
     used \<leftarrow> (if block \<noteq> 0 then sfs_bused (unat block) fs else Some True);
     kassert used;
     Some (Inr (unat block), fs)
   }"

definition bmap_direct :: "'d dev_io \<Rightarrow> nat \<Rightarrow> nat \<Rightarrow> bool \<Rightarrow> 'd sfs_fs \<Rightarrow>
    ((errno + nat) \<times> 'd sfs_fs) option" where
  "bmap_direct d_io p fileblock doalloc fs = do {
     sv \<leftarrow> sfs_node fs p;
     block \<leftarrow> slot_get (sfi_direct (sv_i sv)) (int fileblock);
     if block = 0 \<and> doalloc
     then and_then (sfs_balloc d_io fs) (\<lambda>b fs.
            let block = word_of_nat b;
                fs = upd_inode p (\<lambda>i. i\<lparr> sfi_direct := (sfi_direct i)[fileblock := block] \<rparr>) fs in
            hand_back block fs)
     else hand_back block fs
   }"

text \<open>
  The second half for an indirect block \<open>idblock\<close> whose content is in \<open>idbuf\<close>.
\<close>

definition bmap_entry :: "'d dev_io \<Rightarrow> nat \<Rightarrow> u32 list \<Rightarrow> nat \<Rightarrow> bool \<Rightarrow> 'd sfs_fs \<Rightarrow>
    ((errno + nat) \<times> 'd sfs_fs) option" where
  "bmap_entry d_io idblock idbuf idoff doalloc fs = do {
     block \<leftarrow> slot_get idbuf (int idoff);
     if block = 0 \<and> doalloc
     then and_then (sfs_balloc d_io fs) (\<lambda>b fs.
            let block = word_of_nat b; idbuf = idbuf[idoff := block] in
            and_then (sfs_wblock d_io (be32s idbuf) idblock fs) (\<lambda>_ fs. hand_back block fs))
     else hand_back block fs
   }"

definition bmap_indirect :: "'d dev_io \<Rightarrow> nat \<Rightarrow> nat \<Rightarrow> bool \<Rightarrow> 'd sfs_fs \<Rightarrow>
    ((errno + nat) \<times> 'd sfs_fs) option" where
  "bmap_indirect d_io p fileblock doalloc fs = (
     let idnum = fileblock div SFS_DBPERIDB; idoff = fileblock mod SFS_DBPERIDB in
     if idnum > 0 then Some (Inl EINVAL, fs)
     else do {
       sv \<leftarrow> sfs_node fs p;
       let idblock = sfi_indirect (sv_i sv);
       if idblock = 0 \<and> \<not> doalloc then Some (Inr 0, fs)
       else if idblock = 0
       then and_then (sfs_balloc d_io fs) (\<lambda>b fs.
              let fs = upd_inode p (\<lambda>i. i\<lparr> sfi_indirect := word_of_nat b \<rparr>) fs in
              bmap_entry d_io b (replicate SFS_DBPERIDB 0) idoff doalloc fs)
       else and_then (sfs_rblock d_io (unat idblock) fs) (\<lambda>buf fs.
              bmap_entry d_io (unat idblock) (de32s SFS_DBPERIDB buf) idoff doalloc fs)
     })"

definition sfs_bmap :: "'d dev_io \<Rightarrow> nat \<Rightarrow> nat \<Rightarrow> bool \<Rightarrow> 'd sfs_fs \<Rightarrow>
    ((errno + nat) \<times> 'd sfs_fs) option" where
  "sfs_bmap d_io p fileblock doalloc fs =
     (if fileblock < SFS_NDIRECT then bmap_direct d_io p fileblock doalloc fs
      else bmap_indirect d_io p (fileblock - SFS_NDIRECT) doalloc fs)"

section \<open>File I/O\<close>

definition sfs_partialio :: "'d dev_io \<Rightarrow> nat \<Rightarrow> nat \<Rightarrow> nat \<Rightarrow> uio \<Rightarrow> 'd sfs_fs \<Rightarrow>
    ((errno + unit) \<times> uio \<times> 'd sfs_fs) option" where
  "sfs_partialio d_io p skipstart len u fs = do {
     let doalloc = (uio_rw u = UIO_WRITE);
     kassert (skipstart + len \<le> SFS_BLOCKSIZE);
     let fileblock = u32_quot (uio_offset u) (int SFS_BLOCKSIZE);
     (result, fs) \<leftarrow> sfs_bmap d_io p fileblock doalloc fs;
     case result of Inl e \<Rightarrow> Some (Inl e, u, fs) | Inr diskblock \<Rightarrow> do {
       (result, fs) \<leftarrow> (if diskblock = 0
          then do { kassert (uio_rw u = UIO_READ); Some (Inr (replicate SFS_BLOCKSIZE 0), fs) }
          else sfs_rblock d_io diskblock fs);
       case result of Inl e \<Rightarrow> Some (Inl e, u, fs) | Inr iobuf \<Rightarrow> do {
         (result, tail, u) \<leftarrow> uiomove (drop skipstart iobuf) len u;
         case result of Inl e \<Rightarrow> Some (Inl e, u, fs) | Inr _ \<Rightarrow>
           if uio_rw u = UIO_WRITE
           then do {
             (result, fs) \<leftarrow> sfs_wblock d_io (take skipstart iobuf @ tail) diskblock fs;
             Some (result, u, fs)
           }
           else Some (Inr (), u, fs)
       }
     }
   }"

definition sfs_blockio :: "'d dev_io \<Rightarrow> nat \<Rightarrow> uio \<Rightarrow> 'd sfs_fs \<Rightarrow>
    ((errno + unit) \<times> uio \<times> 'd sfs_fs) option" where
  "sfs_blockio d_io p u fs = do {
     let doalloc = (uio_rw u = UIO_WRITE);
     let fileblock = u32_quot (uio_offset u) (int SFS_BLOCKSIZE);
     (result, fs) \<leftarrow> sfs_bmap d_io p fileblock doalloc fs;
     case result of Inl e \<Rightarrow> Some (Inl e, u, fs) | Inr diskblock \<Rightarrow>
       if diskblock = 0
       then do {
         kassert (uio_rw u = UIO_READ);
         (result, u) \<leftarrow> uiomovezeros SFS_BLOCKSIZE u;
         Some (result, u, fs)
       }
       else do {
         let saveoff = uio_offset u;
         let diskoff = off32 (int (diskblock * SFS_BLOCKSIZE));
         kassert (uio_resid u \<ge> SFS_BLOCKSIZE);
         let saveres = uio_resid u;
         (result, u, fs) \<leftarrow>
           sfs_rwblock d_io (u\<lparr> uio_offset := diskoff, uio_resid := SFS_BLOCKSIZE \<rparr>) fs;
         Some (result,
           u\<lparr> uio_offset := off32 (uio_offset u - diskoff + saveoff),
              uio_resid := nat ((int (uio_resid u) - int SFS_BLOCKSIZE + int saveres) mod 2 ^ 32) \<rparr>,
           fs)
       }
   }"

fun sfs_blocks :: "'d dev_io \<Rightarrow> nat \<Rightarrow> nat \<Rightarrow> uio \<Rightarrow> 'd sfs_fs \<Rightarrow>
    ((errno + unit) \<times> uio \<times> 'd sfs_fs) option" where
  "sfs_blocks d_io p 0 u fs = Some (Inr (), u, fs)"
| "sfs_blocks d_io p (Suc n) u fs =
     (case sfs_blockio d_io p u fs of
        None \<Rightarrow> None
      | Some (Inl e, u', fs') \<Rightarrow> Some (Inl e, u', fs')
      | Some (Inr _, u', fs') \<Rightarrow> sfs_blocks d_io p n u' fs')"

text \<open>The body of \<^verbatim>\<open>sfs_io\<close> up to the label \<^verbatim>\<open>out\<close>.\<close>

definition sfs_io_body :: "'d dev_io \<Rightarrow> nat \<Rightarrow> uio \<Rightarrow> 'd sfs_fs \<Rightarrow>
    ((errno + unit) \<times> uio \<times> 'd sfs_fs) option" where
  "sfs_io_body d_io p u fs = do {
     let blkoff = u32_rem (uio_offset u) (int SFS_BLOCKSIZE);
     (result, u, fs) \<leftarrow> (if blkoff \<noteq> 0
        then let len = SFS_BLOCKSIZE - blkoff;
                 len = (if len > uio_resid u then uio_resid u else len) in
             sfs_partialio d_io p blkoff len u fs
        else Some (Inr (), u, fs));
     case result of Inl e \<Rightarrow> Some (Inl e, u, fs) | Inr _ \<Rightarrow>
       if uio_resid u = 0 then Some (Inr (), u, fs)
       else do {
         kassert (u32_rem (uio_offset u) (int SFS_BLOCKSIZE) = 0);
         (result, u, fs) \<leftarrow> sfs_blocks d_io p (uio_resid u div SFS_BLOCKSIZE) u fs;
         case result of Inl e \<Rightarrow> Some (Inl e, u, fs) | Inr _ \<Rightarrow> do {
           kassert (uio_resid u < SFS_BLOCKSIZE);
           if uio_resid u > 0 then sfs_partialio d_io p 0 (uio_resid u) u fs
           else Some (Inr (), u, fs)
         }
       }
   }"

definition sfs_io :: "'d dev_io \<Rightarrow> nat \<Rightarrow> uio \<Rightarrow> 'd sfs_fs \<Rightarrow>
    ((errno + unit) \<times> uio \<times> 'd sfs_fs) option" where
  "sfs_io d_io p u fs = do {
     sv \<leftarrow> sfs_node fs p;
     let fsize = off32 (int (unat (sfi_size (sv_i sv))));
     let endpos = off32 (uio_offset u + int (uio_resid u));
     if uio_rw u = UIO_READ \<and> uio_offset u \<ge> fsize then Some (Inr (), u, fs)
     else do {
       let past_end = (uio_rw u = UIO_READ \<and> endpos > fsize);
       let extraresid = (if past_end then nat ((endpos - fsize) mod 2 ^ 32) else 0);
       kassert (past_end \<longrightarrow> uio_resid u > extraresid);
       (result, u, fs) \<leftarrow> sfs_io_body d_io p (u\<lparr> uio_resid := uio_resid u - extraresid \<rparr>) fs;
       sv \<leftarrow> sfs_node fs p;
       let fs = (if uio_rw u = UIO_WRITE \<and> uio_offset u > off32 (int (unat (sfi_size (sv_i sv))))
                 then upd_inode p (\<lambda>i. i\<lparr> sfi_size := word_of_int (uio_offset u) \<rparr>) fs
                 else fs);
       Some (result, u\<lparr> uio_resid := (uio_resid u + extraresid) mod 2 ^ 32 \<rparr>, fs)
     }
   }"

section \<open>Truncation\<close>

text \<open>
  A loop over block pointers, numbered from \<open>i\<close>, that frees those \<open>past\<close> the end.
\<close>

fun free_past :: "(nat \<Rightarrow> bool) \<Rightarrow> nat \<Rightarrow> u32 list \<Rightarrow> 'd sfs_fs \<Rightarrow> (u32 list \<times> 'd sfs_fs) option" where
  "free_past past i [] fs = Some ([], fs)"
| "free_past past i (block # blocks) fs =
     (if past i \<and> block \<noteq> 0
      then do {
        fs \<leftarrow> sfs_bfree (unat block) fs;
        (rest, fs) \<leftarrow> free_past past (i + 1) blocks fs;
        Some (0 # rest, fs)
      }
      else do {
        (rest, fs) \<leftarrow> free_past past (i + 1) blocks fs;
        Some (block # rest, fs)
      })"

definition trunc_direct :: "nat \<Rightarrow> nat \<Rightarrow> 'd sfs_fs \<Rightarrow> 'd sfs_fs option" where
  "trunc_direct p blocklen fs = do {
     sv \<leftarrow> sfs_node fs p;
     (blocks, fs) \<leftarrow> free_past (\<lambda>i. i \<ge> blocklen) 0 (sfi_direct (sv_i sv)) fs;
     Some (if blocks = sfi_direct (sv_i sv) then fs
           else upd_inode p (\<lambda>i. i\<lparr> sfi_direct := blocks \<rparr>) fs)
   }"

definition trunc_indirect :: "'d dev_io \<Rightarrow> nat \<Rightarrow> nat \<Rightarrow> 'd sfs_fs \<Rightarrow>
    ((errno + unit) \<times> 'd sfs_fs) option" where
  "trunc_indirect d_io p blocklen fs = do {
     sv \<leftarrow> sfs_node fs p;
     let idblock = sfi_indirect (sv_i sv);
     let baseblock = SFS_NDIRECT;
     let highblock = baseblock + SFS_DBPERIDB - 1;
     if blocklen < highblock \<and> idblock \<noteq> 0
     then and_then (sfs_rblock d_io (unat idblock) fs) (\<lambda>buf fs. do {
            let idbuf = de32s SFS_DBPERIDB buf;
            (idbuf', fs) \<leftarrow> free_past (\<lambda>j. blocklen < baseblock + j) 0 idbuf fs;
            let hasnonzero = list_ex (\<lambda>b. b \<noteq> 0) idbuf';
            let iddirty = (idbuf' \<noteq> idbuf);
            if \<not> hasnonzero
            then do {
              fs \<leftarrow> sfs_bfree (unat idblock) fs;
              Some (Inr (), upd_inode p (\<lambda>i. i\<lparr> sfi_indirect := 0 \<rparr>) fs)
            }
            else if iddirty then sfs_wblock d_io (be32s idbuf') (unat idblock) fs
            else Some (Inr (), fs)
          })
     else Some (Inr (), fs)
   }"

definition sfs_truncate :: "'d dev_io \<Rightarrow> nat \<Rightarrow> int \<Rightarrow> 'd sfs_fs \<Rightarrow> ((errno + unit) \<times> 'd sfs_fs) option" where
  "sfs_truncate d_io p len fs = do {
     up \<leftarrow> cint (len + int SFS_BLOCKSIZE);
     let blocklen = u32_quot (up - 1) (int SFS_BLOCKSIZE);
     fs \<leftarrow> trunc_direct p blocklen fs;
     and_then (trunc_indirect d_io p blocklen fs) (\<lambda>_ fs.
       Some (Inr (), upd_inode p (\<lambda>i. i\<lparr> sfi_size := word_of_int len \<rparr>) fs))
   }"

end
