(* ===== verification/Sfs_Vnode.thy ===== *)
theory Sfs_Vnode
  imports Sfs_File
begin

text \<open>
  Directories and vnodes of SFS: the rest of \<^verbatim>\<open>sfs_vnode.c\<close>, with the reference counts of
  \<^verbatim>\<open>kern/fs/vfs/vnode.c\<close>, and the file system as a whole, \<^verbatim>\<open>sfs_fs.c\<close>.

  A name is the list of the characters of a C string without its terminator. Whether
  \<^verbatim>\<open>kmalloc\<close> grants a request is the argument \<open>kmalloc_ok\<close>.
\<close>

section \<open>Directory I/O\<close>

definition sizeof_sfs_dir :: nat where
  "sizeof_sfs_dir = 64"

definition sfs_readdir :: "'d dev_io \<Rightarrow> nat \<Rightarrow> int \<Rightarrow> 'd sfs_fs \<Rightarrow> ((errno + sfs_dir) \<times> 'd sfs_fs) option" where
  "sfs_readdir d_io p slot fs = do {
     let actualpos = off32 (slot * int sizeof_sfs_dir);
     let ku = mk_kuio (replicate sizeof_sfs_dir 0) sizeof_sfs_dir actualpos UIO_READ;
     (result, ku, fs) \<leftarrow> sfs_io d_io p ku fs;
     case result of Inl e \<Rightarrow> Some (Inl e, fs) | Inr _ \<Rightarrow> do {
       kassert (uio_resid ku = 0);
       Some (Inr (dir_of (mem_get (uio_mem ku) 0 sizeof_sfs_dir)), fs)
     }
   }"

definition sfs_writedir :: "'d dev_io \<Rightarrow> nat \<Rightarrow> sfs_dir \<Rightarrow> int \<Rightarrow> 'd sfs_fs \<Rightarrow> ((errno + unit) \<times> 'd sfs_fs) option" where
  "sfs_writedir d_io p sd slot fs = do {
     kassert (slot \<ge> 0);
     let actualpos = off32 (slot * int sizeof_sfs_dir);
     let ku = mk_kuio (dir_bytes sd) sizeof_sfs_dir actualpos UIO_WRITE;
     (result, ku, fs) \<leftarrow> sfs_io d_io p ku fs;
     case result of Inl e \<Rightarrow> Some (Inl e, fs) | Inr _ \<Rightarrow> do {
       kassert (uio_resid ku = 0);
       Some (Inr (), fs)
     }
   }"

definition sfs_dir_nentries :: "nat \<Rightarrow> 'd sfs_fs \<Rightarrow> nat option" where
  "sfs_dir_nentries p fs = do {
     sv \<leftarrow> sfs_node fs p;
     kassert (sfi_type (sv_i sv) = SFS_TYPE_DIR);
     let dsize = unat (sfi_size (sv_i sv));
     kassert (dsize mod sizeof_sfs_dir = 0);
     Some (dsize div sizeof_sfs_dir)
   }"

text \<open>The string held in a character array whose last element has been set to 0.\<close>

definition entry_name :: "sfs_dir \<Rightarrow> bytes" where
  "entry_name sd = takeWhile (\<lambda>c. c \<noteq> 0) ((sfd_name sd)[SFS_NAMELEN - 1 := 0])"

text \<open>
  The loop over the slots. \<open>found\<close> holds the slot and inode number of the entry with the
  name, \<open>eslot\<close> the free slot seen last; both stay as they were when there is none.
\<close>

fun findname_loop :: "'d dev_io \<Rightarrow> nat \<Rightarrow> bytes \<Rightarrow> nat \<Rightarrow> nat \<Rightarrow> (nat \<times> u32) option \<Rightarrow> nat option \<Rightarrow>
    'd sfs_fs \<Rightarrow> ((errno + (nat \<times> u32)) \<times> nat option \<times> 'd sfs_fs) option" where
  "findname_loop d_io p name i 0 found eslot fs =
     Some (case found of None \<Rightarrow> Inl ENOENT | Some f \<Rightarrow> Inr f, eslot, fs)"
| "findname_loop d_io p name i (Suc n) found eslot fs =
     (case sfs_readdir d_io p (int i) fs of
        None \<Rightarrow> None
      | Some (Inl e, fs) \<Rightarrow> Some (Inl e, eslot, fs)
      | Some (Inr tsd, fs) \<Rightarrow>
          if sfd_ino tsd = SFS_NOINO then findname_loop d_io p name (i + 1) n found (Some i) fs
          else if entry_name tsd = name
          then if found = None then findname_loop d_io p name (i + 1) n (Some (i, sfd_ino tsd)) eslot fs
               else None
          else findname_loop d_io p name (i + 1) n found eslot fs)"

definition sfs_dir_findname :: "'d dev_io \<Rightarrow> nat \<Rightarrow> bytes \<Rightarrow> 'd sfs_fs \<Rightarrow>
    ((errno + (nat \<times> u32)) \<times> nat option \<times> 'd sfs_fs) option" where
  "sfs_dir_findname d_io p name fs = do {
     nentries \<leftarrow> sfs_dir_nentries p fs;
     findname_loop d_io p name 0 nentries None None fs
   }"

definition new_entry :: "u32 \<Rightarrow> bytes \<Rightarrow> sfs_dir" where
  "new_entry ino name = \<lparr> sfd_ino = ino, sfd_name = patch 0 (name @ [0]) (replicate SFS_NAMELEN 0) \<rparr>"

text \<open>The value on success is \<^verbatim>\<open>*slot\<close>.\<close>

definition sfs_dir_link :: "'d dev_io \<Rightarrow> nat \<Rightarrow> bytes \<Rightarrow> u32 \<Rightarrow> 'd sfs_fs \<Rightarrow> ((errno + nat) \<times> 'd sfs_fs) option" where
  "sfs_dir_link d_io p name ino fs = do {
     (result, eslot, fs) \<leftarrow> sfs_dir_findname d_io p name fs;
     case result of
       Inr _ \<Rightarrow> Some (Inl EEXIST, fs)
     | Inl e \<Rightarrow>
         if e \<noteq> ENOENT then Some (Inl e, fs)
         else if length name + 1 > SFS_NAMELEN then Some (Inl ENAMETOOLONG, fs)
         else do {
           emptyslot \<leftarrow> (case eslot of None \<Rightarrow> sfs_dir_nentries p fs | Some i \<Rightarrow> Some i);
           and_then (sfs_writedir d_io p (new_entry ino name) (int emptyslot) fs)
             (\<lambda>_ fs. Some (Inr emptyslot, fs))
         }
   }"

definition sfs_dir_unlink :: "'d dev_io \<Rightarrow> nat \<Rightarrow> nat \<Rightarrow> 'd sfs_fs \<Rightarrow> ((errno + unit) \<times> 'd sfs_fs) option" where
  "sfs_dir_unlink d_io p slot fs =
     sfs_writedir d_io p \<lparr> sfd_ino = SFS_NOINO, sfd_name = replicate SFS_NAMELEN 0 \<rparr> (int slot) fs"

section \<open>Abstract vnodes (vnode.c)\<close>

definition vnode_init :: "(u32 \<Rightarrow> bool) \<Rightarrow> sfs_ops \<Rightarrow> sfs_vnode \<Rightarrow> errno + sfs_vnode" where
  "vnode_init kmalloc_ok vops v =
     (if kmalloc_ok 8 \<and> kmalloc_ok 16
      then Inr (v\<lparr> vn_ops := vops, vn_refcount := 1, vn_opencount := 0 \<rparr>)
      else Inl ENOMEM)"

text \<open>After \<^verbatim>\<open>vnode_kill\<close> every caller frees the object.\<close>

definition vnode_kill :: "nat \<Rightarrow> 'd sfs_fs \<Rightarrow> 'd sfs_fs option" where
  "vnode_kill p fs = do {
     v \<leftarrow> sfs_node fs p;
     kassert (vn_refcount v = 1);
     kassert (vn_opencount v = 0);
     Some (fs\<lparr> sfs_node := (sfs_node fs)(p := None) \<rparr>)
   }"

definition vnode_incref :: "nat \<Rightarrow> 'd sfs_fs \<Rightarrow> 'd sfs_fs option" where
  "vnode_incref p fs = do {
     v \<leftarrow> sfs_node fs p;
     n \<leftarrow> cint (vn_refcount v + 1);
     Some (upd_node p (\<lambda>v. v\<lparr> vn_refcount := n \<rparr>) fs)
   }"

text \<open>The checks made before every \<^verbatim>\<open>VOP_\<close> call; the counts are the part that can fail.\<close>

definition vnode_check :: "bool \<Rightarrow> sfs_vnode \<Rightarrow> unit option" where
  "vnode_check is_reclaim v = do {
     kassert (vn_refcount v \<ge> 0);
     kassert (vn_refcount v = 0 \<longrightarrow> is_reclaim);
     kassert (vn_opencount v \<ge> 0)
   }"

section \<open>Vnode operations\<close>

definition O_APPEND :: u32 where "O_APPEND = 32"
definition O_ACCMODE :: u32 where "O_ACCMODE = 3"
definition O_RDONLY :: u32 where "O_RDONLY = 0"

definition sfs_open :: "u32 \<Rightarrow> errno + unit" where
  "sfs_open openflags = (if openflags AND O_APPEND \<noteq> 0 then Inl EUNIMP else Inr ())"

definition sfs_opendir :: "u32 \<Rightarrow> errno + unit" where
  "sfs_opendir openflags =
     (if openflags AND O_ACCMODE \<noteq> O_RDONLY then Inl EISDIR
      else if openflags AND O_APPEND \<noteq> 0 then Inl EISDIR
      else Inr ())"

definition sfs_fsync :: "'d dev_io \<Rightarrow> nat \<Rightarrow> 'd sfs_fs \<Rightarrow> ((errno + unit) \<times> 'd sfs_fs) option" where
  "sfs_fsync d_io p fs = sfs_sync_inode d_io p fs"

definition VOP_FSYNC :: "'d dev_io \<Rightarrow> nat \<Rightarrow> 'd sfs_fs \<Rightarrow> ((errno + unit) \<times> 'd sfs_fs) option" where
  "VOP_FSYNC d_io p fs = do {
     v \<leftarrow> sfs_node fs p;
     vnode_check False v;
     sfs_fsync d_io p fs
   }"

definition sfs_close :: "'d dev_io \<Rightarrow> nat \<Rightarrow> 'd sfs_fs \<Rightarrow> ((errno + unit) \<times> 'd sfs_fs) option" where
  "sfs_close d_io p fs = VOP_FSYNC d_io p fs"

definition VOP_TRUNCATE :: "'d dev_io \<Rightarrow> nat \<Rightarrow> int \<Rightarrow> 'd sfs_fs \<Rightarrow> ((errno + unit) \<times> 'd sfs_fs) option" where
  "VOP_TRUNCATE d_io p len fs = do {
     v \<leftarrow> sfs_node fs p;
     vnode_check False v;
     case vn_ops v of
       Sfs_fileops \<Rightarrow> sfs_truncate d_io p len fs
     | Sfs_dirops \<Rightarrow> Some (Inl EISDIR, fs)
   }"

text \<open>The index of a vnode in the table of loaded vnodes.\<close>

function vnode_index :: "nat karray \<Rightarrow> nat \<Rightarrow> int \<Rightarrow> int option" where
  "vnode_index a p i =
     (if i < array_getnum a
      then do {
        q \<leftarrow> array_getguy a i;
        if q = p then Some i else vnode_index a p (i + 1)
      }
      else None)"
  by pat_completeness auto
termination
  by (relation "measure (\<lambda>(a, p, i). nat (array_getnum a - i))") auto

definition sfs_reclaim :: "'d dev_io \<Rightarrow> nat \<Rightarrow> 'd sfs_fs \<Rightarrow> ((errno + unit) \<times> 'd sfs_fs) option" where
  "sfs_reclaim d_io p fs = do {
     sv \<leftarrow> sfs_node fs p;
     if vn_refcount sv \<noteq> 1
     then do {
       kassert (vn_refcount sv > 1);
       Some (Inl EBUSY, upd_node p (\<lambda>v. v\<lparr> vn_refcount := vn_refcount v - 1 \<rparr>) fs)
     }
     else
       and_then (if sfi_linkcount (sv_i sv) = 0 then VOP_TRUNCATE d_io p 0 fs else Some (Inr (), fs)) (\<lambda>_ fs.
       and_then (sfs_sync_inode d_io p fs) (\<lambda>_ fs. do {
         sv \<leftarrow> sfs_node fs p;
         fs \<leftarrow> (if sfi_linkcount (sv_i sv) = 0 then sfs_bfree (unat (sv_ino sv)) fs else Some fs);
         ix \<leftarrow> vnode_index (sfs_vnodes fs) p 0;
         vnodes \<leftarrow> array_remove (sfs_vnodes fs) ix;
         fs \<leftarrow> vnode_kill p (fs\<lparr> sfs_vnodes := vnodes \<rparr>);
         Some (Inr (), fs)
       }))
   }"

text \<open>\<^verbatim>\<open>vnode_decref\<close>: the result of \<^verbatim>\<open>VOP_RECLAIM\<close> is only reported on the console.\<close>

definition vnode_decref :: "'d dev_io \<Rightarrow> nat \<Rightarrow> 'd sfs_fs \<Rightarrow> 'd sfs_fs option" where
  "vnode_decref d_io p fs = do {
     v \<leftarrow> sfs_node fs p;
     kassert (vn_refcount v > 0);
     if vn_refcount v > 1
     then Some (upd_node p (\<lambda>v. v\<lparr> vn_refcount := vn_refcount v - 1 \<rparr>) fs)
     else do {
       vnode_check True v;
       (result, fs) \<leftarrow> sfs_reclaim d_io p fs;
       Some fs
     }
   }"

definition vnode_incopen :: "nat \<Rightarrow> 'd sfs_fs \<Rightarrow> 'd sfs_fs option" where
  "vnode_incopen p fs = do {
     v \<leftarrow> sfs_node fs p;
     n \<leftarrow> cint (vn_opencount v + 1);
     Some (upd_node p (\<lambda>v. v\<lparr> vn_opencount := n \<rparr>) fs)
   }"

definition vnode_decopen :: "'d dev_io \<Rightarrow> nat \<Rightarrow> 'd sfs_fs \<Rightarrow> 'd sfs_fs option" where
  "vnode_decopen d_io p fs = do {
     v \<leftarrow> sfs_node fs p;
     kassert (vn_opencount v > 0);
     let fs = upd_node p (\<lambda>v. v\<lparr> vn_opencount := vn_opencount v - 1 \<rparr>) fs;
     if vn_opencount v - 1 > 0 then Some fs
     else do {
       v \<leftarrow> sfs_node fs p;
       vnode_check False v;
       (result, fs) \<leftarrow> sfs_close d_io p fs;
       Some fs
     }
   }"

definition sfs_read :: "'d dev_io \<Rightarrow> nat \<Rightarrow> uio \<Rightarrow> 'd sfs_fs \<Rightarrow> ((errno + unit) \<times> uio \<times> 'd sfs_fs) option" where
  "sfs_read d_io p u fs = do { kassert (uio_rw u = UIO_READ); sfs_io d_io p u fs }"

definition sfs_write :: "'d dev_io \<Rightarrow> nat \<Rightarrow> uio \<Rightarrow> 'd sfs_fs \<Rightarrow> ((errno + unit) \<times> uio \<times> 'd sfs_fs) option" where
  "sfs_write d_io p u fs = do { kassert (uio_rw u = UIO_WRITE); sfs_io d_io p u fs }"

definition sfs_gettype :: "sfs_vnode \<Rightarrow> u32 option" where
  "sfs_gettype sv =
     (if sfi_type (sv_i sv) = SFS_TYPE_FILE then Some 0x1000
      else if sfi_type (sv_i sv) = SFS_TYPE_DIR then Some 0x2000
      else None)"

text \<open>\<^verbatim>\<open>struct stat\<close> as \<^verbatim>\<open>sfs_stat\<close> fills it: mode, links, size, blocks.\<close>

record stat =
  st_mode :: u32
  st_nlink :: u32
  st_size :: int
  st_blocks :: u32

definition sfs_stat :: "nat \<Rightarrow> 'd sfs_fs \<Rightarrow> stat option" where
  "sfs_stat p fs = do {
     sv \<leftarrow> sfs_node fs p;
     vnode_check False sv;
     mode \<leftarrow> sfs_gettype sv;
     Some \<lparr> st_mode = mode, st_nlink = 0, st_size = off32 (int (unat (sfi_size (sv_i sv)))), st_blocks = 0 \<rparr>
   }"

definition sfs_tryseek :: "int \<Rightarrow> errno + unit" where
  "sfs_tryseek pos = (if pos < 0 then Inl EINVAL else Inr ())"

section \<open>Loading vnodes\<close>

text \<open>The linear search; every vnode passed over must be in an allocated block.\<close>

function find_loaded :: "'d sfs_fs \<Rightarrow> u32 \<Rightarrow> int \<Rightarrow> nat option option" where
  "find_loaded fs ino i =
     (if i < array_getnum (sfs_vnodes fs)
      then do {
        p \<leftarrow> array_getguy (sfs_vnodes fs) i;
        sv \<leftarrow> sfs_node fs p;
        used \<leftarrow> sfs_bused (unat (sv_ino sv)) fs;
        kassert used;
        if sv_ino sv = ino then Some (Some p) else find_loaded fs ino (i + 1)
      }
      else Some None)"
  by pat_completeness auto
termination
  by (relation "measure (\<lambda>(fs, ino, i). nat (array_getnum (sfs_vnodes fs) - i))") auto

text \<open>The function table for an inode type; other types panic.\<close>

definition ops_of_type :: "u16 \<Rightarrow> sfs_ops option" where
  "ops_of_type t = (if t = SFS_TYPE_FILE then Some Sfs_fileops
     else if t = SFS_TYPE_DIR then Some Sfs_dirops else None)"

text \<open>From \<^verbatim>\<open>kmalloc\<close> on: read the inode and enter a new vnode in the table.\<close>

definition load_new :: "'d dev_io \<Rightarrow> (u32 \<Rightarrow> bool) \<Rightarrow> u32 \<Rightarrow> u16 \<Rightarrow> 'd sfs_fs \<Rightarrow>
    ((errno + nat) \<times> 'd sfs_fs) option" where
  "load_new d_io kmalloc_ok ino forcetype fs =
     (if \<not> kmalloc_ok 544 then Some (Inl ENOMEM, fs)
      else do {
        used \<leftarrow> sfs_bused (unat ino) fs;
        kassert used;
        and_then (sfs_rblock d_io (unat ino) fs) (\<lambda>buf fs. do {
          let inode = inode_of buf;
          kassert (forcetype \<noteq> SFS_TYPE_INVAL \<longrightarrow> sfi_type inode = SFS_TYPE_INVAL);
          let inode = (if forcetype \<noteq> SFS_TYPE_INVAL then inode\<lparr> sfi_type := forcetype \<rparr> else inode);
          vops \<leftarrow> ops_of_type (sfi_type inode);
          let p = sfs_nextptr fs;
          case vnode_init kmalloc_ok vops \<lparr> vn_refcount = 0, vn_opencount = 0, vn_ops = vops,
                 sv_i = inode, sv_ino = ino, sv_dirty = (forcetype \<noteq> SFS_TYPE_INVAL) \<rparr> of
            Inl e \<Rightarrow> Some (Inl e, fs)
          | Inr sv \<Rightarrow> do {
              (result, vnodes) \<leftarrow> array_add kmalloc_ok (sfs_vnodes fs) p;
              case result of
                Inl e \<Rightarrow> Some (Inl e, fs\<lparr> sfs_vnodes := vnodes \<rparr>)
              | Inr _ \<Rightarrow> Some (Inr p, fs\<lparr> sfs_vnodes := vnodes,
                           sfs_node := (sfs_node fs)(p \<mapsto> sv), sfs_nextptr := p + 1 \<rparr>)
            }
        })
      })"

definition sfs_loadvnode :: "'d dev_io \<Rightarrow> (u32 \<Rightarrow> bool) \<Rightarrow> u32 \<Rightarrow> u16 \<Rightarrow> 'd sfs_fs \<Rightarrow>
    ((errno + nat) \<times> 'd sfs_fs) option" where
  "sfs_loadvnode d_io kmalloc_ok ino forcetype fs = do {
     hit \<leftarrow> find_loaded fs ino 0;
     case hit of
       Some p \<Rightarrow> do {
         kassert (forcetype = SFS_TYPE_INVAL);
         fs \<leftarrow> vnode_incref p fs;
         Some (Inr p, fs)
       }
     | None \<Rightarrow> load_new d_io kmalloc_ok ino forcetype fs
   }"

definition sfs_getroot :: "'d dev_io \<Rightarrow> (u32 \<Rightarrow> bool) \<Rightarrow> 'd sfs_fs \<Rightarrow> (nat \<times> 'd sfs_fs) option" where
  "sfs_getroot d_io kmalloc_ok fs = do {
     (result, fs) \<leftarrow> sfs_loadvnode d_io kmalloc_ok (word_of_nat SFS_ROOT_LOCATION) SFS_TYPE_INVAL fs;
     case result of Inl e \<Rightarrow> None | Inr p \<Rightarrow> Some (p, fs)
   }"

text \<open>The value on success is the vnode and \<^verbatim>\<open>*slot\<close>.\<close>

definition sfs_lookonce :: "'d dev_io \<Rightarrow> (u32 \<Rightarrow> bool) \<Rightarrow> nat \<Rightarrow> bytes \<Rightarrow> 'd sfs_fs \<Rightarrow>
    ((errno + (nat \<times> nat)) \<times> 'd sfs_fs) option" where
  "sfs_lookonce d_io kmalloc_ok p name fs = do {
     (result, _, fs) \<leftarrow> sfs_dir_findname d_io p name fs;
     case result of
       Inl e \<Rightarrow> Some (Inl e, fs)
     | Inr (slot, ino) \<Rightarrow>
         and_then (sfs_loadvnode d_io kmalloc_ok ino SFS_TYPE_INVAL fs) (\<lambda>q fs. do {
           sv \<leftarrow> sfs_node fs q;
           kassert (sfi_linkcount (sv_i sv) \<noteq> 0);
           Some (Inr (q, slot), fs)
         })
   }"

definition sfs_makeobj :: "'d dev_io \<Rightarrow> (u32 \<Rightarrow> bool) \<Rightarrow> u16 \<Rightarrow> 'd sfs_fs \<Rightarrow>
    ((errno + nat) \<times> 'd sfs_fs) option" where
  "sfs_makeobj d_io kmalloc_ok otype fs =
     and_then (sfs_balloc d_io fs) (\<lambda>ino fs. sfs_loadvnode d_io kmalloc_ok (word_of_nat ino) otype fs)"

section \<open>Operations on directories\<close>

definition sfs_creat :: "'d dev_io \<Rightarrow> (u32 \<Rightarrow> bool) \<Rightarrow> nat \<Rightarrow> bytes \<Rightarrow> bool \<Rightarrow> 'd sfs_fs \<Rightarrow>
    ((errno + nat) \<times> 'd sfs_fs) option" where
  "sfs_creat d_io kmalloc_ok p name excl fs = do {
     (result, _, fs) \<leftarrow> sfs_dir_findname d_io p name fs;
     case result of
       Inr (slot, ino) \<Rightarrow>
         if excl then Some (Inl EEXIST, fs)
         else sfs_loadvnode d_io kmalloc_ok ino SFS_TYPE_INVAL fs
     | Inl e \<Rightarrow>
         if e \<noteq> ENOENT then Some (Inl e, fs)
         else and_then (sfs_makeobj d_io kmalloc_ok SFS_TYPE_FILE fs) (\<lambda>newguy fs. do {
           sv \<leftarrow> sfs_node fs newguy;
           (result, fs) \<leftarrow> sfs_dir_link d_io p name (sv_ino sv) fs;
           case result of
             Inl e \<Rightarrow> do { fs \<leftarrow> vnode_decref d_io newguy fs; Some (Inl e, fs) }
           | Inr _ \<Rightarrow>
               Some (Inr newguy, upd_inode newguy (\<lambda>i. i\<lparr> sfi_linkcount := sfi_linkcount i + 1 \<rparr>) fs)
         })
   }"

definition sfs_link :: "'d dev_io \<Rightarrow> nat \<Rightarrow> bytes \<Rightarrow> nat \<Rightarrow> 'd sfs_fs \<Rightarrow> ((errno + unit) \<times> 'd sfs_fs) option" where
  "sfs_link d_io p name q fs = do {
     f \<leftarrow> sfs_node fs q;
     and_then (sfs_dir_link d_io p name (sv_ino f) fs) (\<lambda>_ fs.
       Some (Inr (), upd_inode q (\<lambda>i. i\<lparr> sfi_linkcount := sfi_linkcount i + 1 \<rparr>) fs))
   }"

definition sfs_remove :: "'d dev_io \<Rightarrow> (u32 \<Rightarrow> bool) \<Rightarrow> nat \<Rightarrow> bytes \<Rightarrow> 'd sfs_fs \<Rightarrow>
    ((errno + unit) \<times> 'd sfs_fs) option" where
  "sfs_remove d_io kmalloc_ok p name fs =
     and_then (sfs_lookonce d_io kmalloc_ok p name fs) (\<lambda>(victim, slot) fs. do {
       (result, fs) \<leftarrow> sfs_dir_unlink d_io p slot fs;
       fs \<leftarrow> (if result = Inr ()
              then do {
                sv \<leftarrow> sfs_node fs victim;
                kassert (sfi_linkcount (sv_i sv) > 0);
                Some (upd_inode victim (\<lambda>i. i\<lparr> sfi_linkcount := sfi_linkcount i - 1 \<rparr>) fs)
              }
              else Some fs);
       fs \<leftarrow> vnode_decref d_io victim fs;
       Some (result, fs)
     })"

text \<open>Both directories are the root; the labels \<^verbatim>\<open>puke_harder\<close> and \<^verbatim>\<open>puke\<close> are the error branches.\<close>

definition sfs_rename :: "'d dev_io \<Rightarrow> (u32 \<Rightarrow> bool) \<Rightarrow> nat \<Rightarrow> bytes \<Rightarrow> nat \<Rightarrow> bytes \<Rightarrow> 'd sfs_fs \<Rightarrow>
    ((errno + unit) \<times> 'd sfs_fs) option" where
  "sfs_rename d_io kmalloc_ok d1 n1 d2 n2 fs = do {
     kassert (d1 = d2);
     sv \<leftarrow> sfs_node fs d1;
     kassert (unat (sv_ino sv) = SFS_ROOT_LOCATION);
     and_then (sfs_lookonce d_io kmalloc_ok d1 n1 fs) (\<lambda>(g1, slot1) fs. do {
       g \<leftarrow> sfs_node fs g1;
       kassert (sfi_type (sv_i g) = SFS_TYPE_FILE);
       (result, fs) \<leftarrow> sfs_dir_link d_io d1 n2 (sv_ino g) fs;
       case result of
         Inl e \<Rightarrow> do { fs \<leftarrow> vnode_decref d_io g1 fs; Some (Inl e, fs) }
       | Inr slot2 \<Rightarrow> do {
           let fs = upd_inode g1 (\<lambda>i. i\<lparr> sfi_linkcount := sfi_linkcount i + 1 \<rparr>) fs;
           (result, fs) \<leftarrow> sfs_dir_unlink d_io d1 slot1 fs;
           case result of
             Inl e \<Rightarrow> do {
               (result2, fs) \<leftarrow> sfs_dir_unlink d_io d1 slot2 fs;
               kassert (result2 = Inr ());
               let fs = upd_node g1 (\<lambda>v. v\<lparr> sv_i := (sv_i v)\<lparr> sfi_linkcount := sfi_linkcount (sv_i v) - 1 \<rparr> \<rparr>) fs;
               fs \<leftarrow> vnode_decref d_io g1 fs;
               Some (Inl e, fs)
             }
           | Inr _ \<Rightarrow> do {
               g \<leftarrow> sfs_node fs g1;
               kassert (sfi_linkcount (sv_i g) > 0);
               fs \<leftarrow> vnode_decref d_io g1
                 (upd_inode g1 (\<lambda>i. i\<lparr> sfi_linkcount := sfi_linkcount i - 1 \<rparr>) fs);
               Some (Inr (), fs)
             }
         }
     })
   }"

text \<open>The value on success is the copy of the path.\<close>

definition sfs_lookparent :: "nat \<Rightarrow> bytes \<Rightarrow> nat \<Rightarrow> 'd sfs_fs \<Rightarrow> ((errno + bytes) \<times> 'd sfs_fs) option" where
  "sfs_lookparent p path buflen fs = do {
     sv \<leftarrow> sfs_node fs p;
     if sfi_type (sv_i sv) \<noteq> SFS_TYPE_DIR then Some (Inl ENOTDIR, fs)
     else if length path + 1 > buflen then Some (Inl ENAMETOOLONG, fs)
     else do { fs \<leftarrow> vnode_incref p fs; Some (Inr path, fs) }
   }"

definition sfs_lookup :: "'d dev_io \<Rightarrow> (u32 \<Rightarrow> bool) \<Rightarrow> nat \<Rightarrow> bytes \<Rightarrow> 'd sfs_fs \<Rightarrow>
    ((errno + nat) \<times> 'd sfs_fs) option" where
  "sfs_lookup d_io kmalloc_ok p path fs = do {
     sv \<leftarrow> sfs_node fs p;
     if sfi_type (sv_i sv) \<noteq> SFS_TYPE_DIR then Some (Inl ENOTDIR, fs)
     else and_then (sfs_lookonce d_io kmalloc_ok p path fs) (\<lambda>(final, slot) fs. Some (Inr final, fs))
   }"

definition sfs_namefile :: "nat \<Rightarrow> 'd sfs_fs \<Rightarrow> (errno + bytes) option" where
  "sfs_namefile p fs = do {
     sv \<leftarrow> sfs_node fs p;
     kassert (unat (sv_ino sv) = SFS_ROOT_LOCATION);
     Some (Inr [])
   }"

section \<open>The file system as a whole (sfs\_fs.c)\<close>

text \<open>Reading or writing the sectors of the free block bitmap from \<open>j\<close> on.\<close>

fun sfs_mapio_from :: "'d dev_io \<Rightarrow> uio_rw \<Rightarrow> nat \<Rightarrow> nat \<Rightarrow> 'd sfs_fs \<Rightarrow> ((errno + unit) \<times> 'd sfs_fs) option" where
  "sfs_mapio_from d_io rw j 0 fs = Some (Inr (), fs)"
| "sfs_mapio_from d_io rw j (Suc n) fs = (
     let bitdata = bitmap_getdata (sfs_freemap fs); pos = j * SFS_BLOCKSIZE in
     if length bitdata < pos + SFS_BLOCKSIZE then None
     else case
       (case rw of
          UIO_READ \<Rightarrow> and_then (sfs_rblock d_io (SFS_MAP_LOCATION + j) fs) (\<lambda>buf fs.
            Some (Inr (), fs\<lparr> sfs_freemap := (sfs_freemap fs)\<lparr> bm_v := patch pos buf bitdata \<rparr> \<rparr>))
        | UIO_WRITE \<Rightarrow> sfs_wblock d_io (take SFS_BLOCKSIZE (drop pos bitdata)) (SFS_MAP_LOCATION + j) fs)
     of None \<Rightarrow> None
      | Some (Inl e, fs) \<Rightarrow> Some (Inl e, fs)
      | Some (Inr _, fs) \<Rightarrow> sfs_mapio_from d_io rw (j + 1) n fs)"

definition sfs_mapio :: "'d dev_io \<Rightarrow> uio_rw \<Rightarrow> 'd sfs_fs \<Rightarrow> ((errno + unit) \<times> 'd sfs_fs) option" where
  "sfs_mapio d_io rw fs =
     sfs_mapio_from d_io rw 0 (SFS_BITBLOCKS (unat (sp_nblocks (sfs_super fs)))) fs"

text \<open>The loop over the loaded vnodes; the results of \<^verbatim>\<open>VOP_FSYNC\<close> are not looked at.\<close>

fun sync_vnodes :: "'d dev_io \<Rightarrow> nat \<Rightarrow> nat \<Rightarrow> 'd sfs_fs \<Rightarrow> 'd sfs_fs option" where
  "sync_vnodes d_io i 0 fs = Some fs"
| "sync_vnodes d_io i (Suc n) fs = do {
     p \<leftarrow> array_getguy (sfs_vnodes fs) (int i);
     (result, fs) \<leftarrow> VOP_FSYNC d_io p fs;
     sync_vnodes d_io (i + 1) n fs
   }"

definition sfs_sync :: "'d dev_io \<Rightarrow> 'd sfs_fs \<Rightarrow> ((errno + unit) \<times> 'd sfs_fs) option" where
  "sfs_sync d_io fs = do {
     fs \<leftarrow> sync_vnodes d_io 0 (nat (array_getnum (sfs_vnodes fs))) fs;
     and_then
       (if sfs_freemapdirty fs
        then and_then (sfs_mapio d_io UIO_WRITE fs) (\<lambda>_ fs. Some (Inr (), fs\<lparr> sfs_freemapdirty := False \<rparr>))
        else Some (Inr (), fs)) (\<lambda>_ fs.
       if sfs_superdirty fs
       then and_then (sfs_wblock d_io (super_bytes (sfs_super fs)) SFS_SB_LOCATION fs)
              (\<lambda>_ fs. Some (Inr (), fs\<lparr> sfs_superdirty := False \<rparr>))
       else Some (Inr (), fs))
   }"

definition sfs_getvolname :: "'d sfs_fs \<Rightarrow> bytes" where
  "sfs_getvolname fs = takeWhile (\<lambda>c. c \<noteq> 0) (sp_volname (sfs_super fs))"

text \<open>On success the file system object is gone.\<close>

definition sfs_unmount :: "'d sfs_fs \<Rightarrow> (errno + unit) option" where
  "sfs_unmount fs =
     (if array_getnum (sfs_vnodes fs) > 0 then Some (Inl EBUSY)
      else do {
        kassert (\<not> sfs_superdirty fs);
        kassert (\<not> sfs_freemapdirty fs);
        Some (Inr ())
      })"

text \<open>
  Mounting. \<open>d_blocksize\<close> is the sector size of the device; its state comes back with the
  result, which is the new file system on success.
\<close>

definition sfs_domount :: "'d dev_io \<Rightarrow> (u32 \<Rightarrow> bool) \<Rightarrow> nat \<Rightarrow> 'd \<Rightarrow> ((errno + 'd sfs_fs) \<times> 'd) option" where
  "sfs_domount d_io kmalloc_ok d_blocksize dev =
     (if d_blocksize \<noteq> SFS_BLOCKSIZE then Some (Inl ENXIO, dev)
      else if \<not> kmalloc_ok 552 then Some (Inl ENOMEM, dev)
      else case array_create kmalloc_ok of
        None \<Rightarrow> Some (Inl ENOMEM, dev)
      | Some vnodes \<Rightarrow> do {
          let sfs = \<lparr> sfs_super = super_of (replicate SFS_BLOCKSIZE 0), sfs_superdirty = False,
                 sfs_device = dev, sfs_vnodes = vnodes, sfs_freemap = \<lparr> bm_nbits = 0, bm_v = [] \<rparr>,
                 sfs_freemapdirty = False, sfs_node = (\<lambda>_. None), sfs_nextptr = 0 \<rparr>;
          (result, sfs) \<leftarrow> sfs_rblock d_io SFS_SB_LOCATION sfs;
          case result of Inl e \<Rightarrow> Some (Inl e, sfs_device sfs) | Inr buf \<Rightarrow> (
            let sp = super_of buf in
            if sp_magic sp \<noteq> SFS_MAGIC then Some (Inl EINVAL, sfs_device sfs)
            else do {
              let sp = sp\<lparr> sp_volname := (sp_volname sp)[31 := 0] \<rparr>;
              bm \<leftarrow> bitmap_create kmalloc_ok (SFS_BITMAPSIZE (unat (sp_nblocks sp)));
              case bm of
                Create_nomem \<Rightarrow> Some (Inl ENOMEM, sfs_device sfs)
              | Created freemap \<Rightarrow> do {
                  (result, sfs) \<leftarrow>
                    sfs_mapio d_io UIO_READ (sfs\<lparr> sfs_super := sp, sfs_freemap := freemap \<rparr>);
                  case result of
                    Inl e \<Rightarrow> Some (Inl e, sfs_device sfs)
                  | Inr _ \<Rightarrow> Some (Inr sfs, sfs_device sfs)
                }
            })
        })"

declare vnode_index.simps [simp del] find_loaded.simps [simp del]

end
