(* ===== verification/Sfs_File_Props.thy ===== *)
theory Sfs_File_Props
  imports Sfs_File
begin

text \<open>
  Files as sequences of bytes. The abstraction of an inode is the function \<open>fbyte\<close> from
  positions to bytes, with 0 in holes. The theory shows, for every device that keeps the contract
  \<open>block_device\<close>, that block mapping, reading and writing implement the obvious
  operations on that function, never touch a block of another file, and keep the pointers of the
  inode distinct and marked in use.
\<close>

section \<open>The abstraction\<close>

definition nblocks_of :: "'d sfs_fs \<Rightarrow> nat" where
  "nblocks_of fs = unat (sp_nblocks (sfs_super fs))"

definition busy :: "'d sfs_fs \<Rightarrow> nat set" where
  "busy fs = {b. b < nblocks_of fs \<and> b \<in> bitmap_used (sfs_freemap fs)}"

text \<open>The disk block that holds block \<open>n\<close> of a file, 0 if there is none.\<close>

definition imap :: "(nat \<Rightarrow> bytes) \<Rightarrow> sfs_inode \<Rightarrow> nat \<Rightarrow> nat" where
  "imap D i n =
     (if n < 15 then unat (sfi_direct i ! n)
      else if n < 143 \<and> sfi_indirect i \<noteq> 0
      then unat (de32s 128 (D (unat (sfi_indirect i))) ! (n - 15))
      else 0)"

definition own :: "(nat \<Rightarrow> bytes) \<Rightarrow> sfs_inode \<Rightarrow> nat set" where
  "own D i = insert (unat (sfi_indirect i)) (imap D i ` {n. n < 143}) - {0}"

definition zero_block :: bytes where
  "zero_block = replicate SFS_BLOCKSIZE 0"

lemma zero_block_simps [simp]:
  "length zero_block = 512" "i < 512 \<Longrightarrow> zero_block ! i = 0"
  by (simp_all add: zero_block_def SFS_BLOCKSIZE_def)

definition fblock :: "(nat \<Rightarrow> bytes) \<Rightarrow> sfs_inode \<Rightarrow> nat \<Rightarrow> bytes" where
  "fblock D i n = (if imap D i n = 0 then zero_block else D (imap D i n))"

definition fbyte :: "(nat \<Rightarrow> bytes) \<Rightarrow> sfs_inode \<Rightarrow> nat \<Rightarrow> u8" where
  "fbyte D i k = fblock D i (k div 512) ! (k mod 512)"

definition inode_ok :: "(nat \<Rightarrow> bytes) \<Rightarrow> sfs_inode \<Rightarrow> bool" where
  "inode_ok D i \<longleftrightarrow> inode_sized i \<and>
     (\<forall>m<143. \<forall>n<143. imap D i m = imap D i n \<and> imap D i m \<noteq> 0 \<longrightarrow> m = n) \<and>
     (\<forall>n<143. imap D i n = unat (sfi_indirect i) \<longrightarrow> imap D i n = 0)"

text \<open>Overwriting a stretch of a file.\<close>

definition fwrite :: "nat \<Rightarrow> bytes \<Rightarrow> (nat \<Rightarrow> u8) \<Rightarrow> nat \<Rightarrow> u8" where
  "fwrite pos xs c = (\<lambda>k. if pos \<le> k \<and> k < pos + length xs then xs ! (k - pos) else c k)"

lemma fwrite_Nil [simp]: "fwrite pos [] c = c"
  by (rule ext) (auto simp: fwrite_def)

lemma fwrite_append: "fwrite (pos + length xs) ys (fwrite pos xs c) = fwrite pos (xs @ ys) c"
  by (rule ext) (auto simp: fwrite_def nth_append)

lemma imap_beyond: "143 \<le> n \<Longrightarrow> imap D i n = 0"
  by (simp add: imap_def)

lemma imap_own: "imap D i n \<noteq> 0 \<Longrightarrow> imap D i n \<in> own D i"
  by (cases "n < 143") (auto simp: own_def imap_beyond)

lemma indirect_own: "sfi_indirect i \<noteq> 0 \<Longrightarrow> unat (sfi_indirect i) \<in> own D i"
  by (simp add: own_def unat_eq_0)

lemma imap_cong:
  assumes "sfi_indirect i \<noteq> 0 \<Longrightarrow> D' (unat (sfi_indirect i)) = D (unat (sfi_indirect i))"
  shows "imap D' i = imap D i"
  using assms by (auto simp: imap_def fun_eq_iff)

lemma own_cong: "imap D' i = imap D i \<Longrightarrow> own D' i = own D i"
  by (simp add: own_def)

lemma inode_ok_cong: "imap D' i = imap D i \<Longrightarrow> inode_ok D' i = inode_ok D i"
  by (simp add: inode_ok_def)

text \<open>Writing one data block of a file changes that block of the file and nothing else.\<close>

lemma data_block_update:
  assumes "inode_ok D i" "n < 143" "imap D i n = b" "b \<noteq> 0"
  shows "imap (D(b := xs)) i = imap D i" "fblock (D(b := xs)) i = (fblock D i)(n := xs)"
proof -
  have "unat (sfi_indirect i) \<noteq> b" using assms by (auto simp: inode_ok_def)
  then show m: "imap (D(b := xs)) i = imap D i" by (intro imap_cong) simp
  have uniq: "imap D i k \<noteq> b" if "k \<noteq> n" for k
    using assms imap_beyond [of k D i] that by (cases "k < 143") (auto simp: inode_ok_def)
  show "fblock (D(b := xs)) i = (fblock D i)(n := xs)"
  proof
    fix k
    show "fblock (D(b := xs)) i k = ((fblock D i)(n := xs)) k"
      using assms(3,4) uniq [of k] by (cases "k = n") (simp_all add: fblock_def m)
  qed
qed

lemma image_fill:
  fixes f :: "'a \<Rightarrow> nat"
  assumes "n \<in> A" "f n = 0" "b \<noteq> 0"
  shows "f(n := b) ` A - {0} = insert b (f ` A - {0})"
  using assms by (auto simp: image_iff)

text \<open>Giving a hole of a file a fresh block that holds zeros changes no byte of the file.\<close>

lemma add_block:
  assumes "inode_ok D i" "n < 143" "imap D i n = 0" "b \<noteq> 0" "b \<notin> own D i"
    "imap D' i' = (imap D i)(n := b)" "sfi_indirect i' = sfi_indirect i" "inode_sized i'"
    "D' b = zero_block" "\<forall>c. c \<noteq> b \<and> c \<noteq> unat (sfi_indirect i) \<longrightarrow> D' c = D c"
  shows "inode_ok D' i'" "own D' i' = insert b (own D i)" "fblock D' i' = fblock D i"
proof -
  have fresh: "imap D i k \<noteq> b" for k using imap_own [of D i k] assms(4,5) by metis
  have ind: "unat (sfi_indirect i) \<noteq> b"
    using assms(4,5) by (auto simp: own_def)
  show "inode_ok D' i'"
    using assms(1,2,6,7,8) fresh ind unfolding inode_ok_def by (simp add: fresh [symmetric])
  have "n \<in> {n. n < 143}" using assms(2) by simp
  then have "imap D' i' ` {n. n < 143} - {0} = insert b (imap D i ` {n. n < 143} - {0})"
    unfolding assms(6) using assms(3,4) by (rule image_fill)
  then show "own D' i' = insert b (own D i)" using assms(4) unfolding own_def assms(7) by blast
  show "fblock D' i' = fblock D i"
  proof
    fix k
    have "imap D i k \<noteq> 0 \<Longrightarrow> imap D i k \<noteq> unat (sfi_indirect i)"
      using assms(1) imap_beyond [of k D i] by (cases "k < 143") (auto simp: inode_ok_def)
    then have "imap D i k \<noteq> 0 \<Longrightarrow> D' (imap D i k) = D (imap D i k)" using assms(10) fresh by blast
    then show "fblock D' i' k = fblock D i k"
      using assms(3,4,9) by (cases "k = n") (simp_all add: fblock_def assms(6))
  qed
qed

lemma add_direct:
  assumes "inode_ok D i" "n < 15" "sfi_direct i ! n = 0" "b \<noteq> 0" "b \<notin> own D i" "b < 2 ^ 32"
  defines "i' \<equiv> i\<lparr> sfi_direct := (sfi_direct i)[n := word_of_nat b] \<rparr>"
  defines "D' \<equiv> D(b := zero_block)"
  shows "imap D' i' n = b" "inode_ok D' i'" "own D' i' = insert b (own D i)" "fblock D' i' = fblock D i"
proof -
  have len: "length (sfi_direct i) = 15" using assms(1) by (simp add: inode_ok_def inode_sized_def)
  have "sfi_indirect i \<noteq> 0 \<Longrightarrow> unat (sfi_indirect i) \<noteq> b" using assms(5) indirect_own [of i D] by auto
  then have D': "sfi_indirect i \<noteq> 0 \<Longrightarrow> D' (unat (sfi_indirect i)) = D (unat (sfi_indirect i))"
    by (simp add: D'_def)
  have m: "imap D' i' = (imap D i)(n := b)"
  proof
    fix k
    show "imap D' i' k = ((imap D i)(n := b)) k"
      using assms(2) len D' unat_of_nat_small [OF assms(6)]
      by (cases "k = n") (simp_all add: imap_def i'_def nth_list_update)
  qed
  then show "imap D' i' n = b" by simp
  have hole: "imap D i n = 0" using assms(2,3) by (simp add: imap_def)
  have other: "sfi_indirect i' = sfi_indirect i" "inode_sized i'" "D' b = zero_block"
    "\<forall>c. c \<noteq> b \<and> c \<noteq> unat (sfi_indirect i) \<longrightarrow> D' c = D c"
    using assms(1) by (simp_all add: i'_def D'_def inode_ok_def inode_sized_def)
  note add = add_block [OF assms(1) _ hole assms(4,5) m other]
  show "inode_ok D' i'" "own D' i' = insert b (own D i)" "fblock D' i' = fblock D i"
    using add assms(2) by simp_all
qed

lemma add_entry:
  assumes "inode_ok D i" "15 \<le> n" "n < 143" "imap D i n = 0" "b \<noteq> 0" "b \<notin> own D i" "b < 2 ^ 32"
    "sfi_indirect i \<noteq> 0"
  defines "ib \<equiv> unat (sfi_indirect i)"
  defines "D' \<equiv> D(b := zero_block, ib := be32s ((de32s 128 (D ib))[n - 15 := word_of_nat b]))"
  shows "imap D' i n = b" "inode_ok D' i" "own D' i = insert b (own D i)" "fblock D' i = fblock D i"
proof -
  have ib: "ib \<noteq> b" using assms(6) indirect_own [OF assms(8), of D] by (auto simp: ib_def)
  have e: "de32s 128 (D' ib) = (de32s 128 (D ib))[n - 15 := word_of_nat b]"
    by (simp add: D'_def de32s_nil)
  have m: "imap D' i = (imap D i)(n := b)"
  proof
    fix k
    have "(k - 15 = n - 15) = (k = n)" if "15 \<le> k" using that assms(2) by auto
    then show "imap D' i k = ((imap D i)(n := b)) k"
      using assms(2,3,8) e unat_of_nat_small [OF assms(7)]
      by (auto simp: imap_def ib_def [symmetric] nth_list_update)
  qed
  then show "imap D' i n = b" by simp
  have other: "inode_sized i" "D' b = zero_block"
    "\<forall>c. c \<noteq> b \<and> c \<noteq> unat (sfi_indirect i) \<longrightarrow> D' c = D c"
    using assms(1) ib by (simp_all add: D'_def ib_def [symmetric] inode_ok_def)
  show "inode_ok D' i" "own D' i = insert b (own D i)" "fblock D' i = fblock D i"
    using add_block [OF assms(1,3,4,5,6) m refl other] by simp_all
qed

lemma add_indirect:
  assumes "inode_ok D i" "sfi_indirect i = 0" "b \<noteq> 0" "b \<notin> own D i" "b < 2 ^ 32"
  defines "i' \<equiv> i\<lparr> sfi_indirect := word_of_nat b \<rparr>"
  defines "D' \<equiv> D(b := zero_block)"
  shows "imap D' i' = imap D i" "inode_ok D' i'" "own D' i' = insert b (own D i)"
    "fblock D' i' = fblock D i"
proof -
  have ub: "unat (word_of_nat b :: u32) = b" using assms(5) by (rule unat_of_nat_small)
  have fresh: "imap D i k \<noteq> b" for k using imap_own [of D i k] assms(3,4) by metis
  have z: "de32s 128 zero_block ! j = 0" if "j < 128" for j
    using that by (simp add: zero_block_def SFS_BLOCKSIZE_def de32s_zeros)
  show m: "imap D' i' = imap D i"
    using assms(2) z by (auto simp: imap_def i'_def D'_def ub fun_eq_iff)
  show "inode_ok D' i'"
    using assms(1) fresh unfolding inode_ok_def m by (auto simp: i'_def ub inode_sized_def)
  show "own D' i' = insert b (own D i)"
    using assms(2,3) unfolding own_def m by (auto simp: i'_def ub)
  show "fblock D' i' = fblock D i"
    using fresh unfolding fblock_def m by (simp add: D'_def fun_eq_iff)
qed

lemma fblock_fbyte:
  assumes "fblock D' i' = (fblock D i)(n := patch s xs (fblock D i n))"
    "s + length xs \<le> 512" "length (fblock D i n) = 512"
  shows "fbyte D' i' = fwrite (512 * n + s) xs (fbyte D i)"
proof
  fix k
  show "fbyte D' i' k = fwrite (512 * n + s) xs (fbyte D i) k"
  proof (cases "k div 512 = n")
    case True
    then have k: "k = 512 * n + k mod 512" "k mod 512 < 512" by auto
    define r where "r = k mod 512"
    have "patch s xs (fblock D i n) ! r
        = (if s \<le> r \<and> r < s + length xs then xs ! (r - s) else fblock D i n ! r)"
      using assms(2,3) k(2) by (auto simp: patch_def nth_append r_def)
    then show ?thesis
      using True k unfolding fbyte_def fwrite_def assms(1) r_def [symmetric] by auto
  next
    case False
    have "\<not> (512 * n + s \<le> k \<and> k < 512 * n + s + length xs)"
    proof
      assume "512 * n + s \<le> k \<and> k < 512 * n + s + length xs"
      then have "512 * n \<le> k" "k < 512 * n + 512" using assms(2) by auto
      then have "k div 512 = n" by auto
      with False show False by simp
    qed
    then show ?thesis using False unfolding fbyte_def fwrite_def assms(1) by (simp only: if_False fun_upd_other not_False_eq_True)
  qed
qed

section \<open>Volumes\<close>

definition disk_of :: "('d \<Rightarrow> nat \<Rightarrow> bytes) \<Rightarrow> 'd sfs_fs \<Rightarrow> nat \<Rightarrow> bytes" where
  "disk_of blk fs = blk (sfs_device fs)"

text \<open>
  The free-block map covers the volume, block 0 and the bits past its end are marked in use, as
  \<^verbatim>\<open>mksfs\<close> leaves them.
\<close>

definition volume_ok :: "('d \<Rightarrow> bool) \<Rightarrow> ('d \<Rightarrow> nat) \<Rightarrow> 'd sfs_fs \<Rightarrow> bool" where
  "volume_ok dev_ok nblk fs \<longleftrightarrow> dev_ok (sfs_device fs) \<and> bitmap_invar (sfs_freemap fs) \<and>
     nblocks_of fs \<le> nblk (sfs_device fs) \<and> nblocks_of fs \<le> bm_nbits (sfs_freemap fs) \<and>
     (\<forall>b. nblocks_of fs \<le> b \<and> b < bm_nbits (sfs_freemap fs) \<longrightarrow> b \<in> bitmap_used (sfs_freemap fs)) \<and>
     0 \<in> bitmap_used (sfs_freemap fs)"

definition file_ok :: "('d \<Rightarrow> nat \<Rightarrow> bytes) \<Rightarrow> 'd sfs_fs \<Rightarrow> sfs_inode \<Rightarrow> bool" where
  "file_ok blk fs i \<longleftrightarrow> inode_ok (disk_of blk fs) i \<and> own (disk_of blk fs) i \<subseteq> busy fs"

text \<open>Everything but the device, the free-block map and the vnode \<open>p\<close> is as before.\<close>

definition fs_frame :: "nat \<Rightarrow> 'd sfs_fs \<Rightarrow> 'd sfs_fs \<Rightarrow> bool" where
  "fs_frame p fs fs' \<longleftrightarrow> sfs_super fs' = sfs_super fs \<and> sfs_superdirty fs' = sfs_superdirty fs \<and>
     sfs_vnodes fs' = sfs_vnodes fs \<and> sfs_nextptr fs' = sfs_nextptr fs \<and>
     (\<forall>q. q \<noteq> p \<longrightarrow> sfs_node fs' q = sfs_node fs q)"

definition same_object :: "sfs_vnode \<Rightarrow> sfs_vnode \<Rightarrow> bool" where
  "same_object sv sv' \<longleftrightarrow> vn_refcount sv' = vn_refcount sv \<and> vn_opencount sv' = vn_opencount sv \<and>
     vn_ops sv' = vn_ops sv \<and> sv_ino sv' = sv_ino sv \<and> sfi_type (sv_i sv') = sfi_type (sv_i sv) \<and>
     sfi_linkcount (sv_i sv') = sfi_linkcount (sv_i sv) \<and> (sv_dirty sv \<longrightarrow> sv_dirty sv') \<and>
     (sv_i sv' \<noteq> sv_i sv \<longrightarrow> sv_dirty sv')"

text \<open>
  A file has grown, or stayed: it kept its blocks, the blocks it gained are those taken from the
  free-block map, and no other block in use has changed.
\<close>

definition file_grown :: "('d \<Rightarrow> bool) \<Rightarrow> ('d \<Rightarrow> nat) \<Rightarrow> ('d \<Rightarrow> nat \<Rightarrow> bytes) \<Rightarrow> nat \<Rightarrow>
    'd sfs_fs \<Rightarrow> sfs_vnode \<Rightarrow> 'd sfs_fs \<Rightarrow> sfs_vnode \<Rightarrow> bool" where
  "file_grown dev_ok nblk blk p fs sv fs' sv' \<longleftrightarrow>
     volume_ok dev_ok nblk fs' \<and> fs_frame p fs fs' \<and> same_object sv sv' \<and> sfs_node fs' p = Some sv' \<and>
     file_ok blk fs' (sv_i sv') \<and> busy fs \<subseteq> busy fs' \<and>
     own (disk_of blk fs) (sv_i sv) \<subseteq> own (disk_of blk fs') (sv_i sv') \<and>
     own (disk_of blk fs') (sv_i sv') - own (disk_of blk fs) (sv_i sv) = busy fs' - busy fs \<and>
     (\<forall>b\<in>busy fs - own (disk_of blk fs) (sv_i sv). disk_of blk fs' b = disk_of blk fs b)"

lemma fs_frame_trans: "fs_frame p a b \<Longrightarrow> fs_frame p b c \<Longrightarrow> fs_frame p a c"
  by (simp add: fs_frame_def)

lemma same_object_trans: "same_object a b \<Longrightarrow> same_object b c \<Longrightarrow> same_object a c"
  unfolding same_object_def by metis

lemma file_grown_trans:
  assumes "file_grown dev_ok nblk blk p a x b y" "file_grown dev_ok nblk blk p b y c z"
  shows "file_grown dev_ok nblk blk p a x c z"
proof -
  note d1 = assms(1) [unfolded file_grown_def] and d2 = assms(2) [unfolded file_grown_def]
  let ?own = "\<lambda>f v. own (disk_of blk f) (sv_i v)"
  have o: "?own a x \<subseteq> ?own b y" "?own b y \<subseteq> ?own c z" "?own b y - ?own a x = busy b - busy a"
    "?own c z - ?own b y = busy c - busy b" "busy a \<subseteq> busy b" "busy b \<subseteq> busy c"
    using d1 d2 by auto
  have "?own c z - ?own a x = busy c - busy a" using o by blast
  moreover have "disk_of blk c k = disk_of blk a k" if "k \<in> busy a - ?own a x" for k
  proof -
    have "k \<in> busy b - ?own b y" using that o by blast
    then have "disk_of blk c k = disk_of blk b k" using d2 by blast
    also have "\<dots> = disk_of blk a k" using d1 that by blast
    finally show ?thesis .
  qed
  moreover have "?own a x \<subseteq> ?own c z" "busy a \<subseteq> busy c" using o by blast+
  moreover have "fs_frame p a c" using d1 d2 fs_frame_trans by (elim conjE)
  moreover have "same_object x z" using d1 d2 same_object_trans by (elim conjE)
  ultimately show ?thesis using d2 by (simp add: file_grown_def)
qed

lemma file_grown_refl:
  "volume_ok dev_ok nblk fs \<Longrightarrow> sfs_node fs p = Some sv \<Longrightarrow> file_ok blk fs (sv_i sv) \<Longrightarrow>
     file_grown dev_ok nblk blk p fs sv fs sv"
  by (simp add: file_grown_def fs_frame_def same_object_def)

text \<open>Everything but the device and the free-block map is as before.\<close>

definition fs_core :: "'d sfs_fs \<Rightarrow> 'd sfs_fs \<Rightarrow> bool" where
  "fs_core fs fs' \<longleftrightarrow> sfs_super fs' = sfs_super fs \<and> sfs_superdirty fs' = sfs_superdirty fs \<and>
     sfs_vnodes fs' = sfs_vnodes fs \<and> sfs_nextptr fs' = sfs_nextptr fs \<and> sfs_node fs' = sfs_node fs"

lemma upd_inode_simps [simp]:
  "disk_of blk (upd_inode p f fs) = disk_of blk fs" "busy (upd_inode p f fs) = busy fs"
  "volume_ok dev_ok nblk (upd_inode p f fs) = volume_ok dev_ok nblk fs"
  "sfs_freemapdirty (upd_inode p f fs) = sfs_freemapdirty fs"
  "sfs_device (upd_inode p f fs) = sfs_device fs"
  by (simp_all add: upd_inode_def upd_node_def disk_of_def busy_def nblocks_of_def volume_ok_def)

lemma upd_inode_node:
  assumes "sfs_node fs p = Some sv"
  shows "sfs_node (upd_inode p f fs) p = Some (sv\<lparr> sv_i := f (sv_i sv), sv_dirty := True \<rparr>)"
    "fs_frame p fs (upd_inode p f fs)"
  using assms by (simp_all add: upd_inode_def upd_node_def fs_frame_def)

lemma fs_core_frame: "fs_core a b \<Longrightarrow> fs_frame p b c \<Longrightarrow> fs_frame p a c"
  by (simp add: fs_core_def fs_frame_def)

lemma fs_core_refl [simp]: "fs_core fs fs"
  by (simp add: fs_core_def)

lemma fs_core_trans: "fs_core a b \<Longrightarrow> fs_core b c \<Longrightarrow> fs_core a c"
  by (simp add: fs_core_def)

lemma fs_core_node: "fs_core a b \<Longrightarrow> sfs_node b = sfs_node a"
  by (simp add: fs_core_def)

lemma fs_frame_refl [simp]: "fs_frame p fs fs"
  by (simp add: fs_frame_def)

text \<open>How a file grows by one block.\<close>

lemma grown_by_block:
  assumes "volume_ok dev_ok nblk fs'" "fs_frame p fs fs'" "same_object sv sv'" "sfs_node fs' p = Some sv'"
    "file_ok blk fs (sv_i sv)" "b \<notin> busy fs" "busy fs' = insert b (busy fs)"
    "inode_ok (disk_of blk fs') (sv_i sv')"
    "own (disk_of blk fs') (sv_i sv') = insert b (own (disk_of blk fs) (sv_i sv))"
    "\<forall>c\<in>busy fs - own (disk_of blk fs) (sv_i sv). disk_of blk fs' c = disk_of blk fs c"
  shows "file_grown dev_ok nblk blk p fs sv fs' sv'"
proof -
  have "own (disk_of blk fs) (sv_i sv) \<subseteq> busy fs" using assms(5) by (simp add: file_ok_def)
  then have "file_ok blk fs' (sv_i sv')"
    "own (disk_of blk fs') (sv_i sv') - own (disk_of blk fs) (sv_i sv) = busy fs' - busy fs"
    using assms(6,7,8,9) by (auto simp: file_ok_def)
  then show ?thesis using assms by (auto simp: file_grown_def)
qed

section \<open>Operations on a device that keeps its contract\<close>

context block_device
begin

abbreviation disk :: "'d sfs_fs \<Rightarrow> nat \<Rightarrow> bytes" where
  "disk \<equiv> disk_of blk"

abbreviation vol_ok :: "'d sfs_fs \<Rightarrow> bool" where
  "vol_ok \<equiv> volume_ok dev_ok nblk"

text \<open>A step that leaves everything but the state of an idle device alone.\<close>

definition quiet :: "'d sfs_fs \<Rightarrow> 'd sfs_fs \<Rightarrow> bool" where
  "quiet fs fs' \<longleftrightarrow> (\<exists>d. fs' = fs\<lparr> sfs_device := d \<rparr> \<and> dev_ok d \<and> nblk d = nblk (sfs_device fs) \<and>
     blk d = blk (sfs_device fs))"

text \<open>A step that stores \<open>data\<close> in block \<open>b\<close> of the device.\<close>

definition stored :: "nat \<Rightarrow> bytes \<Rightarrow> 'd sfs_fs \<Rightarrow> 'd sfs_fs \<Rightarrow> bool" where
  "stored b data fs fs' \<longleftrightarrow> (\<exists>d. fs' = fs\<lparr> sfs_device := d \<rparr> \<and> dev_ok d \<and> nblk d = nblk (sfs_device fs) \<and>
     blk d = (blk (sfs_device fs))(b := data))"

lemma block_offset:
  assumes "dev_ok d" "b < nblk d"
  shows "SFSUIO buf b rw = Some (mk_kuio buf 512 (512 * int b) rw)"
    "uio_ready 512 (mk_kuio buf 512 (512 * int b) rw)" "b < 2 ^ 22"
proof -
  show b: "b < 2 ^ 22" using nblk_bound [OF assms(1)] assms(2) by simp
  then show "SFSUIO buf b rw = Some (mk_kuio buf 512 (512 * int b) rw)"
    by (simp add: SFSUIO_def sfs_consts off32_id cint_def mult.commute)
  have "int b < 4194304 - 1" using nblk_bound [OF assms(1)] assms(2) by simp
  then show "uio_ready 512 (mk_kuio buf 512 (512 * int b) rw)"
    by (intro mk_kuio_ready) simp_all
qed

lemma rwtry_read:
  assumes "dev_ok d" "b < nblk d" "uio_rw u = UIO_READ" "uio_offset u = 512 * int b"
    "uio_resid u = 512" "uio_ready 512 u"
  shows "\<exists>d'. sfs_rwtry d_io 0 d u = Some (Inr (), uio_deliver (blk d b) u, d') \<and> dev_ok d' \<and>
    nblk d' = nblk d \<and> blk d' = blk d"
proof -
  obtain d' where "d_io d u = Some (Inr (), uio_deliver (blk d b) u, d')" "dev_ok d'"
    "nblk d' = nblk d" "blk d' = blk d"
    using read_block [OF assms] by blast
  then show ?thesis by (subst sfs_rwtry.simps) simp
qed

lemma rwtry_write:
  assumes "dev_ok d" "b < nblk d" "uio_rw u = UIO_WRITE" "uio_offset u = 512 * int b"
    "uio_resid u = 512" "uio_ready 512 u"
  shows "\<exists>d'. sfs_rwtry d_io 0 d u = Some (Inr (), uio_advance 512 u, d') \<and> dev_ok d' \<and>
    nblk d' = nblk d \<and> blk d' = (blk d)(b := uio_pending u 512)"
proof -
  obtain d' where "d_io d u = Some (Inr (), uio_advance 512 u, d')" "dev_ok d'"
    "nblk d' = nblk d" "blk d' = (blk d)(b := uio_pending u 512)"
    using write_block [OF assms] by blast
  then show ?thesis by (subst sfs_rwtry.simps) simp
qed

lemma rblock_reads:
  assumes "dev_ok (sfs_device fs)" "b < nblk (sfs_device fs)"
  shows "\<exists>fs'. sfs_rblock d_io b fs = Some (Inr (disk fs b), fs') \<and> quiet fs fs'"
proof -
  let ?u = "mk_kuio (zero_block) 512 (512 * int b) UIO_READ"
  note bo = block_offset [OF assms]
  obtain d' where d': "sfs_rwtry d_io 0 (sfs_device fs) ?u
      = Some (Inr (), uio_deliver (blk (sfs_device fs) b) ?u, d')"
    "dev_ok d'" "nblk d' = nblk (sfs_device fs)" "blk d' = blk (sfs_device fs)"
    using rwtry_read [OF assms, of ?u] bo(2) by auto
  have "mem_get (uio_mem (uio_deliver (blk (sfs_device fs) b) ?u)) 0 512 = blk (sfs_device fs) b"
    using mk_kuio_delivered [of "blk (sfs_device fs) b"] blk_length [OF assms] by simp
  then have "sfs_rblock d_io b fs = Some (Inr (disk fs b), fs\<lparr> sfs_device := d' \<rparr>)"
    using bo(1) d'(1)
    unfolding sfs_rblock_def zero_block_def [symmetric]
    by (simp add: sfs_rwblock_def SFS_BLOCKSIZE_def disk_of_def del: uio_deliver_simps)
  with d' show ?thesis unfolding quiet_def by blast
qed

lemma wblock_stores:
  assumes "dev_ok (sfs_device fs)" "b < nblk (sfs_device fs)" "length data = 512"
  shows "\<exists>fs'. sfs_wblock d_io data b fs = Some (Inr (), fs') \<and> stored b data fs fs'"
proof -
  let ?u = "mk_kuio data 512 (512 * int b) UIO_WRITE"
  note bo = block_offset [OF assms(1,2)]
  obtain d' where d': "sfs_rwtry d_io 0 (sfs_device fs) ?u = Some (Inr (), uio_advance 512 ?u, d')"
    "dev_ok d'" "nblk d' = nblk (sfs_device fs)" "blk d' = (blk (sfs_device fs))(b := uio_pending ?u 512)"
    using rwtry_write [OF assms(1,2), of ?u] bo(2) by auto
  have "uio_pending ?u 512 = data" using assms(3) by (simp add: mk_kuio_pending)
  moreover have "sfs_wblock d_io data b fs = Some (Inr (), fs\<lparr> sfs_device := d' \<rparr>)"
    using bo(1) d'(1) by (simp add: sfs_wblock_def sfs_rwblock_def SFS_BLOCKSIZE_def)
  ultimately show ?thesis using d' unfolding stored_def by auto
qed

lemma quiet_facts:
  assumes "vol_ok fs" "quiet fs fs'"
  shows "vol_ok fs'" "disk fs' = disk fs" "busy fs' = busy fs" "fs_core fs fs'"
    "sfs_freemap fs' = sfs_freemap fs" "sfs_freemapdirty fs' = sfs_freemapdirty fs"
  using assms by (auto simp: quiet_def volume_ok_def disk_of_def busy_def nblocks_of_def fs_core_def)

lemma stored_facts:
  assumes "vol_ok fs" "stored b data fs fs'"
  shows "vol_ok fs'" "disk fs' = (disk fs)(b := data)" "busy fs' = busy fs" "fs_core fs fs'"
    "sfs_freemap fs' = sfs_freemap fs" "sfs_freemapdirty fs' = sfs_freemapdirty fs"
  using assms by (auto simp: stored_def volume_ok_def disk_of_def busy_def nblocks_of_def fs_core_def)

lemma busy_device: "vol_ok fs \<Longrightarrow> b \<in> busy fs \<Longrightarrow> b < nblk (sfs_device fs)"
  by (auto simp: volume_ok_def busy_def)

lemma vol_dev: "vol_ok fs \<Longrightarrow> dev_ok (sfs_device fs)"
  by (simp add: volume_ok_def)

lemma disk_length: "vol_ok fs \<Longrightarrow> b \<in> busy fs \<Longrightarrow> length (disk fs b) = 512"
  by (simp add: disk_of_def blk_length [OF vol_dev busy_device])

lemma bused_busy:
  assumes "vol_ok fs" "b \<in> busy fs"
  shows "sfs_bused b fs = Some True"
proof -
  have b: "b < nblocks_of fs" "b \<in> bitmap_used (sfs_freemap fs)" "bitmap_invar (sfs_freemap fs)"
    "b < bm_nbits (sfs_freemap fs)"
    using assms by (auto simp: busy_def volume_ok_def bitmap_used_def)
  show ?thesis
    using bitmap_byte [OF b(3,4)] b
    by (simp add: sfs_bused_def nblocks_of_def bitmap_isset_def bitmap_translate_def)
qed

lemma balloc_outcome:
  assumes "vol_ok fs"
  obtains (full) "sfs_balloc d_io fs = Some (Inl ENOSPC, fs)" "busy fs = {..<nblocks_of fs}"
  | (fresh) b fs' where "sfs_balloc d_io fs = Some (Inr b, fs')" "b < nblocks_of fs" "b \<notin> busy fs"
      "b \<noteq> 0" "b < 2 ^ 22" "vol_ok fs'" "disk fs' = (disk fs)(b := zero_block)"
      "busy fs' = insert b (busy fs)" "fs_core fs fs'" "sfs_freemapdirty fs'"
proof -
  have inv: "bitmap_invar (sfs_freemap fs)" using assms by (simp add: volume_ok_def)
  show thesis
  proof (cases rule: bm.alloc_cases [OF inv, case_names exhausted fresh])
    case exhausted
    have "b \<in> bitmap_used (sfs_freemap fs)" if "b < nblocks_of fs" for b
      unfolding exhausted(2) using that assms by (simp add: volume_ok_def)
    then have "busy fs = {..<nblocks_of fs}" by (auto simp: busy_def)
    then show thesis using exhausted(1) by (intro full) (simp add: sfs_balloc_def)
  next
    case fr: (fresh b bm)
    define fs1 where "fs1 = fs\<lparr> sfs_freemap := bm, sfs_freemapdirty := True \<rparr>"
    have pad: "b \<in> bitmap_used (sfs_freemap fs)" if "nblocks_of fs \<le> b"
      using assms fr(2) that by (simp add: volume_ok_def)
    have b: "b < nblocks_of fs" "b \<noteq> 0"
      using fr(3) pad assms by (auto simp: volume_ok_def not_less [symmetric])
    have v1: "vol_ok fs1" using fr(4,5,6) assms by (simp add: fs1_def volume_ok_def nblocks_of_def)
    have dev: "dev_ok (sfs_device fs1)" "b < nblk (sfs_device fs1)"
      using assms b(1) by (simp_all add: fs1_def volume_ok_def)
    obtain fs' where w: "sfs_wblock d_io (zero_block) b fs1 = Some (Inr (), fs')"
      "stored b (zero_block) fs1 fs'"
      using wblock_stores [OF dev, of "zero_block"] by auto
    note st = stored_facts [OF v1 w(2)]
    have "sfs_balloc d_io fs = Some (Inr b, fs')"
      using fr(1) w(1) b(1)
      by (simp add: sfs_balloc_def fs1_def sfs_clearblock_def zero_block_def [symmetric] nblocks_of_def)
    moreover have "busy fs1 = insert b (busy fs)"
      using fr(6) b(1) by (auto simp: fs1_def busy_def nblocks_of_def)
    moreover have "disk fs1 = disk fs" "b \<notin> busy fs" "b < 2 ^ 22"
      using fr(3) dev(2) nblk_bound [OF dev(1)] by (simp_all add: fs1_def disk_of_def busy_def)
    moreover have "fs_core fs fs'" "sfs_freemapdirty fs'"
      using st(4,6) by (simp_all add: fs1_def fs_core_def)
    ultimately show thesis
      using b st(1,2,3) by (intro fresh [of b fs']) (simp_all only: not_False_eq_True)
  qed
qed

lemma quiet_refl: "vol_ok fs \<Longrightarrow> quiet fs fs"
  unfolding quiet_def by (intro exI [of _ "sfs_device fs"]) (simp add: vol_dev)

lemma hand_back_block:
  "vol_ok fs \<Longrightarrow> w \<noteq> 0 \<Longrightarrow> unat w \<in> busy fs \<Longrightarrow> hand_back w fs = Some (Inr (unat w), fs)"
  by (simp add: hand_back_def bused_busy)

lemma hand_back_hole [simp]: "hand_back 0 fs = Some (Inr 0, fs)"
  by (simp add: hand_back_def)

lemma hand_back_imap:
  "vol_ok fs \<Longrightarrow> file_ok blk fs i \<Longrightarrow> imap (disk fs) i n = unat w \<Longrightarrow>
     hand_back w fs = Some (Inr (unat w), fs)"
  using imap_own [of "disk fs" i n] by (cases "w = 0") (auto simp: hand_back_block file_ok_def unat_eq_0)

text \<open>Looking up a block of a file.\<close>

lemma bmap_lookup:
  assumes "vol_ok fs" "sfs_node fs p = Some sv" "file_ok blk fs (sv_i sv)" "n < 143"
    "\<not> doalloc \<or> imap (disk fs) (sv_i sv) n \<noteq> 0"
  shows "\<exists>fs'. sfs_bmap d_io p n doalloc fs = Some (Inr (imap (disk fs) (sv_i sv) n), fs') \<and> quiet fs fs'"
proof (cases "n < 15")
  case True
  have len: "length (sfi_direct (sv_i sv)) = 15"
    using assms(3) by (simp add: file_ok_def inode_ok_def inode_sized_def)
  have m: "imap (disk fs) (sv_i sv) n = unat (sfi_direct (sv_i sv) ! n)" using True by (simp add: imap_def)
  then have "sfs_bmap d_io p n doalloc fs = hand_back (sfi_direct (sv_i sv) ! n) fs"
    using True assms(2,5) len by (auto simp: sfs_bmap_def bmap_direct_def SFS_NDIRECT_def unat_eq_0)
  then show ?thesis using hand_back_imap [OF assms(1,3) m] m quiet_refl [OF assms(1)] by simp
next
  case False
  then obtain j where n: "n = 15 + j" "j < 128"
    using assms(4) by (intro that [of "n - 15"]) simp_all
  let ?ib = "sfi_indirect (sv_i sv)"
  show ?thesis
  proof (cases "?ib = 0")
    case True
    then have "imap (disk fs) (sv_i sv) n = 0" using n by (simp add: imap_def)
    with True n assms(2,5) show ?thesis
      using quiet_refl [OF assms(1)]
      by (simp add: sfs_bmap_def bmap_indirect_def SFS_NDIRECT_def SFS_DBPERIDB_def Let_def)
  next
    case ib: False
    let ?w = "de32s 128 (disk fs (unat ?ib)) ! j"
    have m: "imap (disk fs) (sv_i sv) n = unat ?w" using n ib by (simp add: imap_def)
    have "unat ?ib \<in> busy fs" using indirect_own [OF ib] assms(3) by (auto simp: file_ok_def)
    then obtain fs' where r: "sfs_rblock d_io (unat ?ib) fs = Some (Inr (disk fs (unat ?ib)), fs')" "quiet fs fs'"
      using rblock_reads [OF vol_dev [OF assms(1)] busy_device [OF assms(1)]] by blast
    note q = quiet_facts [OF assms(1) r(2)]
    have ok: "file_ok blk fs' (sv_i sv)" using assms(3) q by (simp add: file_ok_def)
    have "sfs_bmap d_io p n doalloc fs = hand_back ?w fs'"
      using n ib assms(2,5) r(1) m
      by (auto simp: sfs_bmap_def bmap_indirect_def bmap_entry_def SFS_NDIRECT_def SFS_DBPERIDB_def Let_def)
    then show ?thesis
      using hand_back_imap [OF q(1) ok, of n ?w] m q(2) r(2) by simp
  qed
qed

abbreviation grown :: "nat \<Rightarrow> 'd sfs_fs \<Rightarrow> sfs_vnode \<Rightarrow> 'd sfs_fs \<Rightarrow> sfs_vnode \<Rightarrow> bool" where
  "grown \<equiv> file_grown dev_ok nblk blk"

text \<open>
  The outcomes of mapping a block for writing: the volume is full, or the block is mapped; either
  way the file's bytes and size are what they were.
\<close>

definition bmapped :: "nat \<Rightarrow> nat \<Rightarrow> 'd sfs_fs \<Rightarrow> sfs_vnode \<Rightarrow> errno + nat \<Rightarrow> 'd sfs_fs \<Rightarrow> bool" where
  "bmapped p n fs sv r fs' \<longleftrightarrow> (\<exists>sv'. grown p fs sv fs' sv' \<and>
     fblock (disk fs') (sv_i sv') = fblock (disk fs) (sv_i sv) \<and> sfi_size (sv_i sv') = sfi_size (sv_i sv) \<and>
     (r = Inl ENOSPC \<and> busy fs' = {..<nblocks_of fs'} \<or>
      r = Inr (imap (disk fs') (sv_i sv') n) \<and> imap (disk fs') (sv_i sv') n \<noteq> 0))"

lemma bmapped_full:
  "vol_ok fs \<Longrightarrow> sfs_node fs p = Some sv \<Longrightarrow> file_ok blk fs (sv_i sv) \<Longrightarrow> busy fs = {..<nblocks_of fs} \<Longrightarrow>
     bmapped p n fs sv (Inl ENOSPC) fs"
  unfolding bmapped_def using file_grown_refl by blast

lemma bmapped_trans:
  assumes "grown p a x b y" "fblock (disk b) (sv_i y) = fblock (disk a) (sv_i x)"
    "sfi_size (sv_i y) = sfi_size (sv_i x)" "bmapped p n b y r c"
  shows "bmapped p n a x r c"
proof -
  obtain z where z: "grown p b y c z" "fblock (disk c) (sv_i z) = fblock (disk b) (sv_i y)"
    "sfi_size (sv_i z) = sfi_size (sv_i y)"
    "r = Inl ENOSPC \<and> busy c = {..<nblocks_of c} \<or>
     r = Inr (imap (disk c) (sv_i z) n) \<and> imap (disk c) (sv_i z) n \<noteq> 0"
    using assms(4) unfolding bmapped_def by blast
  have "fblock (disk c) (sv_i z) = fblock (disk a) (sv_i x)" "sfi_size (sv_i z) = sfi_size (sv_i x)"
    using z(2,3) assms(2,3) by simp_all
  with file_grown_trans [OF assms(1) z(1)] z(4) show ?thesis unfolding bmapped_def by blast
qed

lemma direct_alloc:
  assumes "vol_ok fs" "sfs_node fs p = Some sv" "file_ok blk fs (sv_i sv)" "n < 15"
    "sfi_direct (sv_i sv) ! n = 0"
  shows "\<exists>r fs'. bmap_direct d_io p n True fs = Some (r, fs') \<and> bmapped p n fs sv r fs'"
proof -
  let ?i = "sv_i sv"
  have ok: "inode_ok (disk fs) ?i" "own (disk fs) ?i \<subseteq> busy fs" "length (sfi_direct ?i) = 15"
    using assms(3) by (simp_all add: file_ok_def inode_ok_def inode_sized_def)
  show ?thesis
  proof (cases rule: balloc_outcome [OF assms(1), case_names full fresh])
    case full
    then have "bmap_direct d_io p n True fs = Some (Inl ENOSPC, fs)"
      using assms(2,4,5) ok(3) by (simp add: bmap_direct_def)
    then show ?thesis using bmapped_full [OF assms(1-3) full(2)] by blast
  next
    case (fresh b fs1)
    let ?w = "word_of_nat b :: u32"
    let ?f = "\<lambda>i. i\<lparr> sfi_direct := (sfi_direct i)[n := ?w] \<rparr>"
    let ?fs2 = "upd_inode p ?f fs1" and ?sv2 = "sv\<lparr> sv_i := ?f ?i, sv_dirty := True \<rparr>"
    have b: "b < 2 ^ 32" "b \<notin> own (disk fs) ?i" using fresh(3,5) ok(2) by auto
    have w: "unat ?w = b" using b(1) by (rule unat_of_nat_small)
    note add = add_direct [OF ok(1) assms(4,5) fresh(4) b(2,1)]
    have node: "sfs_node fs1 p = Some sv" using assms(2) fs_core_node [OF fresh(9)] by simp
    note un = upd_inode_node [OF node, of ?f]
    have "b \<in> busy ?fs2" "vol_ok ?fs2" using fresh(6,8) by simp_all
    then have run: "bmap_direct d_io p n True fs = Some (Inr b, ?fs2)"
      using assms(2,4,5) ok(3) fresh(1,4) w hand_back_block [of ?fs2 ?w]
      by (simp add: bmap_direct_def Let_def unat_eq_0 [symmetric])
    have "grown p fs sv ?fs2 ?sv2"
    proof (rule grown_by_block [where b = b])
      show "fs_frame p fs ?fs2" using fs_core_frame [OF fresh(9) un(2)] .
      show "\<forall>c\<in>busy fs - own (disk fs) ?i. disk ?fs2 c = disk fs c" using fresh(3,7) by auto
    qed (use fresh(3,6,7,8) un(1) add assms(3) in \<open>simp_all add: same_object_def\<close>)
    moreover have "fblock (disk ?fs2) (sv_i ?sv2) = fblock (disk fs) ?i" using add(4) fresh(7) by simp
    moreover have "imap (disk ?fs2) (sv_i ?sv2) n = b" using add(1) fresh(7) by simp
    ultimately have "bmapped p n fs sv (Inr b) ?fs2"
      unfolding bmapped_def using fresh(4) by (intro exI [of _ ?sv2]) simp
    with run show ?thesis by blast
  qed
qed

lemma entry_alloc:
  assumes "vol_ok fs" "sfs_node fs p = Some sv" "file_ok blk fs (sv_i sv)" "j < 128"
    "sfi_indirect (sv_i sv) \<noteq> 0" "unat (sfi_indirect (sv_i sv)) = ib" "de32s 128 (disk fs ib) ! j = 0"
  shows "\<exists>r fs'. bmap_entry d_io ib (de32s 128 (disk fs ib)) j True fs = Some (r, fs') \<and>
    bmapped p (15 + j) fs sv r fs'"
proof -
  let ?i = "sv_i sv" and ?buf = "de32s 128 (disk fs ib)"
  have ok: "inode_ok (disk fs) ?i" "own (disk fs) ?i \<subseteq> busy fs"
    using assms(3) by (simp_all add: file_ok_def)
  have hole: "imap (disk fs) ?i (15 + j) = 0" using assms(4-7) by (simp add: imap_def)
  have own: "ib \<in> own (disk fs) ?i" using indirect_own [OF assms(5)] assms(6) by simp
  show ?thesis
  proof (cases rule: balloc_outcome [OF assms(1), case_names full fresh])
    case full
    then have "bmap_entry d_io ib ?buf j True fs = Some (Inl ENOSPC, fs)"
      using assms(4,7) by (simp add: bmap_entry_def)
    then show ?thesis using bmapped_full [OF assms(1-3) full(2)] by blast
  next
    case (fresh b fs1)
    let ?w = "word_of_nat b :: u32"
    let ?data = "be32s (?buf[j := ?w])"
    have b: "b < 2 ^ 32" "b \<notin> own (disk fs) ?i" using fresh(3,5) ok(2) by auto
    have w: "unat ?w = b" using b(1) by (rule unat_of_nat_small)
    have n: "15 \<le> 15 + j" "15 + j < 143" using assms(4) by simp_all
    note add = add_entry [OF ok(1) n hole fresh(4) b(2,1) assms(5), unfolded assms(6)]
    have "ib \<in> busy fs1" using own ok(2) fresh(8) by auto
    then obtain fs2 where wb: "sfs_wblock d_io ?data ib fs1 = Some (Inr (), fs2)" "stored ib ?data fs1 fs2"
      using wblock_stores [OF vol_dev [OF fresh(6)] busy_device [OF fresh(6)], of ib ?data] by auto
    note st = stored_facts [OF fresh(6) wb(2)]
    have D: "disk fs2 = (disk fs)(b := zero_block, ib := ?data)" using st(2) fresh(7) by simp
    have core: "fs_core fs fs2" using fs_core_trans [OF fresh(9) st(4)] .
    have run: "bmap_entry d_io ib ?buf j True fs = Some (Inr b, fs2)"
      using assms(4,7) fresh(1,4,8) wb(1) w hand_back_block [OF st(1), of ?w] st(3)
      by (simp add: bmap_entry_def Let_def unat_eq_0 [symmetric])
    have "grown p fs sv fs2 sv"
    proof (rule grown_by_block [where b = b])
      show "fs_frame p fs fs2" using fs_core_frame [OF core fs_frame_refl] .
      show "\<forall>c\<in>busy fs - own (disk fs) ?i. disk fs2 c = disk fs c" using fresh(3) own by (auto simp: D)
    qed (use fresh(3,8) st(1,3) add assms(2,3) D fs_core_node [OF core] in \<open>simp_all add: same_object_def\<close>)
    moreover have "fblock (disk fs2) ?i = fblock (disk fs) ?i" "imap (disk fs2) ?i (15 + j) = b"
      using add(1,4) D by simp_all
    ultimately have "bmapped p (15 + j) fs sv (Inr b) fs2"
      unfolding bmapped_def using fresh(4) by (intro exI [of _ sv]) simp
    with run show ?thesis by blast
  qed
qed

lemma quiet_grown:
  assumes "vol_ok fs" "sfs_node fs p = Some sv" "file_ok blk fs (sv_i sv)" "quiet fs fs'"
  shows "grown p fs sv fs' sv" "sfs_node fs' p = Some sv" "file_ok blk fs' (sv_i sv)"
proof -
  note q = quiet_facts [OF assms(1,4)]
  show n: "sfs_node fs' p = Some sv" "file_ok blk fs' (sv_i sv)"
    using assms(2,3) q fs_core_node [OF q(4)] by (simp_all add: file_ok_def)
  show "grown p fs sv fs' sv"
    using file_grown_refl [OF q(1) n] fs_core_frame [OF q(4) fs_frame_refl, of p] q(2,3)
    by (simp add: file_grown_def)
qed

lemma zero_entries: "de32s 128 zero_block = replicate 128 0"
proof (rule nth_equalityI)
  fix k assume "k < length (de32s 128 zero_block)"
  then have "k < 128" by simp
  then show "de32s 128 zero_block ! k = replicate 128 0 ! k"
    unfolding zero_block_def SFS_BLOCKSIZE_def by (simp add: de32s_zeros)
qed simp

lemma indirect_alloc:
  assumes "vol_ok fs" "sfs_node fs p = Some sv" "file_ok blk fs (sv_i sv)" "j < 128"
    "sfi_indirect (sv_i sv) = 0"
  shows "\<exists>r fs'. bmap_indirect d_io p j True fs = Some (r, fs') \<and> bmapped p (15 + j) fs sv r fs'"
proof -
  let ?i = "sv_i sv"
  have ok: "inode_ok (disk fs) ?i" "own (disk fs) ?i \<subseteq> busy fs"
    using assms(3) by (simp_all add: file_ok_def)
  show ?thesis
  proof (cases rule: balloc_outcome [OF assms(1), case_names full fresh])
    case full
    then have "bmap_indirect d_io p j True fs = Some (Inl ENOSPC, fs)"
      using assms(2,4,5) by (simp add: bmap_indirect_def SFS_DBPERIDB_def Let_def)
    then show ?thesis using bmapped_full [OF assms(1-3) full(2)] by blast
  next
    case (fresh b fs1)
    let ?w = "word_of_nat b :: u32"
    let ?f = "\<lambda>i. i\<lparr> sfi_indirect := ?w \<rparr>"
    let ?fs2 = "upd_inode p ?f fs1" and ?sv2 = "sv\<lparr> sv_i := ?f ?i, sv_dirty := True \<rparr>"
    have b: "b < 2 ^ 32" "b \<notin> own (disk fs) ?i" using fresh(3,5) ok(2) by auto
    have w: "unat ?w = b" using b(1) by (rule unat_of_nat_small)
    note add = add_indirect [OF ok(1) assms(5) fresh(4) b(2,1)]
    have node: "sfs_node fs1 p = Some sv" using assms(2) fs_core_node [OF fresh(9)] by simp
    note un = upd_inode_node [OF node, of ?f]
    have g: "grown p fs sv ?fs2 ?sv2"
    proof (rule grown_by_block [where b = b])
      show "fs_frame p fs ?fs2" using fs_core_frame [OF fresh(9) un(2)] .
      show "\<forall>c\<in>busy fs - own (disk fs) ?i. disk ?fs2 c = disk fs c" using fresh(3,7) by auto
    qed (use fresh(3,6,7,8) un(1) add assms(3) in \<open>simp_all add: same_object_def\<close>)
    have z: "de32s 128 (disk ?fs2 b) = replicate 128 0" using fresh(7) zero_entries by simp
    have nz: "sfi_indirect (sv_i ?sv2) \<noteq> 0" using w fresh(4) by (auto simp: unat_eq_0 [symmetric])
    have "vol_ok ?fs2" "file_ok blk ?fs2 (sv_i ?sv2)" "unat (sfi_indirect (sv_i ?sv2)) = b"
      using g w by (simp_all add: file_grown_def)
    note ea = entry_alloc [OF this(1) un(1) this(2) assms(4) nz this(3)]
    have "bmap_indirect d_io p j True fs = bmap_entry d_io b (replicate 128 0) j True ?fs2"
      using assms(2,4,5) fresh(1) by (simp add: bmap_indirect_def SFS_DBPERIDB_def Let_def)
    moreover obtain r fs' where "bmap_entry d_io b (replicate 128 0) j True ?fs2 = Some (r, fs')"
      "bmapped p (15 + j) ?fs2 ?sv2 r fs'"
      using ea z assms(4) by auto
    moreover have "fblock (disk ?fs2) (sv_i ?sv2) = fblock (disk fs) ?i" using add(4) fresh(7) by simp
    ultimately show ?thesis using bmapped_trans [OF g] by auto
  qed
qed

lemma bmap_alloc:
  assumes "vol_ok fs" "sfs_node fs p = Some sv" "file_ok blk fs (sv_i sv)" "n < 143"
  shows "\<exists>r fs'. sfs_bmap d_io p n True fs = Some (r, fs') \<and> bmapped p n fs sv r fs'"
proof (cases "imap (disk fs) (sv_i sv) n = 0")
  case False
  obtain fs' where f: "sfs_bmap d_io p n True fs = Some (Inr (imap (disk fs) (sv_i sv) n), fs')" "quiet fs fs'"
    using bmap_lookup [OF assms] False by blast
  have "bmapped p n fs sv (Inr (imap (disk fs) (sv_i sv) n)) fs'"
    unfolding bmapped_def using quiet_grown(1) [OF assms(1-3) f(2)] quiet_facts(2) [OF assms(1) f(2)] False
    by (intro exI [of _ sv]) simp
  with f(1) show ?thesis by blast
next
  case hole: True
  show ?thesis
  proof (cases "n < 15")
    case True
    then have "sfi_direct (sv_i sv) ! n = 0" using hole by (simp add: imap_def unat_eq_0)
    from direct_alloc [OF assms(1-3) True this] True show ?thesis
      by (simp add: sfs_bmap_def SFS_NDIRECT_def)
  next
    case False
    then obtain j where n: "n = 15 + j" "j < 128" using assms(4) by (intro that [of "n - 15"]) simp_all
    let ?ib = "sfi_indirect (sv_i sv)"
    have run: "sfs_bmap d_io p n True fs = bmap_indirect d_io p j True fs"
      using n by (simp add: sfs_bmap_def SFS_NDIRECT_def)
    show ?thesis
    proof (cases "?ib = 0")
      case True
      from indirect_alloc [OF assms(1-3) n(2) True] run n(1) show ?thesis by simp
    next
      case ib: False
      have "unat ?ib \<in> busy fs" using indirect_own [OF ib] assms(3) by (auto simp: file_ok_def)
      then obtain fs1 where r: "sfs_rblock d_io (unat ?ib) fs = Some (Inr (disk fs (unat ?ib)), fs1)" "quiet fs fs1"
        using rblock_reads [OF vol_dev [OF assms(1)] busy_device [OF assms(1)]] by blast
      note q = quiet_facts [OF assms(1) r(2)] and g = quiet_grown [OF assms(1-3) r(2)]
      have "de32s 128 (disk fs1 (unat ?ib)) ! j = 0"
        using hole n ib q(2) by (simp add: imap_def unat_eq_0)
      from entry_alloc [OF q(1) g(2,3) n(2) ib refl this]
      obtain r fs' where e: "bmap_entry d_io (unat ?ib) (de32s 128 (disk fs1 (unat ?ib))) j True fs1 = Some (r, fs')"
        "bmapped p (15 + j) fs1 sv r fs'" by blast
      have "bmapped p n fs sv r fs'" using bmapped_trans [OF g(1) _ _ e(2)] q(2) n(1) by simp
      moreover have "bmap_indirect d_io p j True fs = Some (r, fs')"
        using assms(2) n(2) ib r(1) e(1) q(2) by (simp add: bmap_indirect_def SFS_DBPERIDB_def Let_def)
      ultimately show ?thesis using run by auto
    qed
  qed
qed

lemma bmap_beyond:
  assumes "sfs_node fs p = Some sv" "143 \<le> n"
  shows "sfs_bmap d_io p n doalloc fs = Some (Inl EINVAL, fs)"
proof -
  have "128 \<le> n - 15" using assms(2) by simp
  then have "(n - 15) div 128 > 0" by (simp add: div_greater_zero_iff)
  with assms(2) show ?thesis
    by (simp add: sfs_bmap_def bmap_indirect_def SFS_NDIRECT_def SFS_DBPERIDB_def)
qed

end

end
