(* ===== verification/Sfs_Io_Props.thy ===== *)
theory Sfs_Io_Props
  imports Sfs_File_Props
begin

text \<open>
  Reading and writing files: \<^verbatim>\<open>sfs_partialio\<close>, \<^verbatim>\<open>sfs_blockio\<close> and \<^verbatim>\<open>sfs_io\<close>
  refine reading and overwriting a stretch of the byte function of a file, on every device that
  keeps the contract \<open>block_device\<close> and, as a consequence, on the disk driver over every
  drive without media errors.
\<close>

section \<open>Positions\<close>

lemma u32_quot_off: "0 \<le> x \<Longrightarrow> x < 2 ^ 31 \<Longrightarrow> u32_quot x 512 = nat x div 512"
  by (simp add: u32_quot_def nat_div_distrib)

lemma u32_rem_off: "0 \<le> x \<Longrightarrow> x < 2 ^ 31 \<Longrightarrow> u32_rem x 512 = nat x mod 512"
  by (simp add: u32_rem_def nat_mod_distrib)

definition upos :: "uio \<Rightarrow> nat" where
  "upos u = nat (uio_offset u)"

lemma upos_block:
  assumes "uio_ready k u"
  shows "u32_quot (uio_offset u) 512 = upos u div 512"
    "u32_rem (uio_offset u) 512 = upos u mod 512" "uio_offset u = int (upos u)"
    "upos u + k < 2 ^ 31"
  using assms by (auto simp: uio_ready_def upos_def u32_quot_off u32_rem_off)

lemma upos_advance: "uio_ready k u \<Longrightarrow> upos (uio_advance k u) = upos u + k"
  using uio_advance_counts(2) [of k u] by (simp add: upos_def uio_ready_def nat_add_distrib)

lemma uio_pending_add:
  "uio_pending u (a + b) = uio_pending u a @ uio_pending (uio_advance a u) b"
  by (simp add: uio_pending_def mem_get_add)

text \<open>\<^verbatim>\<open>sfs_blockio\<close> lends the uio to the device under another offset and length.\<close>

definition uio_lend :: "nat \<Rightarrow> uio \<Rightarrow> uio" where
  "uio_lend b u = u\<lparr> uio_offset := off32 (int (b * SFS_BLOCKSIZE)), uio_resid := SFS_BLOCKSIZE \<rparr>"

lemma uio_lend_fold: "u\<lparr> uio_offset := off32 (int b * 512), uio_resid := 512 \<rparr> = uio_lend b u"
  by (simp add: uio_lend_def SFS_BLOCKSIZE_def)

lemma uio_ready_resid: "uio_ready n u \<Longrightarrow> n \<le> uio_resid u"
  by (simp add: uio_ready_def)

lemma uio_lend_ready:
  assumes "uio_ready 512 u" "b + 1 < 2 ^ 22"
  shows "uio_ready 512 (uio_lend b u)" "uio_offset (uio_lend b u) = 512 * int b"
    "uio_resid (uio_lend b u) = 512" "uio_rw (uio_lend b u) = uio_rw u"
    "uio_pending (uio_lend b u) n = uio_pending u n"
  using assms by (simp_all add: uio_lend_def SFS_BLOCKSIZE_def off32_id uio_ready_def uio_pending_def)

lemma uio_lend_back:
  assumes "uio_ready 512 u" "b + 1 < 2 ^ 22"
  defines "u' \<equiv> uio_advance 512 (uio_lend b u)"
  shows "u'\<lparr> uio_offset := off32 (uio_offset u' - off32 (int (b * SFS_BLOCKSIZE)) + uio_offset u),
      uio_resid := nat ((int (uio_resid u') - int SFS_BLOCKSIZE + int (uio_resid u)) mod 2 ^ 32) \<rparr>
    = uio_advance 512 u"
proof -
  note l = uio_lend_ready [OF assms(1,2)]
  note c = uio_advance_counts [OF l(1)] and c' = uio_advance_counts [OF assms(1)]
  have r: "512 \<le> uio_resid u" "uio_resid u < 2 ^ 32" "0 \<le> uio_offset u" "uio_offset u + 512 < 2 ^ 31"
    using assms(1) by (simp_all add: uio_ready_def)
  have "off32 (uio_offset u' - off32 (int (b * SFS_BLOCKSIZE)) + uio_offset u) = uio_offset u + 512"
    using c(2) l(2) r assms(2) by (simp add: u'_def SFS_BLOCKSIZE_def off32_id)
  moreover have "nat ((int (uio_resid u') - int SFS_BLOCKSIZE + int (uio_resid u)) mod 2 ^ 32) = uio_resid u - 512"
    using c(1) l(3) r by (simp add: u'_def SFS_BLOCKSIZE_def nat_diff_distrib)
  ultimately show ?thesis using c'
    by (intro uio.equality) (simp_all add: u'_def uio_lend_def)
qed

section \<open>Blocks in sequence\<close>

lemma round_up_block: "(n + (if n mod 512 = 0 then 0 else 512 - n mod 512)) mod 512 = (0::nat)"
proof (cases "n mod 512 = 0")
  case False
  have "n + (512 - n mod 512) = 512 * (n div 512) + 512"
    using mult_div_mod_eq [of 512 n] mod_less_divisor [of 512 n] by linarith
  then show ?thesis using False by simp
qed simp

text \<open>
  What \<^verbatim>\<open>sfs_io\<close> does with a partial first block, whole blocks and a partial last
  block, for a relation \<open>step len\<close> between the states before and after \<open>len\<close> bytes that holds of
  the transfers of one block and composes.
\<close>

locale block_steps =
  fixes d_io :: "'d dev_io" and p :: nat
    and good :: "uio \<Rightarrow> 'd sfs_fs \<Rightarrow> bool"
    and step :: "nat \<Rightarrow> uio \<Rightarrow> 'd sfs_fs \<Rightarrow> errno + unit \<Rightarrow> uio \<Rightarrow> 'd sfs_fs \<Rightarrow> bool"
  assumes none: "good u fs \<Longrightarrow> uio_ready 0 u \<Longrightarrow> step 0 u fs (Inr ()) u fs"
    and compose: "step a u fs (Inr ()) u1 fs1 \<Longrightarrow> step b u1 fs1 r u2 fs2 \<Longrightarrow> uio_ready (a + b) u \<Longrightarrow>
      step (a + b) u fs r u2 fs2"
    and stop: "step a u fs (Inl e) u1 fs1 \<Longrightarrow> step (a + b) u fs (Inl e) u1 fs1"
    and onward: "step a u fs (Inr ()) u1 fs1 \<Longrightarrow> good u fs \<Longrightarrow> uio_ready (a + b) u \<Longrightarrow>
      good u1 fs1 \<and> uio_ready b u1 \<and> upos u1 = upos u + a \<and> uio_resid u1 = uio_resid u - a"
    and block: "good u fs \<Longrightarrow> uio_ready 512 u \<Longrightarrow> upos u mod 512 = 0 \<Longrightarrow>
      \<exists>r u' fs'. sfs_blockio d_io p u fs = Some (r, u', fs') \<and> step 512 u fs r u' fs'"
    and partial: "good u fs \<Longrightarrow> uio_ready len u \<Longrightarrow> upos u mod 512 + len \<le> 512 \<Longrightarrow> 0 < len \<or> upos u mod 512 \<noteq> 0 \<Longrightarrow>
      \<exists>r u' fs'. sfs_partialio d_io p (upos u mod 512) len u fs = Some (r, u', fs') \<and> step len u fs r u' fs'"
begin

lemma blocks:
  assumes "good u fs" "uio_ready (512 * m) u" "upos u mod 512 = 0"
  shows "\<exists>r u' fs'. sfs_blocks d_io p m u fs = Some (r, u', fs') \<and> step (512 * m) u fs r u' fs'"
  using assms
proof (induction m arbitrary: u fs)
  case 0
  then show ?case using none by simp
next
  case (Suc m)
  have r: "uio_ready (512 + 512 * m) u" using Suc.prems(2) by simp
  note r' = uio_ready_advance [OF r]
  obtain r1 u1 fs1 where b: "sfs_blockio d_io p u fs = Some (r1, u1, fs1)" "step 512 u fs r1 u1 fs1"
    using block [OF Suc.prems(1) r'(2) Suc.prems(3)] by blast
  show ?case
  proof (cases r1)
    case (Inl e)
    then show ?thesis using b stop [of 512 u fs e u1 fs1 "512 * m"] by simp
  next
    case (Inr x)
    then have s: "step 512 u fs (Inr ()) u1 fs1" using b(2) by simp
    have o: "good u1 fs1" "uio_ready (512 * m) u1" "upos u1 mod 512 = 0"
      using onward [OF s Suc.prems(1) r] Suc.prems(3) by auto
    then obtain r2 u2 fs2 where c: "sfs_blocks d_io p m u1 fs1 = Some (r2, u2, fs2)" "step (512 * m) u1 fs1 r2 u2 fs2"
      using Suc.IH [OF o] by blast
    from compose [OF s c(2) r] show ?thesis using b(1) Inr c(1) by simp
  qed
qed

text \<open>The whole blocks and the partial last block.\<close>

lemma tail:
  assumes "good u fs" "uio_ready (uio_resid u) u" "upos u mod 512 = 0"
  shows "\<exists>r u' fs'. (do {
         (result, u, fs) \<leftarrow> sfs_blocks d_io p (uio_resid u div SFS_BLOCKSIZE) u fs;
         case result of Inl e \<Rightarrow> Some (Inl e, u, fs) | Inr _ \<Rightarrow> do {
           kassert (uio_resid u < SFS_BLOCKSIZE);
           if uio_resid u > 0 then sfs_partialio d_io p 0 (uio_resid u) u fs
           else Some (Inr (), u, fs)
         }
       }) = Some (r, u', fs') \<and> step (uio_resid u) u fs r u' fs'"
proof -
  let ?m = "uio_resid u div 512" and ?l = "uio_resid u mod 512"
  have r: "uio_ready (512 * ?m + ?l) u" using assms(2) by simp
  note r' = uio_ready_advance [OF r]
  obtain r1 u1 fs1 where b: "sfs_blocks d_io p ?m u fs = Some (r1, u1, fs1)" "step (512 * ?m) u fs r1 u1 fs1"
    using blocks [OF assms(1) r'(2) assms(3)] by blast
  show ?thesis
  proof (cases r1)
    case (Inl e)
    then show ?thesis using b stop [of "512 * ?m" u fs e u1 fs1 ?l] by (simp add: SFS_BLOCKSIZE_def)
  next
    case (Inr x)
    then have s: "step (512 * ?m) u fs (Inr ()) u1 fs1" using b(2) by simp
    have o: "good u1 fs1" "uio_ready ?l u1" "upos u1 mod 512 = 0" "uio_resid u1 = ?l"
      using onward [OF s assms(1) r] assms(3) by (auto simp: minus_mult_div_eq_mod)
    obtain r2 u2 fs2 where c: "(if ?l > 0 then sfs_partialio d_io p 0 ?l u1 fs1 else Some (Inr (), u1, fs1)) = Some (r2, u2, fs2)"
      "step ?l u1 fs1 r2 u2 fs2"
      using partial [OF o(1,2)] none [OF o(1)] o by (cases "?l = 0") auto
    from compose [OF s c(2) r] show ?thesis using b(1) Inr c(1) o(4) by (auto simp: SFS_BLOCKSIZE_def split: if_splits)
  qed
qed

lemma io_body:
  assumes "good u fs" "uio_ready (uio_resid u) u"
  shows "\<exists>r u' fs'. sfs_io_body d_io p u fs = Some (r, u', fs') \<and> step (uio_resid u) u fs r u' fs'"
proof -
  let ?b = "upos u mod 512"
  define l where "l = (if ?b = 0 then 0 else min (512 - ?b) (uio_resid u))"
  have l: "l \<le> uio_resid u" "?b + l \<le> 512" by (auto simp: l_def)
  have r: "uio_ready (l + (uio_resid u - l)) u" using assms(2) l by simp
  note r' = uio_ready_advance [OF r]
  have bo: "u32_rem (uio_offset u) (int SFS_BLOCKSIZE) = ?b"
    using upos_block(2) [OF assms(2)] by (simp add: SFS_BLOCKSIZE_def)
  obtain r1 u1 fs1 where a: "(if ?b \<noteq> 0 then sfs_partialio d_io p ?b l u fs else Some (Inr (), u, fs)) = Some (r1, u1, fs1)"
    "step l u fs r1 u1 fs1"
    using partial [OF assms(1) r'(2) l(2)] none [OF assms(1)] r'(2) by (cases "?b = 0") (auto simp: l_def)
  have le: "?b \<noteq> 0 \<Longrightarrow> (if 512 - ?b > uio_resid u then uio_resid u else 512 - ?b) = l" by (simp add: l_def min_def)
  show ?thesis
  proof (cases r1)
    case (Inl e)
    then show ?thesis using a stop [of l u fs e u1 fs1 "uio_resid u - l"] l(1) le bo
      by (auto simp: sfs_io_body_def SFS_BLOCKSIZE_def Let_def split: if_splits)
  next
    case (Inr x)
    then have s: "step l u fs (Inr ()) u1 fs1" using a(2) by simp
    have o: "good u1 fs1" "upos u1 = upos u + l" and rs: "uio_resid u1 = uio_resid u - l"
      and r1: "uio_ready (uio_resid u1) u1"
      using onward [OF s assms(1) r] by simp_all
    obtain r2 u2 fs2 where c: "(if uio_resid u1 = 0 then Some (Inr (), u1, fs1)
       else do {
         kassert (u32_rem (uio_offset u1) (int SFS_BLOCKSIZE) = 0);
         (result, u, fs) \<leftarrow> sfs_blocks d_io p (uio_resid u1 div SFS_BLOCKSIZE) u1 fs1;
         case result of Inl e \<Rightarrow> Some (Inl e, u, fs) | Inr _ \<Rightarrow> do {
           kassert (uio_resid u < SFS_BLOCKSIZE);
           if uio_resid u > 0 then sfs_partialio d_io p 0 (uio_resid u) u fs
           else Some (Inr (), u, fs)
         }
       }) = Some (r2, u2, fs2)" "step (uio_resid u1) u1 fs1 r2 u2 fs2"
    proof (cases "uio_resid u1 = 0")
      case True
      then show ?thesis using none [OF o(1)] r1 that by simp
    next
      case False
      then have "l \<noteq> uio_resid u" using rs by simp
      then have "l = (if ?b = 0 then 0 else 512 - ?b)" by (auto simp: l_def min_def split: if_splits)
      then have z: "upos u1 mod 512 = 0" using round_up_block [of "upos u"] o(2) by simp
      have "u32_rem (uio_offset u1) (int SFS_BLOCKSIZE) = 0"
        using upos_block(2) [OF r1] z by (simp add: SFS_BLOCKSIZE_def)
      then show ?thesis using tail [OF o(1) r1 z] False that by auto
    qed
    from compose [OF s c(2) [unfolded rs] r] l(1) have "step (uio_resid u) u fs r2 u2 fs2" by simp
    moreover have "sfs_io_body d_io p u fs = Some (r2, u2, fs2)"
      unfolding sfs_io_body_def using a(1) Inr c(1) le bo
      by (auto simp: SFS_BLOCKSIZE_def Let_def split: if_splits)
    ultimately show ?thesis by blast
  qed
qed

end

section \<open>Writing\<close>

context block_device
begin

text \<open>
  \<open>k\<close> bytes of the uio have been written at its position, and why it stopped there.
\<close>

definition wrote :: "nat \<Rightarrow> nat \<Rightarrow> 'd sfs_fs \<Rightarrow> sfs_vnode \<Rightarrow> uio \<Rightarrow> 'd sfs_fs \<Rightarrow> sfs_vnode \<Rightarrow> uio \<Rightarrow> bool" where
  "wrote p k fs sv u fs' sv' u' \<longleftrightarrow> grown p fs sv fs' sv' \<and> sfi_size (sv_i sv') = sfi_size (sv_i sv) \<and>
     u' = uio_advance k u \<and>
     fbyte (disk fs') (sv_i sv') = fwrite (upos u) (uio_pending u k) (fbyte (disk fs) (sv_i sv))"

definition stopped :: "errno + unit \<Rightarrow> 'd sfs_fs \<Rightarrow> uio \<Rightarrow> bool" where
  "stopped r fs u \<longleftrightarrow> r = Inl ENOSPC \<and> busy fs = {..<nblocks_of fs} \<or> r = Inl EINVAL \<and> 143 * 512 \<le> upos u"

definition write_step :: "nat \<Rightarrow> nat \<Rightarrow> 'd sfs_fs \<Rightarrow> sfs_vnode \<Rightarrow> uio \<Rightarrow> errno + unit \<Rightarrow> uio \<Rightarrow> 'd sfs_fs \<Rightarrow> sfs_vnode \<Rightarrow> bool" where
  "write_step p len fs sv u r u' fs' sv' \<longleftrightarrow>
     (\<exists>k\<le>len. wrote p k fs sv u fs' sv' u' \<and> (r = Inr () \<and> k = len \<or> stopped r fs' u'))"

lemma wrote_trans:
  assumes "wrote p a fs sv u fs1 sv1 u1" "wrote p b fs1 sv1 u1 fs2 sv2 u2" "uio_ready (a + b) u"
  shows "wrote p (a + b) fs sv u fs2 sv2 u2"
proof -
  note w1 = assms(1) [unfolded wrote_def] and w2 = assms(2) [unfolded wrote_def]
  have ra: "uio_ready a u" using uio_ready_advance(2) [OF assms(3)] .
  have "fbyte (disk fs2) (sv_i sv2)
      = fwrite (upos u + a) (uio_pending (uio_advance a u) b)
          (fwrite (upos u) (uio_pending u a) (fbyte (disk fs) (sv_i sv)))"
    using w1 w2 upos_advance [OF ra] by simp
  also have "\<dots> = fwrite (upos u) (uio_pending u (a + b)) (fbyte (disk fs) (sv_i sv))"
    using fwrite_append [of "upos u" "uio_pending u a"] by (simp add: uio_pending_add)
  finally show ?thesis
    using w1 w2 file_grown_trans [of dev_ok nblk blk p fs sv fs1 sv1 fs2 sv2] uio_advance_add [OF assms(3)]
    by (simp add: wrote_def)
qed

lemma wrote_none:
  "grown p fs sv fs' sv' \<Longrightarrow> sfi_size (sv_i sv') = sfi_size (sv_i sv) \<Longrightarrow>
     fblock (disk fs') (sv_i sv') = fblock (disk fs) (sv_i sv) \<Longrightarrow> uio_ready 0 u \<Longrightarrow>
     wrote p 0 fs sv u fs' sv' u"
  by (simp add: wrote_def uio_advance_0 uio_pending_def fbyte_def fun_eq_iff)

lemma write_step_trans:
  assumes "write_step p a fs sv u (Inr ()) u1 fs1 sv1" "write_step p b fs1 sv1 u1 r u2 fs2 sv2"
    "uio_ready (a + b) u"
  shows "write_step p (a + b) fs sv u r u2 fs2 sv2"
proof -
  obtain k where k: "k \<le> b" "wrote p k fs1 sv1 u1 fs2 sv2 u2" "r = Inr () \<and> k = b \<or> stopped r fs2 u2"
    using assms(2) unfolding write_step_def by blast
  have w: "wrote p a fs sv u fs1 sv1 u1" using assms(1) by (auto simp: write_step_def stopped_def)
  have "uio_ready (a + k) u" using assms(3) k(1) uio_ready_advance(2) [of "a + k" "b - k" u] by simp
  from wrote_trans [OF w k(2) this] k(1,3) show ?thesis
    unfolding write_step_def by (intro exI [of _ "a + k"]) auto
qed

lemma write_step_none:
  "vol_ok fs \<Longrightarrow> sfs_node fs p = Some sv \<Longrightarrow> file_ok blk fs (sv_i sv) \<Longrightarrow> uio_ready 0 u \<Longrightarrow>
     write_step p 0 fs sv u (Inr ()) u fs sv"
  unfolding write_step_def by (intro exI [of _ 0]) (simp add: wrote_none file_grown_refl)

text \<open>Overwriting one data block of a file.\<close>

lemma put_data:
  assumes "vol_ok fs" "sfs_node fs p = Some sv" "file_ok blk fs (sv_i sv)" "n < 143"
    "imap (disk fs) (sv_i sv) n = b" "b \<noteq> 0" "stored b data fs fs'"
  shows "grown p fs sv fs' sv" "fblock (disk fs') (sv_i sv) = (fblock (disk fs) (sv_i sv))(n := data)"
proof -
  note st = stored_facts [OF assms(1,7)]
  have ok: "inode_ok (disk fs) (sv_i sv)" using assms(3) by (simp add: file_ok_def)
  note up = data_block_update [OF ok assms(4,5,6), of data]
  show "fblock (disk fs') (sv_i sv) = (fblock (disk fs) (sv_i sv))(n := data)" using up(2) st(2) by simp
  have m: "imap (disk fs') (sv_i sv) = imap (disk fs) (sv_i sv)" using up(1) st(2) by simp
  have b: "b \<in> own (disk fs) (sv_i sv)" using imap_own [of "disk fs" "sv_i sv" n] assms(5,6) by simp
  have n: "sfs_node fs' p = Some sv" "file_ok blk fs' (sv_i sv)"
    using assms(2,3) st(3) fs_core_node [OF st(4)] own_cong [OF m] inode_ok_cong [OF m]
    by (simp_all add: file_ok_def)
  show "grown p fs sv fs' sv"
    using file_grown_refl [OF st(1) n] fs_core_frame [OF st(4) fs_frame_refl, of p] st(2,3) own_cong [OF m] b
    by (auto simp: file_grown_def)
qed

text \<open>A block of a well-formed file is 512 bytes long.\<close>

lemma fblock_length:
  assumes "vol_ok fs" "file_ok blk fs i"
  shows "length (fblock (disk fs) i n) = 512"
  using imap_own [of "disk fs" i n] assms disk_length [OF assms(1)]
  by (auto simp: fblock_def file_ok_def)

lemma grown_dest:
  assumes "grown p fs sv fs' sv'"
  shows "vol_ok fs'" "sfs_node fs' p = Some sv'" "file_ok blk fs' (sv_i sv')"
  using assms by (simp_all add: file_grown_def)

text \<open>
  A step that maps the block at the position of the uio and, when that worked, puts \<open>len\<close>
  bytes into it.
\<close>

lemma map_then_put:
  assumes "vol_ok fs" "sfs_node fs p = Some sv" "file_ok blk fs (sv_i sv)" "uio_ready len u"
    and fail: "\<And>e fs1. sfs_bmap d_io p (upos u div 512) True fs = Some (Inl e, fs1) \<Longrightarrow> run = Some (Inl e, u, fs1)"
    and put: "\<And>r fs1 sv1. sfs_bmap d_io p (upos u div 512) True fs = Some (r, fs1) \<Longrightarrow> grown p fs sv fs1 sv1 \<Longrightarrow>
      r = Inr (imap (disk fs1) (sv_i sv1) (upos u div 512)) \<and> imap (disk fs1) (sv_i sv1) (upos u div 512) \<noteq> 0 \<Longrightarrow>
      upos u div 512 < 143 \<Longrightarrow>
      \<exists>fs'. run = Some (Inr (), uio_advance len u, fs') \<and> wrote p len fs1 sv1 u fs' sv1 (uio_advance len u)"
  shows "\<exists>r u' fs' sv'. run = Some (r, u', fs') \<and> write_step p len fs sv u r u' fs' sv'"
proof -
  let ?n = "upos u div 512"
  have r0: "uio_ready 0 u" using uio_ready_advance(2) [of 0 len u] assms(4) by simp
  show ?thesis
  proof (cases "?n < 143")
    case False
    then have "143 * 512 \<le> upos u" by (simp add: not_less less_eq_div_iff_mult_less_eq)
    then have "write_step p len fs sv u (Inl EINVAL) u fs sv"
      using wrote_none [OF file_grown_refl [OF assms(1-3)] refl refl r0]
      unfolding write_step_def stopped_def by (intro exI [of _ 0]) simp
    moreover have "run = Some (Inl EINVAL, u, fs)"
      using bmap_beyond [OF assms(2), of ?n] False fail by simp
    ultimately show ?thesis by blast
  next
    case True
    obtain r fs1 sv1 where m: "sfs_bmap d_io p ?n True fs = Some (r, fs1)" "grown p fs sv fs1 sv1"
      "fblock (disk fs1) (sv_i sv1) = fblock (disk fs) (sv_i sv)" "sfi_size (sv_i sv1) = sfi_size (sv_i sv)"
      "r = Inl ENOSPC \<and> busy fs1 = {..<nblocks_of fs1} \<or>
       r = Inr (imap (disk fs1) (sv_i sv1) ?n) \<and> imap (disk fs1) (sv_i sv1) ?n \<noteq> 0"
      using bmap_alloc [OF assms(1-3) True] unfolding bmapped_def by blast
    note w0 = wrote_none [OF m(2,4,3) r0]
    from m(5) show ?thesis
    proof
      assume e: "r = Inl ENOSPC \<and> busy fs1 = {..<nblocks_of fs1}"
      then have "write_step p len fs sv u (Inl ENOSPC) u fs1 sv1"
        using w0 unfolding write_step_def stopped_def by (intro exI [of _ 0]) simp
      then show ?thesis using fail m(1) e by blast
    next
      assume e: "r = Inr (imap (disk fs1) (sv_i sv1) ?n) \<and> imap (disk fs1) (sv_i sv1) ?n \<noteq> 0"
      from put [OF m(1,2) e True] show ?thesis
        using wrote_trans [OF w0 _, of len _ _ _] assms(4) unfolding write_step_def
        by (metis add_0 order_refl)
    qed
  qed
qed

text \<open>The part of \<^verbatim>\<open>sfs_partialio\<close> after the block has been mapped.\<close>

lemma partial_put:
  assumes "uio_rw u = UIO_WRITE" "uio_ready len u" "s = upos u mod 512" "s + len \<le> 512"
    "sfs_bmap d_io p (upos u div 512) True fs = Some (r, fs1)" "grown p fs sv fs1 sv1"
    "r = Inr (imap (disk fs1) (sv_i sv1) (upos u div 512)) \<and> imap (disk fs1) (sv_i sv1) (upos u div 512) \<noteq> 0"
    "upos u div 512 < 143"
  shows "\<exists>fs'. sfs_partialio d_io p s len u fs = Some (Inr (), uio_advance len u, fs') \<and>
    wrote p len fs1 sv1 u fs' sv1 (uio_advance len u)"
proof -
  let ?n = "upos u div 512"
  define b where "b = imap (disk fs1) (sv_i sv1) ?n"
  let ?buf = "disk fs1 b"
  let ?new = "patch s (uio_pending u len) ?buf"
  note g = grown_dest [OF assms(6)] and pos = upos_block [OF assms(2)]
  have b: "b \<noteq> 0" "b \<in> busy fs1" "?buf = fblock (disk fs1) (sv_i sv1) ?n"
    using assms(7) imap_own [of "disk fs1" "sv_i sv1" ?n] g(3) by (auto simp: b_def file_ok_def fblock_def)
  have len: "length ?buf = 512" using disk_length [OF g(1) b(2)] .
  obtain fs2 where r: "sfs_rblock d_io b fs1 = Some (Inr ?buf, fs2)" "quiet fs1 fs2"
    using rblock_reads [OF vol_dev [OF g(1)] busy_device [OF g(1) b(2)]] by blast
  note q = quiet_facts [OF g(1) r(2)] and qg = quiet_grown [OF g r(2)]
  have mv: "uiomove (drop s ?buf) len u
      = Some (Inr (), uio_pending u len @ drop len (drop s ?buf), uio_advance len u)"
    using uiomove_write [OF assms(2,1), of "drop s ?buf"] len assms(4) by simp
  have new: "take s ?buf @ uio_pending u len @ drop len (drop s ?buf) = ?new" "length ?new = 512"
    using len assms(4) by (simp_all add: patch_def add.commute)
  have bb: "b \<in> busy fs2" using b(2) q(3) by simp
  obtain fs' where w: "sfs_wblock d_io ?new b fs2 = Some (Inr (), fs')" "stored b ?new fs2 fs'"
    using wblock_stores [OF vol_dev [OF q(1)] busy_device [OF q(1) bb] new(2)] by blast
  have "imap (disk fs2) (sv_i sv1) ?n = b" by (simp add: b_def q(2))
  note pd = put_data [OF q(1) qg(2,3) assms(8) this b(1) w(2)]
  have "fbyte (disk fs') (sv_i sv1)
      = fwrite (512 * ?n + s) (uio_pending u len) (fbyte (disk fs1) (sv_i sv1))"
    using pd(2) q(2) b(3) assms(4) fblock_length [OF g(1,3)] by (intro fblock_fbyte) simp_all
  moreover have "512 * ?n + s = upos u" by (simp add: assms(3))
  ultimately have "wrote p len fs1 sv1 u fs' sv1 (uio_advance len u)"
    using file_grown_trans [OF qg(1) pd(1)] by (simp add: wrote_def)
  moreover have "sfs_bmap d_io p ?n True fs = Some (Inr b, fs1)" using assms(5,7) by (simp add: b_def)
  then have "sfs_partialio d_io p s len u fs = Some (Inr (), uio_advance len u, fs')"
    using assms(1,4) pos(1) r(1) mv w(1) new(1) b(1) by (simp add: sfs_partialio_def SFS_BLOCKSIZE_def)
  ultimately show ?thesis by blast
qed

lemma partialio_write:
  assumes "vol_ok fs" "sfs_node fs p = Some sv" "file_ok blk fs (sv_i sv)"
    "uio_rw u = UIO_WRITE" "uio_ready len u" "s = upos u mod 512" "s + len \<le> 512"
  shows "\<exists>r u' fs' sv'. sfs_partialio d_io p s len u fs = Some (r, u', fs') \<and>
    write_step p len fs sv u r u' fs' sv'"
proof (rule map_then_put [OF assms(1-3,5)])
  show "sfs_partialio d_io p s len u fs = Some (Inl e, u, fs1)"
    if "sfs_bmap d_io p (upos u div 512) True fs = Some (Inl e, fs1)" for e fs1
    using that assms(4,7) upos_block(1) [OF assms(5)] by (simp add: sfs_partialio_def SFS_BLOCKSIZE_def)
qed (rule partial_put [OF assms(4-7)])

lemma rwblock_write:
  assumes "vol_ok fs" "b \<in> busy fs" "uio_rw u = UIO_WRITE" "uio_ready 512 u"
  shows "\<exists>fs'. sfs_rwblock d_io (uio_lend b u) fs = Some (Inr (), uio_advance 512 (uio_lend b u), fs') \<and>
    stored b (uio_pending u 512) fs fs'" "b + 1 < 2 ^ 22"
proof -
  note d = vol_dev [OF assms(1)] busy_device [OF assms(1,2)]
  show b: "b + 1 < 2 ^ 22" using d nblk_bound [OF d(1)] by simp
  note l = uio_lend_ready [OF assms(4) b]
  obtain d' where "sfs_rwtry d_io 0 (sfs_device fs) (uio_lend b u) = Some (Inr (), uio_advance 512 (uio_lend b u), d')"
    "dev_ok d'" "nblk d' = nblk (sfs_device fs)" "blk d' = (blk (sfs_device fs))(b := uio_pending u 512)"
    using rwtry_write [OF d, of "uio_lend b u"] l assms(3) by auto
  then show "\<exists>fs'. sfs_rwblock d_io (uio_lend b u) fs = Some (Inr (), uio_advance 512 (uio_lend b u), fs') \<and>
    stored b (uio_pending u 512) fs fs'"
    by (auto simp: sfs_rwblock_def stored_def)
qed

text \<open>The part of \<^verbatim>\<open>sfs_blockio\<close> after the block has been mapped.\<close>

lemma block_put:
  assumes "uio_rw u = UIO_WRITE" "uio_ready 512 u" "upos u mod 512 = 0"
    "sfs_bmap d_io p (upos u div 512) True fs = Some (r, fs1)" "grown p fs sv fs1 sv1"
    "r = Inr (imap (disk fs1) (sv_i sv1) (upos u div 512)) \<and> imap (disk fs1) (sv_i sv1) (upos u div 512) \<noteq> 0"
    "upos u div 512 < 143"
  shows "\<exists>fs'. sfs_blockio d_io p u fs = Some (Inr (), uio_advance 512 u, fs') \<and>
    wrote p 512 fs1 sv1 u fs' sv1 (uio_advance 512 u)"
proof -
  let ?n = "upos u div 512"
  define b where "b = imap (disk fs1) (sv_i sv1) ?n"
  let ?new = "uio_pending u 512"
  note g = grown_dest [OF assms(5)] and pos = upos_block [OF assms(2)]
  have b: "b \<noteq> 0" "b \<in> busy fs1"
    using assms(6) imap_own [of "disk fs1" "sv_i sv1" ?n] g(3) by (auto simp: b_def file_ok_def)
  obtain fs' where w: "sfs_rwblock d_io (uio_lend b u) fs1 = Some (Inr (), uio_advance 512 (uio_lend b u), fs')"
    "stored b ?new fs1 fs'"
    using rwblock_write(1) [OF g(1) b(2) assms(1,2)] by blast
  note bk = uio_lend_back [OF assms(2) rwblock_write(2) [OF g(1) b(2) assms(1,2)]]
  note pd = put_data [OF g assms(7) b_def [symmetric] b(1) w(2)]
  have len: "length (fblock (disk fs1) (sv_i sv1) ?n) = 512" using fblock_length [OF g(1,3)] .
  have "fbyte (disk fs') (sv_i sv1) = fwrite (512 * ?n + 0) ?new (fbyte (disk fs1) (sv_i sv1))"
    using pd(2) len by (intro fblock_fbyte) (simp_all add: patch_def)
  moreover have "512 * ?n + 0 = upos u" using assms(3) by (metis add.right_neutral mult_div_mod_eq)
  ultimately have "wrote p 512 fs1 sv1 u fs' sv1 (uio_advance 512 u)"
    using pd(1) by (simp add: wrote_def)
  moreover have "sfs_bmap d_io p ?n True fs = Some (Inr b, fs1)" using assms(4,6) by (simp add: b_def)
  then have "sfs_blockio d_io p u fs = Some (Inr (), uio_advance 512 u, fs')"
    using assms(1) pos(1) w(1) b(1) bk uio_ready_resid [OF assms(2)]
    by (simp add: sfs_blockio_def SFS_BLOCKSIZE_def Let_def uio_lend_fold)
  ultimately show ?thesis by blast
qed

lemma blockio_write:
  assumes "vol_ok fs" "sfs_node fs p = Some sv" "file_ok blk fs (sv_i sv)"
    "uio_rw u = UIO_WRITE" "uio_ready 512 u" "upos u mod 512 = 0"
  shows "\<exists>r u' fs' sv'. sfs_blockio d_io p u fs = Some (r, u', fs') \<and>
    write_step p 512 fs sv u r u' fs' sv'"
proof (rule map_then_put [OF assms(1-3,5)])
  show "sfs_blockio d_io p u fs = Some (Inl e, u, fs1)"
    if "sfs_bmap d_io p (upos u div 512) True fs = Some (Inl e, fs1)" for e fs1
    using that assms(4) upos_block(1) [OF assms(5)] by (simp add: sfs_blockio_def SFS_BLOCKSIZE_def)
qed (rule block_put [OF assms(4-6)])

lemma write_step_good:
  assumes "write_step p len fs sv u r u' fs' sv'"
  shows "vol_ok fs'" "sfs_node fs' p = Some sv'" "file_ok blk fs' (sv_i sv')" "uio_rw u' = uio_rw u"
    "r = Inr () \<Longrightarrow> u' = uio_advance len u"
proof -
  obtain k where k: "wrote p k fs sv u fs' sv' u'" "r = Inr () \<and> k = len \<or> stopped r fs' u'"
    using assms unfolding write_step_def by blast
  then have g: "grown p fs sv fs' sv'" and u: "u' = uio_advance k u" by (simp_all add: wrote_def)
  show "vol_ok fs'" "sfs_node fs' p = Some sv'" "file_ok blk fs' (sv_i sv')" by (rule grown_dest [OF g])+
  show "uio_rw u' = uio_rw u" by (simp add: u)
  show "r = Inr () \<Longrightarrow> u' = uio_advance len u" using k(2) u by (elim disjE) (simp_all add: stopped_def)
qed

definition write_good :: "nat \<Rightarrow> uio \<Rightarrow> 'd sfs_fs \<Rightarrow> bool" where
  "write_good p u fs \<longleftrightarrow> vol_ok fs \<and> uio_rw u = UIO_WRITE \<and>
     (\<exists>sv. sfs_node fs p = Some sv \<and> file_ok blk fs (sv_i sv))"

definition write_rel :: "nat \<Rightarrow> nat \<Rightarrow> uio \<Rightarrow> 'd sfs_fs \<Rightarrow> errno + unit \<Rightarrow> uio \<Rightarrow> 'd sfs_fs \<Rightarrow> bool" where
  "write_rel p len u fs r u' fs' \<longleftrightarrow>
     write_step p len fs (the (sfs_node fs p)) u r u' fs' (the (sfs_node fs' p))"

lemma write_good_node:
  assumes "write_good p u fs"
  shows "vol_ok fs" "sfs_node fs p = Some (the (sfs_node fs p))" "file_ok blk fs (sv_i (the (sfs_node fs p)))"
    "uio_rw u = UIO_WRITE"
  using assms by (auto simp: write_good_def)

lemma write_relI:
  assumes "\<exists>r u' fs' sv'. run = Some (r, u', fs') \<and> write_step p len fs (the (sfs_node fs p)) u r u' fs' sv'"
  shows "\<exists>r u' fs'. run = Some (r, u', fs') \<and> write_rel p len u fs r u' fs'"
proof -
  obtain r u' fs' sv' where *: "run = Some (r, u', fs')" "write_step p len fs (the (sfs_node fs p)) u r u' fs' sv'"
    using assms by blast
  have "write_rel p len u fs r u' fs'" using *(2) write_step_good(2) [OF *(2)] by (simp only: write_rel_def option.sel)
  then show ?thesis using *(1) by blast
qed

lemma write_step_stop:
  assumes "write_step p a fs sv u (Inl e) u1 fs1 sv1"
  shows "write_step p (a + b) fs sv u (Inl e) u1 fs1 sv1"
proof -
  obtain k where "k \<le> a" "wrote p k fs sv u fs1 sv1 u1" "stopped (Inl e) fs1 u1"
    using assms unfolding write_step_def by blast
  then show ?thesis unfolding write_step_def by (intro exI [of _ k]) simp
qed

lemma write_steps: "block_steps d_io p (write_good p) (write_rel p)"
proof
  show "write_rel p 0 u fs (Inr ()) u fs" if "write_good p u fs" "uio_ready 0 u" for u fs
    unfolding write_rel_def by (rule write_step_none [OF write_good_node(1-3) [OF that(1)] that(2)])
  show "write_rel p (a + b) u fs r u2 fs2"
    if "write_rel p a u fs (Inr ()) u1 fs1" "write_rel p b u1 fs1 r u2 fs2" "uio_ready (a + b) u"
    for a b u fs r u1 fs1 u2 fs2
    using write_step_trans [OF that(1,2) [unfolded write_rel_def] that(3)] by (simp only: write_rel_def)
  show "write_rel p (a + b) u fs (Inl e) u1 fs1" if "write_rel p a u fs (Inl e) u1 fs1" for a b u fs e u1 fs1
    using write_step_stop [OF that [unfolded write_rel_def]] by (simp only: write_rel_def)
  show "write_good p u1 fs1 \<and> uio_ready b u1 \<and> upos u1 = upos u + a \<and> uio_resid u1 = uio_resid u - a"
    if "write_rel p a u fs (Inr ()) u1 fs1" "write_good p u fs" "uio_ready (a + b) u" for a b u fs u1 fs1
  proof -
    note g = write_step_good [OF that(1) [unfolded write_rel_def]] and r = uio_ready_advance [OF that(3)]
    have "uio_rw u1 = UIO_WRITE" using g(4) write_good_node(4) [OF that(2)] by simp
    then have "write_good p u1 fs1" unfolding write_good_def by (intro conjI exI) (rule g | assumption)+
    then show ?thesis using g(5) [OF refl] r(1) upos_advance [OF r(2)] uio_advance_counts(1) [OF r(2)] by simp
  qed
  show "\<exists>r u' fs'. sfs_blockio d_io p u fs = Some (r, u', fs') \<and> write_rel p 512 u fs r u' fs'"
    if "write_good p u fs" "uio_ready 512 u" "upos u mod 512 = 0" for u fs
    by (rule write_relI [OF blockio_write [OF write_good_node [OF that(1)] that(2,3)]])
  show "\<exists>r u' fs'. sfs_partialio d_io p (upos u mod 512) len u fs = Some (r, u', fs') \<and> write_rel p len u fs r u' fs'"
    if "write_good p u fs" "uio_ready len u" "upos u mod 512 + len \<le> 512" for u fs len
    by (rule write_relI [OF partialio_write [OF write_good_node [OF that(1)] that(2) refl that(3)]])
qed

end

sublocale block_device \<subseteq> writes: block_steps d_io p "write_good p" "write_rel p" for p
  by (rule write_steps)

section \<open>Reading\<close>

definition fbytes :: "(nat \<Rightarrow> bytes) \<Rightarrow> sfs_inode \<Rightarrow> nat \<Rightarrow> nat \<Rightarrow> bytes" where
  "fbytes D i pos n = map (fbyte D i) [pos..<pos + n]"

lemma fbytes_length [simp]: "length (fbytes D i pos n) = n"
  by (simp add: fbytes_def)

lemma fbytes_add: "fbytes D i pos (a + b) = fbytes D i pos a @ fbytes D i (pos + a) b"
  using upt_add_eq_append [of pos "pos + a" b] by (simp add: fbytes_def add.assoc)

lemma fbytes_block:
  assumes "length (fblock D i n) = 512" "s + len \<le> 512"
  shows "take len (drop s (fblock D i n)) = fbytes D i (512 * n + s) len"
proof (rule nth_equalityI)
  fix k assume "k < length (take len (drop s (fblock D i n)))"
  then have k: "k < len" "s + k < 512" using assms by auto
  have "(512 * n + s + k) div 512 = n" "(512 * n + s + k) mod 512 = s + k"
    using k by (simp_all add: add.assoc)
  then show "take len (drop s (fblock D i n)) ! k = fbytes D i (512 * n + s) len ! k"
    using k assms by (simp add: fbytes_def fbyte_def)
qed (use assms in simp)

lemma uio_lend_deliver:
  assumes "uio_ready 512 u" "b + 1 < 2 ^ 22" "length xs = 512"
  defines "u' \<equiv> uio_deliver xs (uio_lend b u)"
  shows "u'\<lparr> uio_offset := off32 (uio_offset u' - off32 (int (b * SFS_BLOCKSIZE)) + uio_offset u),
      uio_resid := nat ((int (uio_resid u') - int SFS_BLOCKSIZE + int (uio_resid u)) mod 2 ^ 32) \<rparr>
    = uio_deliver xs u"
proof -
  let ?v = "u\<lparr> uio_mem := mem_put (uio_mem u) (iov_base u) xs \<rparr>"
  have "(uio_lend b u)\<lparr> uio_mem := uio_mem ?v \<rparr> = uio_lend b ?v"
    by (intro uio.equality) (simp_all add: uio_lend_def)
  moreover have "uio_mem (uio_lend b u) = uio_mem u" "iov_base (uio_lend b u) = iov_base u"
    by (simp_all add: uio_lend_def)
  ultimately have "u' = uio_advance 512 (uio_lend b ?v)"
    using assms(3) by (simp add: u'_def uio_deliver_def)
  then show ?thesis using uio_lend_back [of ?v b] assms(1-3) by (simp add: uio_deliver_def)
qed

context block_device
begin

definition read_good :: "nat \<Rightarrow> sfs_vnode \<Rightarrow> (nat \<Rightarrow> bytes) \<Rightarrow> uio \<Rightarrow> 'd sfs_fs \<Rightarrow> bool" where
  "read_good p sv D u fs \<longleftrightarrow> vol_ok fs \<and> uio_rw u = UIO_READ \<and> sfs_node fs p = Some sv \<and>
     file_ok blk fs (sv_i sv) \<and> disk fs = D \<and> upos u + uio_resid u \<le> 143 * 512"

text \<open>\<open>len\<close> bytes of the file have been delivered.\<close>

definition read_rel :: "sfs_vnode \<Rightarrow> (nat \<Rightarrow> bytes) \<Rightarrow> nat \<Rightarrow> uio \<Rightarrow> 'd sfs_fs \<Rightarrow> errno + unit \<Rightarrow>
    uio \<Rightarrow> 'd sfs_fs \<Rightarrow> bool" where
  "read_rel sv D len u fs r u' fs' \<longleftrightarrow> quiet fs fs' \<and> r = Inr () \<and>
     u' = uio_deliver (fbytes D (sv_i sv) (upos u) len) u"

lemma quiet_trans: "quiet a b \<Longrightarrow> quiet b c \<Longrightarrow> quiet a c"
  by (auto simp: quiet_def)

lemma upos_deliver: "uio_ready (length xs) u \<Longrightarrow> upos (uio_deliver xs u) = upos u + length xs"
  using uio_deliver_counts(2) [of xs u] by (simp add: upos_def uio_ready_def nat_add_distrib)

lemma read_rel_trans:
  assumes "read_rel sv D a u fs (Inr ()) u1 fs1" "read_rel sv D b u1 fs1 r u2 fs2" "uio_ready (a + b) u"
  shows "read_rel sv D (a + b) u fs r u2 fs2"
proof -
  let ?f = "fbytes D (sv_i sv)"
  have "uio_ready (length (?f (upos u) a)) u" using uio_ready_advance(2) [OF assms(3)] by simp
  note p = upos_deliver [OF this]
  show ?thesis
    using assms p uio_deliver_append [of "?f (upos u) a" "?f (upos u + a) b" u] quiet_trans [of fs fs1 fs2]
    by (simp add: read_rel_def fbytes_add)
qed

text \<open>A step that looks up the block at the position of the uio and delivers \<open>len\<close> bytes of it.\<close>

lemma lookup_then_deliver:
  assumes "read_good p sv D u fs" "uio_ready len u" "upos u mod 512 + len \<le> 512" "0 < len \<or> upos u mod 512 \<noteq> 0"
    and deliver: "\<And>b fs1. sfs_bmap d_io p (upos u div 512) False fs = Some (Inr b, fs1) \<Longrightarrow> read_good p sv D u fs1 \<Longrightarrow>
      b = imap D (sv_i sv) (upos u div 512) \<Longrightarrow> length (fblock D (sv_i sv) (upos u div 512)) = 512 \<Longrightarrow>
      \<exists>fs'. run = Some (Inr (), uio_deliver (take len (drop (upos u mod 512) (fblock D (sv_i sv) (upos u div 512)))) u, fs') \<and>
        quiet fs1 fs'"
  shows "\<exists>r u' fs'. run = Some (r, u', fs') \<and> read_rel sv D len u fs r u' fs'"
proof -
  let ?n = "upos u div 512"
  note g = assms(1) [unfolded read_good_def]
  have "upos u + len \<le> 143 * 512" using g uio_ready_resid [OF assms(2)] by simp
  moreover from assms(4) have "0 < len \<or> upos u \<noteq> 143 * 512" by auto
  ultimately have "upos u < 143 * 512" by linarith
  then have n: "?n < 143" by (simp add: div_less_iff_less_mult)
  obtain fs1 where m: "sfs_bmap d_io p ?n False fs = Some (Inr (imap D (sv_i sv) ?n), fs1)" "quiet fs fs1"
    using bmap_lookup [of fs p sv ?n False] g n by auto
  note q = quiet_facts [OF conjunct1 [OF g] m(2)] quiet_grown [of fs p sv fs1]
  have "read_good p sv D u fs1" using g q m(2) by (simp add: read_good_def)
  moreover have l: "length (fblock D (sv_i sv) ?n) = 512" using fblock_length [of fs "sv_i sv" ?n] g by simp
  ultimately obtain fs' where "run = Some (Inr (), uio_deliver (fbytes D (sv_i sv) (512 * ?n + upos u mod 512) len) u, fs')"
    "quiet fs1 fs'"
    using deliver [OF m(1)] fbytes_block [OF l assms(3)] by auto
  then show ?thesis using quiet_trans [OF m(2)] by (auto simp: read_rel_def)
qed

lemma partialio_read:
  assumes "read_good p sv D u fs" "uio_ready len u" "upos u mod 512 + len \<le> 512" "0 < len \<or> upos u mod 512 \<noteq> 0"
  shows "\<exists>r u' fs'. sfs_partialio d_io p (upos u mod 512) len u fs = Some (r, u', fs') \<and>
    read_rel sv D len u fs r u' fs'"
proof (rule lookup_then_deliver [OF assms])
  let ?n = "upos u div 512" and ?s = "upos u mod 512"
  have rw: "uio_rw u = UIO_READ" using assms(1) by (simp add: read_good_def)
  note pos = upos_block(1) [OF assms(2)]
  show "\<exists>fs'. sfs_partialio d_io p ?s len u fs
      = Some (Inr (), uio_deliver (take len (drop ?s (fblock D (sv_i sv) ?n))) u, fs') \<and> quiet fs1 fs'"
    if m: "sfs_bmap d_io p ?n False fs = Some (Inr b, fs1)" "read_good p sv D u fs1"
      "b = imap D (sv_i sv) ?n" "length (fblock D (sv_i sv) ?n) = 512" for b fs1
  proof -
    note g = m(2) [unfolded read_good_def]
    obtain fs2 where f: "(if b = 0 then Some (Inr zero_block, fs1) else sfs_rblock d_io b fs1)
        = Some (Inr (fblock D (sv_i sv) ?n), fs2)" "quiet fs1 fs2"
    proof (cases "b = 0")
      case True
      then show ?thesis using that m(3) g quiet_refl by (simp add: fblock_def)
    next
      case False
      then have b: "b \<in> busy fs1" using m(3) imap_own [of D "sv_i sv" ?n] g by (auto simp: file_ok_def)
      then show ?thesis using rblock_reads [OF vol_dev busy_device, of fs1 b] g m(3) False that
        by (auto simp: fblock_def)
    qed
    have "uiomove (drop ?s (fblock D (sv_i sv) ?n)) len u = Some (Inr (), drop ?s (fblock D (sv_i sv) ?n),
        uio_deliver (take len (drop ?s (fblock D (sv_i sv) ?n))) u)"
      using uiomove_read [OF assms(2) rw] m(4) assms(3) by simp
    then have "sfs_partialio d_io p ?s len u fs
        = Some (Inr (), uio_deliver (take len (drop ?s (fblock D (sv_i sv) ?n))) u, fs2)"
      unfolding sfs_partialio_def zero_block_def [symmetric]
      using m(1) f(1) rw assms(3) pos by (cases "b = 0") (simp_all add: SFS_BLOCKSIZE_def)
    then show ?thesis using f(2) by blast
  qed
qed

lemma blockio_read:
  assumes "read_good p sv D u fs" "uio_ready 512 u" "upos u mod 512 = 0"
  shows "\<exists>r u' fs'. sfs_blockio d_io p u fs = Some (r, u', fs') \<and> read_rel sv D 512 u fs r u' fs'"
proof (rule lookup_then_deliver [OF assms(1,2)])
  let ?n = "upos u div 512"
  have rw: "uio_rw u = UIO_READ" using assms(1) by (simp add: read_good_def)
  note pos = upos_block(1) [OF assms(2)]
  show "upos u mod 512 + 512 \<le> 512" "0 < (512::nat) \<or> upos u mod 512 \<noteq> 0" using assms(3) by simp_all
  show "\<exists>fs'. sfs_blockio d_io p u fs
      = Some (Inr (), uio_deliver (take 512 (drop (upos u mod 512) (fblock D (sv_i sv) ?n))) u, fs') \<and> quiet fs1 fs'"
    if m: "sfs_bmap d_io p ?n False fs = Some (Inr b, fs1)" "read_good p sv D u fs1"
      "b = imap D (sv_i sv) ?n" "length (fblock D (sv_i sv) ?n) = 512" for b fs1
  proof (cases "b = 0")
    case True
    have "uiomovezeros 512 u = Some (Inr (), uio_deliver zero_block u)"
      using uiomovezeros_delivers [OF assms(2) rw] by (simp add: zero_block_def SFS_BLOCKSIZE_def)
    then show ?thesis
      using True m rw pos assms(3) quiet_refl [of fs1]
      by (simp add: sfs_blockio_def SFS_BLOCKSIZE_def fblock_def read_good_def)
  next
    case False
    note g = m(2) [unfolded read_good_def]
    have b: "b \<in> busy fs1" using False m(3) imap_own [of D "sv_i sv" ?n] g by (auto simp: file_ok_def)
    have d: "dev_ok (sfs_device fs1)" "b < nblk (sfs_device fs1)" using vol_dev busy_device b g by blast+
    have b22: "b + 1 < 2 ^ 22" using d nblk_bound [OF d(1)] by simp
    note l = uio_lend_ready [OF assms(2) b22]
    have D: "blk (sfs_device fs1) b = fblock D (sv_i sv) ?n"
      using False m(3) g by (auto simp: fblock_def disk_of_def)
    obtain d' where "sfs_rwtry d_io 0 (sfs_device fs1) (uio_lend b u)
        = Some (Inr (), uio_deliver (fblock D (sv_i sv) ?n) (uio_lend b u), d')"
      "dev_ok d'" "nblk d' = nblk (sfs_device fs1)" "blk d' = blk (sfs_device fs1)"
      using rwtry_read [OF d, of "uio_lend b u"] l rw D by auto
    then obtain fs2 where w: "sfs_rwblock d_io (uio_lend b u) fs1
        = Some (Inr (), uio_deliver (fblock D (sv_i sv) ?n) (uio_lend b u), fs2)" "quiet fs1 fs2"
      by (auto simp: sfs_rwblock_def quiet_def)
    have "sfs_blockio d_io p u fs = Some (Inr (), uio_deliver (fblock D (sv_i sv) ?n) u, fs2)"
      using uio_lend_deliver [OF assms(2) b22 m(4)] m(1) rw pos w(1) False uio_ready_resid [OF assms(2)]
      by (simp add: sfs_blockio_def SFS_BLOCKSIZE_def Let_def uio_lend_fold)
    then show ?thesis using w(2) assms(3) m(4) by simp
  qed
qed

lemma read_steps: "block_steps d_io p (read_good p sv D) (read_rel sv D)"
proof
  show "read_rel sv D 0 u fs (Inr ()) u fs" if "read_good p sv D u fs" "uio_ready 0 u" for u fs
    using that uio_deliver_Nil quiet_refl by (simp add: read_rel_def read_good_def fbytes_def)
  show "read_rel sv D (a + b) u fs r u2 fs2"
    if "read_rel sv D a u fs (Inr ()) u1 fs1" "read_rel sv D b u1 fs1 r u2 fs2" "uio_ready (a + b) u"
    for a b u fs r u1 fs1 u2 fs2
    by (rule read_rel_trans [OF that])
  show "read_rel sv D (a + b) u fs (Inl e) u1 fs1" if "read_rel sv D a u fs (Inl e) u1 fs1" for a b u fs e u1 fs1
    using that by (simp add: read_rel_def)
  show "read_good p sv D u1 fs1 \<and> uio_ready b u1 \<and> upos u1 = upos u + a \<and> uio_resid u1 = uio_resid u - a"
    if s: "read_rel sv D a u fs (Inr ()) u1 fs1" "read_good p sv D u fs" "uio_ready (a + b) u" for a b u fs u1 fs1
  proof -
    let ?xs = "fbytes D (sv_i sv) (upos u) a"
    have u: "u1 = uio_deliver ?xs u" "quiet fs fs1" using s(1) by (auto simp: read_rel_def)
    have r: "uio_ready (length ?xs + b) u" "uio_ready (length ?xs) u"
      using s(3) uio_ready_advance(2) [OF s(3)] by simp_all
    have "read_good p sv D u1 fs1"
      using s(2) u quiet_facts [of fs fs1] quiet_grown [of fs p sv fs1] upos_deliver [OF r(2)]
        uio_deliver_counts(1) [OF r(2)] uio_ready_resid [OF r(2)] by (simp add: read_good_def)
    then show ?thesis using u(1) uio_ready_deliver [OF r(1)] upos_deliver [OF r(2)] uio_deliver_counts(1) [OF r(2)]
      by simp
  qed
qed (erule (2) blockio_read | erule (3) partialio_read)+

end

sublocale block_device \<subseteq> reads: block_steps d_io p "read_good p sv D" "read_rel sv D" for p sv D
  by (rule read_steps)

section \<open>File I/O\<close>

lemma off32_nat: "n < 2 ^ 31 \<Longrightarrow> off32 (int n) = int n"
  by (simp add: off32_id)

lemma uio_resid_same: "uio_resid u < 2 ^ 32 \<Longrightarrow> u\<lparr> uio_resid := uio_resid u mod 4294967296 \<rparr> = u"
  by simp

context block_device
begin

text \<open>Setting the size of a file leaves its bytes and its blocks alone.\<close>

lemma resize_grown:
  fixes w :: u32
  assumes "vol_ok fs" "sfs_node fs p = Some sv" "file_ok blk fs (sv_i sv)"
  defines "sv' \<equiv> sv\<lparr> sv_i := (sv_i sv)\<lparr> sfi_size := w \<rparr>, sv_dirty := True \<rparr>"
  shows "grown p fs sv (upd_inode p (\<lambda>i. i\<lparr> sfi_size := w \<rparr>) fs) sv'"
    "fbyte (disk fs) (sv_i sv') = fbyte (disk fs) (sv_i sv)"
proof -
  have m: "imap (disk fs) (sv_i sv') = imap (disk fs) (sv_i sv)" by (simp add: sv'_def imap_def fun_eq_iff)
  then show "fbyte (disk fs) (sv_i sv') = fbyte (disk fs) (sv_i sv)"
    by (simp add: fbyte_def fblock_def fun_eq_iff)
  have o: "own (disk fs) (sv_i sv') = own (disk fs) (sv_i sv)" unfolding own_def m by (simp add: sv'_def)
  have "inode_ok (disk fs) (sv_i sv') = inode_ok (disk fs) (sv_i sv)"
    unfolding inode_ok_def m by (simp add: sv'_def inode_sized_def)
  then show "grown p fs sv (upd_inode p (\<lambda>i. i\<lparr> sfi_size := w \<rparr>) fs) sv'"
    using assms(1-3) o upd_inode_node [OF assms(2), of "\<lambda>i. i\<lparr> sfi_size := w \<rparr>"]
    by (simp add: file_grown_def file_ok_def same_object_def sv'_def)
qed

lemma io_write:
  assumes "vol_ok fs" "sfs_node fs p = Some sv" "file_ok blk fs (sv_i sv)"
    "uio_rw u = UIO_WRITE" "uio_ready (uio_resid u) u" "unat (sfi_size (sv_i sv)) < 2 ^ 31"
  shows "\<exists>r k fs' sv'. sfs_io d_io p u fs = Some (r, uio_advance k u, fs') \<and> k \<le> uio_resid u \<and>
    grown p fs sv fs' sv' \<and> unat (sfi_size (sv_i sv')) = max (unat (sfi_size (sv_i sv))) (upos u + k) \<and>
    fbyte (disk fs') (sv_i sv') = fwrite (upos u) (uio_pending u k) (fbyte (disk fs) (sv_i sv)) \<and>
    (r = Inr () \<and> k = uio_resid u \<or> stopped r fs' (uio_advance k u))"
proof -
  have "write_good p u fs" using assms(1-4) by (simp add: write_good_def)
  from writes.io_body [OF this assms(5)] obtain r u1 fs1 where
    b: "sfs_io_body d_io p u fs = Some (r, u1, fs1)" "write_rel p (uio_resid u) u fs r u1 fs1" by blast
  define sv1 where "sv1 = the (sfs_node fs1 p)"
  from b(2) assms(2) have s: "write_step p (uio_resid u) fs sv u r u1 fs1 sv1"
    by (simp add: write_rel_def sv1_def)
  then obtain k where k: "k \<le> uio_resid u" "wrote p k fs sv u fs1 sv1 u1"
    "r = Inr () \<and> k = uio_resid u \<or> stopped r fs1 u1" unfolding write_step_def by blast
  note w = k(2) [unfolded wrote_def] and g = write_step_good [OF s]
  have rk: "uio_ready (k + (uio_resid u - k)) u" using assms(5) k(1) by simp
  note rk' = uio_ready_advance [OF rk]
  have off: "uio_offset u1 = int (upos u + k)" "upos u + k < 2 ^ 31"
    using w upos_block(3,4) [OF rk'(2)] uio_advance_counts [OF rk'(2)] by simp_all
  have res: "uio_resid u1 < 2 ^ 32" using w rk'(1) by (simp add: uio_ready_def)
  let ?sz = "unat (sfi_size (sv_i sv))"
  let ?long = "?sz < upos u + k"
  define fs' where "fs' = (if ?long then upd_inode p (\<lambda>i. i\<lparr> sfi_size := word_of_int (uio_offset u1) \<rparr>) fs1 else fs1)"
  define sv' where "sv' = (if ?long then sv1\<lparr> sv_i := (sv_i sv1)\<lparr> sfi_size := word_of_int (uio_offset u1) \<rparr>, sv_dirty := True \<rparr> else sv1)"
  have same: "grown p fs1 sv1 fs' sv'" "fbyte (disk fs') (sv_i sv') = fbyte (disk fs1) (sv_i sv1)"
    using resize_grown [OF g(1-3), of "word_of_int (uio_offset u1)"] file_grown_refl [OF g(1-3)]
    by (simp_all add: fs'_def sv'_def)
  have size: "unat (sfi_size (sv_i sv')) = max ?sz (upos u + k)"
    using w unat_of_nat_small [of "upos u + k"] off
    by (simp add: sv'_def max_def off(1) of_int_of_nat_eq del: of_nat_add)
  have run: "sfs_io d_io p u fs = Some (r, u1, fs')"
    using assms(2,4,6) b(1) g(2) w off res off32_nat [of ?sz]
    by (simp add: sfs_io_def fs'_def del: of_nat_unat)
  have "busy fs' = busy fs1" by (simp add: fs'_def)
  moreover have "nblocks_of fs' = nblocks_of fs1"
    by (simp add: fs'_def upd_inode_def upd_node_def nblocks_of_def)
  ultimately have "r = Inr () \<and> k = uio_resid u \<or> stopped r fs' (uio_advance k u)"
    using k(3) w by (simp add: stopped_def)
  then show ?thesis using run same size w file_grown_trans [OF _ same(1)] k(1) by auto
qed

lemma io_read:
  assumes "vol_ok fs" "sfs_node fs p = Some sv" "file_ok blk fs (sv_i sv)"
    "uio_rw u = UIO_READ" "uio_ready (uio_resid u) u" "unat (sfi_size (sv_i sv)) \<le> 143 * 512"
  defines "k \<equiv> min (uio_resid u) (unat (sfi_size (sv_i sv)) - upos u)"
  shows "\<exists>fs'. sfs_io d_io p u fs = Some (Inr (), uio_deliver (fbytes (disk fs) (sv_i sv) (upos u) k) u, fs') \<and>
    quiet fs fs'"
proof -
  let ?sz = "unat (sfi_size (sv_i sv))"
  note pos = upos_block(3,4) [OF assms(5)]
  have sz: "off32 (int ?sz) = int ?sz" using assms(6) by (intro off32_nat) simp
  have rs: "uio_resid u < 2 ^ 32" using assms(5) by (simp add: uio_ready_def)
  have en: "off32 (uio_offset u + int (uio_resid u)) = uio_offset u + int (uio_resid u)"
    using pos by (simp add: off32_id)
  show ?thesis
  proof (cases "?sz \<le> upos u")
    case True
    then have "uio_deliver (fbytes (disk fs) (sv_i sv) (upos u) k) u = u"
      using uio_deliver_Nil [of u] uio_ready_advance(2) [of 0 "uio_resid u" u] assms(5) by (simp add: k_def fbytes_def)
    then show ?thesis using True assms(2,4) pos(1) sz quiet_refl [OF assms(1)]
      by (simp add: sfs_io_def Let_def del: of_nat_unat)
  next
    case False
    define x where "x = uio_resid u - k"
    have k: "k \<le> uio_resid u" "upos u + k \<le> ?sz" using False by (auto simp: k_def)
    let ?v = "u\<lparr> uio_resid := k \<rparr>"
    have rk: "uio_ready k u" using uio_ready_advance(2) [of k x u] assms(5) k(1) by (simp add: x_def)
    then have rv: "uio_ready (uio_resid ?v) ?v" using k(1) rs by (simp add: uio_ready_def)
    have "read_good p sv (disk fs) ?v fs" using assms(1-4,6) k(2) by (simp add: read_good_def upos_def)
    from reads.io_body [OF this rv] obtain r u1 fs1 where
      b: "sfs_io_body d_io p ?v fs = Some (r, u1, fs1)" "read_rel sv (disk fs) k ?v fs r u1 fs1" by auto
    let ?xs = "fbytes (disk fs) (sv_i sv) (upos u) k"
    have u1: "r = Inr ()" "u1 = uio_deliver ?xs ?v" "quiet fs fs1"
      using b(2) by (simp_all add: read_rel_def upos_def)
    have dv: "uio_deliver ?xs u = (uio_deliver ?xs ?v)\<lparr> uio_resid := x \<rparr>"
      using uio_deliver_counts [of ?xs u] uio_deliver_counts [of ?xs ?v] rk rv
      by (intro uio.equality) (simp_all add: x_def)
    have node: "sfs_node fs1 p = Some sv" using quiet_grown [OF assms(1-3) u1(3)] by simp
    have res0: "uio_resid (uio_deliver ?xs ?v) = 0" using uio_deliver_counts(1) [of ?xs ?v] rv by simp
    note nz = False
    have "sfs_io d_io p u fs = Some (Inr (), (uio_deliver ?xs ?v)\<lparr> uio_resid := x \<rparr>, fs1)"
    proof (cases "?sz < upos u + uio_resid u")
      case True
      then have "k = ?sz - upos u" by (simp add: k_def)
      then have x: "uio_offset u + int (uio_resid u) - int ?sz = int x" "x < uio_resid u" "uio_resid u - x = k"
        using True False pos by (simp_all add: x_def of_nat_diff del: of_nat_unat)
      then have "x < 2 ^ 32" using rs by simp
      with x node res0 show ?thesis using True False assms(2,4) pos sz en b(1) u1(1,2)
        by (simp add: sfs_io_def Let_def del: of_nat_unat)
    next
      case False
      then have "k = uio_resid u" "x = 0" using k by (simp_all add: k_def x_def)
      with node res0 show ?thesis using False nz assms(2,4) pos sz en b(1) u1(1,2) rs
        by (simp add: sfs_io_def Let_def del: of_nat_unat)
    qed
    then show ?thesis using dv u1(3) by simp
  qed
qed

end

end
