(* ===== verification/Sfs_Props.thy ===== *)
theory Sfs_Props
  imports Sfs_Io_Props
begin

text \<open>
  What \<^verbatim>\<open>sfs_io\<close> does to files, over the disk driver of \<^verbatim>\<open>lhd.c\<close>: writing
  overwrites a stretch of the file's bytes, reading delivers one, what was written is read back,
  other files are left alone, and a write the medium refuses is reported as done.
\<close>

section \<open>Files on a disk\<close>

text \<open>Vnode \<open>p\<close> is a well-formed file of a well-formed volume on a disk without media errors.\<close>

definition lhd_file :: "'d drive \<Rightarrow> ('d \<Rightarrow> nat \<Rightarrow> bytes) \<Rightarrow> nat \<Rightarrow> 'd lhd_softc sfs_fs \<Rightarrow> nat \<Rightarrow> sfs_vnode \<Rightarrow> bool" where
  "lhd_file drive sect nsect fs p sv \<longleftrightarrow> volume_ok (lhd_ready drive sect nsect) d_blocks fs \<and>
     sfs_node fs p = Some sv \<and> file_ok (\<lambda>lh. sect (lh_disk lh)) fs (sv_i sv)"

abbreviation lhd_disk :: "('d \<Rightarrow> nat \<Rightarrow> bytes) \<Rightarrow> 'd lhd_softc sfs_fs \<Rightarrow> nat \<Rightarrow> bytes" where
  "lhd_disk sect \<equiv> disk_of (\<lambda>lh. sect (lh_disk lh))"

text \<open>The bytes of a file and the blocks it owns.\<close>

definition content :: "('d \<Rightarrow> nat \<Rightarrow> bytes) \<Rightarrow> 'd lhd_softc sfs_fs \<Rightarrow> sfs_vnode \<Rightarrow> nat \<Rightarrow> u8" where
  "content sect fs sv = fbyte (lhd_disk sect fs) (sv_i sv)"

definition blocks_of :: "('d \<Rightarrow> nat \<Rightarrow> bytes) \<Rightarrow> 'd lhd_softc sfs_fs \<Rightarrow> sfs_vnode \<Rightarrow> nat set" where
  "blocks_of sect fs sv = own (lhd_disk sect fs) (sv_i sv)"

definition fsize :: "sfs_vnode \<Rightarrow> nat" where
  "fsize sv = unat (sfi_size (sv_i sv))"

section \<open>A volume on a small drive\<close>

text \<open>A drive that keeps its sectors in memory, for examples.\<close>

definition ram_sect :: "(nat \<Rightarrow> bytes) \<Rightarrow> nat \<Rightarrow> bytes" where
  "ram_sect d s = take 512 (d s @ replicate 512 0)"

definition ram_drive :: "(nat \<Rightarrow> bytes) drive" where
  "ram_drive d s w b = (if w then (LHD_OK, b, d(s := b)) else (LHD_OK, ram_sect d s, d))"

definition small_inode :: sfs_inode where
  "small_inode = \<lparr> sfi_size = 0, sfi_type = 1, sfi_linkcount = 1, sfi_direct = replicate 15 0,
     sfi_indirect = 0, sfi_waste = replicate (128 - 3 - SFS_NDIRECT) 0 \<rparr>"

definition small_vnode :: sfs_vnode where
  "small_vnode = \<lparr> vn_refcount = 1, vn_opencount = 1, vn_ops = Sfs_fileops, sv_i = small_inode, sv_ino = 3,
     sv_dirty = False \<rparr>"

definition small_softc :: "(nat \<Rightarrow> bytes) lhd_softc" where
  "small_softc = \<lparr> lh_disk = (\<lambda>_. []), lh_buf = zero_block, lh_stat = 0, lh_result = Inr (), lh_clear = 1,
     lh_done = 0, d_blocks = 256 \<rparr>"

text \<open>A volume of 256 blocks, of which the first four are in use, and one empty file.\<close>

definition small_fs :: "(nat \<Rightarrow> bytes) lhd_softc sfs_fs" where
  "small_fs = \<lparr> sfs_super = \<lparr> sp_magic = 0, sp_nblocks = 256, sp_volname = [], sp_reserved = [] \<rparr>,
     sfs_superdirty = False, sfs_device = small_softc,
     sfs_vnodes = \<lparr> arr_num = 1, arr_max = 1, arr_v = Some [Some 1] \<rparr>,
     sfs_freemap = \<lparr> bm_nbits = 256, bm_v = 15 # replicate 31 0 \<rparr>, sfs_freemapdirty = False,
     sfs_node = [1 \<mapsto> small_vnode], sfs_nextptr = 2 \<rparr>"

lemma ram_drive_ok: "drive_ok ram_drive ram_sect n"
  by (auto simp: drive_ok_def ram_drive_def ram_sect_def fun_eq_iff LHD_OK_def LHD_STATEMASK_def split: if_splits)

lemma small_bits: "i < 256 \<Longrightarrow> bm_bit (15 # replicate 31 0) i \<longleftrightarrow> i < 4"
proof (cases "i < 8")
  case True
  then have "i \<in> set [0..<8]" by simp
  then show ?thesis by (auto simp: bm_bit_def upt_rec)
next
  case False
  moreover assume "i < 256"
  ultimately have "i div 8 - 1 < 31" "i div 8 \<noteq> 0" by (auto simp: div_eq_0_iff)
  then show ?thesis using False by (simp add: bm_bit_def nth_Cons')
qed

lemma small_imap: "imap D small_inode n = 0"
  by (simp add: imap_def small_inode_def)

lemma small_file: "lhd_file ram_drive ram_sect 256 small_fs 1 small_vnode"
proof -
  have u: "bitmap_used (sfs_freemap small_fs) = {n. n < 4}"
    using small_bits by (auto simp: bitmap_used_def small_fs_def)
  have "bitmap_invar (sfs_freemap small_fs)"
    by (simp add: bitmap_invar_def small_fs_def divroundup_def)
  moreover have "lhd_ready ram_drive ram_sect 256 (sfs_device small_fs)"
    by (simp add: lhd_ready_def ram_drive_ok lhd_idle_def small_fs_def small_softc_def ram_sect_def)
  ultimately have "volume_ok (lhd_ready ram_drive ram_sect 256) d_blocks small_fs"
    using u unfolding volume_ok_def by (simp add: nblocks_of_def small_fs_def small_softc_def)
  moreover have "inode_sized small_inode" by (simp add: inode_sized_def small_inode_def SFS_NDIRECT_def)
  moreover have "sfi_indirect small_inode = 0" by (simp add: small_inode_def)
  ultimately show ?thesis
    by (auto simp: lhd_file_def file_ok_def inode_ok_def own_def small_imap small_fs_def small_vnode_def)
qed

lemma small_free: "card ({..<nblocks_of small_fs} - busy small_fs) > 144"
proof -
  have "busy small_fs \<subseteq> {..<4}" using small_bits by (auto simp: busy_def bitmap_used_def small_fs_def)
  then have "card {4..<256::nat} \<le> card ({..<256} - busy small_fs)" by (intro card_mono) auto
  then show ?thesis by (simp add: nblocks_of_def small_fs_def)
qed

section \<open>Writing\<close>

lemmas lhd_defs = lhd_file_def content_def blocks_of_def fsize_def

lemma lhd_write:
  assumes "lhd_file drive sect nsect fs p sv" "uio_rw u = UIO_WRITE" "uio_ready (uio_resid u) u" "fsize sv < 2 ^ 31"
  shows "\<exists>r k fs' sv'. sfs_io (lhd_io drive) p u fs = Some (r, uio_advance k u, fs') \<and> k \<le> uio_resid u \<and>
    file_grown (lhd_ready drive sect nsect) d_blocks (\<lambda>lh. sect (lh_disk lh)) p fs sv fs' sv' \<and>
    lhd_file drive sect nsect fs' p sv' \<and> fsize sv' = max (fsize sv) (upos u + k) \<and>
    content sect fs' sv' = fwrite (upos u) (uio_pending u k) (content sect fs sv) \<and>
    (r = Inr () \<and> k = uio_resid u \<or> r = Inl ENOSPC \<and> busy fs' = {..<nblocks_of fs'} \<or>
     r = Inl EINVAL \<and> 143 * 512 \<le> upos u + k)"
proof -
  note a = assms [unfolded lhd_defs]
  from lhd.io_write [OF a(1) [THEN conjunct1] a(1) [THEN conjunct2, THEN conjunct1] a(1) [THEN conjunct2, THEN conjunct2] a(2-4)]
  obtain r k fs' sv' where w: "sfs_io (lhd_io drive) p u fs = Some (r, uio_advance k u, fs')" "k \<le> uio_resid u"
    "file_grown (lhd_ready drive sect nsect) d_blocks (\<lambda>lh. sect (lh_disk lh)) p fs sv fs' sv'"
    "unat (sfi_size (sv_i sv')) = max (unat (sfi_size (sv_i sv))) (upos u + k)"
    "fbyte (lhd_disk sect fs') (sv_i sv') = fwrite (upos u) (uio_pending u k) (fbyte (lhd_disk sect fs) (sv_i sv))"
    "r = Inr () \<and> k = uio_resid u \<or> lhd.stopped r fs' (uio_advance k u)" by blast
  have "uio_ready k u" using uio_ready_advance(2) [of k "uio_resid u - k" u] assms(3) w(2) by simp
  then have "r = Inr () \<and> k = uio_resid u \<or> r = Inl ENOSPC \<and> busy fs' = {..<nblocks_of fs'} \<or>
     r = Inl EINVAL \<and> 143 * 512 \<le> upos u + k"
    using w(6) upos_advance [of k u] by (simp add: lhd.stopped_def)
  moreover have "lhd_file drive sect nsect fs' p sv'" using w(3) by (simp add: lhd_file_def file_grown_def)
  ultimately show ?thesis using w(1-5) unfolding content_def fsize_def by blast
qed

lemma own_card: "finite (own D i)" "card (own D i) \<le> 144"
proof -
  let ?M = "imap D i ` {n. n < 143}"
  have "finite ?M" "card ?M \<le> 143" using card_image_le [of "{n. n < 143}" "imap D i"] by simp_all
  then show "finite (own D i)" "card (own D i) \<le> 144"
    using card_insert_le_m1 [of 144 ?M "unat (sfi_indirect i)"]
      card_mono [of "insert (unat (sfi_indirect i)) ?M" "own D i"]
    by (auto simp: own_def)
qed

lemma grown_not_full:
  assumes "file_grown dev_ok nblk blk p fs sv fs' sv'" "card ({..<nblocks_of fs} - busy fs) > 144"
  shows "busy fs' \<noteq> {..<nblocks_of fs'}"
proof
  assume "busy fs' = {..<nblocks_of fs'}"
  moreover have "nblocks_of fs' = nblocks_of fs" using assms(1) by (simp add: file_grown_def fs_frame_def nblocks_of_def)
  ultimately have "{..<nblocks_of fs} - busy fs \<subseteq> own (disk_of blk fs') (sv_i sv')"
    using assms(1) by (auto simp: file_grown_def)
  then have "card ({..<nblocks_of fs} - busy fs) \<le> 144"
    using card_mono [OF own_card(1)] own_card(2) le_trans by blast
  with assms(2) show False by simp
qed

lemma lhd_write_all:
  assumes "lhd_file drive sect nsect fs p sv" "uio_rw u = UIO_WRITE" "uio_ready (uio_resid u) u" "fsize sv < 2 ^ 31"
    "card ({..<nblocks_of fs} - busy fs) > 144" "upos u + uio_resid u < 143 * 512"
  shows "\<exists>fs' sv'. sfs_io (lhd_io drive) p u fs = Some (Inr (), uio_advance (uio_resid u) u, fs') \<and>
    lhd_file drive sect nsect fs' p sv' \<and> fsize sv' = max (fsize sv) (upos u + uio_resid u) \<and>
    content sect fs' sv' = fwrite (upos u) (uio_pending u (uio_resid u)) (content sect fs sv)"
proof -
  obtain r k fs' sv' where w: "sfs_io (lhd_io drive) p u fs = Some (r, uio_advance k u, fs')" "k \<le> uio_resid u"
    "file_grown (lhd_ready drive sect nsect) d_blocks (\<lambda>lh. sect (lh_disk lh)) p fs sv fs' sv'"
    "lhd_file drive sect nsect fs' p sv'" "fsize sv' = max (fsize sv) (upos u + k)"
    "content sect fs' sv' = fwrite (upos u) (uio_pending u k) (content sect fs sv)"
    "r = Inr () \<and> k = uio_resid u \<or> r = Inl ENOSPC \<and> busy fs' = {..<nblocks_of fs'} \<or>
     r = Inl EINVAL \<and> 143 * 512 \<le> upos u + k"
    using lhd_write [OF assms(1-4)] by blast
  have "r = Inr () \<and> k = uio_resid u" using w(2,7) grown_not_full [OF w(3) assms(5)] assms(6) by auto
  then show ?thesis using w(1,4-6) by blast
qed

abbreviation hi_write :: uio where
  "hi_write \<equiv> mk_kuio [104, 105] 2 0 UIO_WRITE"

abbreviation hi_read :: uio where
  "hi_read \<equiv> mk_kuio [0, 0] 2 0 UIO_READ"

lemma hi_ready:
  "uio_ready (uio_resid hi_write) hi_write" "uio_ready (uio_resid hi_read) hi_read"
  "upos hi_write = 0" "upos hi_read = 0" "fsize small_vnode = 0"
  by (simp_all add: mk_kuio_ready upos_def fsize_def small_vnode_def small_inode_def)

text \<open>
  C5. Writing to a file. On a well-formed volume whose disk has no media errors, \<^verbatim>\<open>sfs_io\<close>
  with a write always returns. It has transferred some number \<open>k\<close> of the bytes of the uio: the
  bytes of the file are the old ones with those \<open>k\<close> bytes at the offset of the uio (holes read as
  zeros), its size has grown to the end of what was written, the uio has advanced by \<open>k\<close>, and
  the volume and the file are well-formed again. Either every byte was written, or it stopped
  with \<^verbatim>\<open>ENOSPC\<close> and every block of the volume is in use, or with \<^verbatim>\<open>EINVAL\<close> at the
  end of the largest file the inode can map.
\<close>

theorem sfs_io_write_refines:
  assumes "lhd_file drive sect nsect fs p sv" "uio_rw u = UIO_WRITE" "uio_ready (uio_resid u) u" "fsize sv < 2 ^ 31"
  shows "\<exists>r k fs' sv'. sfs_io (lhd_io drive) p u fs = Some (r, uio_advance k u, fs') \<and> k \<le> uio_resid u \<and>
    lhd_file drive sect nsect fs' p sv' \<and> fsize sv' = max (fsize sv) (upos u + k) \<and>
    content sect fs' sv' = fwrite (upos u) (uio_pending u k) (content sect fs sv) \<and>
    (r = Inr () \<and> k = uio_resid u \<or> r = Inl ENOSPC \<and> busy fs' = {..<nblocks_of fs'} \<or>
     r = Inl EINVAL \<and> 143 * 512 \<le> upos u + k)"
  using lhd_write [OF assms] by blast

theorem sfs_io_write_refines_witness:
  "\<exists>r k fs' sv'. sfs_io (lhd_io ram_drive) 1 hi_write small_fs = Some (r, uio_advance k hi_write, fs') \<and> k \<le> 2 \<and>
    lhd_file ram_drive ram_sect 256 fs' 1 sv' \<and> fsize sv' = k \<and>
    content ram_sect fs' sv' = fwrite 0 (uio_pending hi_write k) (content ram_sect small_fs small_vnode) \<and>
    (r = Inr () \<and> k = 2 \<or> r = Inl ENOSPC \<and> busy fs' = {..<nblocks_of fs'} \<or>
     r = Inl EINVAL \<and> 143 * 512 \<le> k)"
  using sfs_io_write_refines [OF small_file, of hi_write] hi_ready by simp

text \<open>
  C22. A write succeeds when it can. If more blocks are free than a file can have (143 data blocks
  and the indirect block) and the write ends before the largest file does, \<^verbatim>\<open>sfs_io\<close>
  returns success with every byte written.
\<close>

theorem sfs_io_write_succeeds:
  assumes "lhd_file drive sect nsect fs p sv" "uio_rw u = UIO_WRITE" "uio_ready (uio_resid u) u" "fsize sv < 2 ^ 31"
    "card ({..<nblocks_of fs} - busy fs) > 144" "upos u + uio_resid u < 143 * 512"
  shows "\<exists>fs' sv'. sfs_io (lhd_io drive) p u fs = Some (Inr (), uio_advance (uio_resid u) u, fs') \<and>
    lhd_file drive sect nsect fs' p sv' \<and> fsize sv' = max (fsize sv) (upos u + uio_resid u) \<and>
    content sect fs' sv' = fwrite (upos u) (uio_pending u (uio_resid u)) (content sect fs sv)"
  by (rule lhd_write_all [OF assms])

theorem sfs_io_write_succeeds_witness:
  "\<exists>fs' sv'. sfs_io (lhd_io ram_drive) 1 hi_write small_fs = Some (Inr (), uio_advance 2 hi_write, fs') \<and>
    fsize sv' = 2 \<and> content ram_sect fs' sv' 1 = 105"
proof -
  obtain fs' sv' where "sfs_io (lhd_io ram_drive) 1 hi_write small_fs = Some (Inr (), uio_advance 2 hi_write, fs')"
    "fsize sv' = 2" "content ram_sect fs' sv' = fwrite 0 (uio_pending hi_write 2) (content ram_sect small_fs small_vnode)"
    using sfs_io_write_succeeds [OF small_file _ hi_ready(1) _ small_free] hi_ready
    by (simp add: numeral_2_eq_2) blast
  moreover from this(3) have "content ram_sect fs' sv' 1 = 105" by (simp add: mk_kuio_pending fwrite_def)
  ultimately show ?thesis by blast
qed

section \<open>Reading\<close>

lemma lhd_read:
  assumes "lhd_file drive sect nsect fs p sv" "uio_rw u = UIO_READ" "uio_ready (uio_resid u) u" "fsize sv \<le> 143 * 512"
  shows "\<exists>lh. sfs_io (lhd_io drive) p u fs = Some (Inr (),
      uio_deliver (map (content sect fs sv) [upos u..<upos u + min (uio_resid u) (fsize sv - upos u)]) u,
      fs\<lparr> sfs_device := lh \<rparr>) \<and>
    sect (lh_disk lh) = sect (lh_disk (sfs_device fs)) \<and> lhd_file drive sect nsect (fs\<lparr> sfs_device := lh \<rparr>) p sv"
proof -
  have f: "volume_ok (lhd_ready drive sect nsect) d_blocks fs" "sfs_node fs p = Some sv"
    "file_ok (\<lambda>lh. sect (lh_disk lh)) fs (sv_i sv)"
    using assms(1) by (simp_all add: lhd_file_def)
  obtain fs' where r: "sfs_io (lhd_io drive) p u fs = Some (Inr (), uio_deliver
      (fbytes (lhd_disk sect fs) (sv_i sv) (upos u) (min (uio_resid u) (fsize sv - upos u))) u, fs')" "lhd.quiet sect drive nsect fs fs'"
    using lhd.io_read [OF f assms(2,3)] assms(4) unfolding fsize_def by blast
  have "lhd_file drive sect nsect fs' p sv"
    using lhd.quiet_grown [OF f r(2)] lhd.quiet_facts [OF f(1) r(2)] by (simp add: lhd_file_def)
  then show ?thesis using r unfolding lhd.quiet_def by (auto simp: fbytes_def content_def)
qed

text \<open>
  C23. Reading a file. \<^verbatim>\<open>sfs_io\<close> with a read returns success and delivers exactly the bytes
  of the file from the offset of the uio up to its length or the end of the file, whichever comes
  first, with zeros for holes; the uio is left with what could not be read. Nothing of the file
  system but the state of the driver changes, and the disk keeps its content.
\<close>

theorem sfs_io_read_refines:
  assumes "lhd_file drive sect nsect fs p sv" "uio_rw u = UIO_READ" "uio_ready (uio_resid u) u" "fsize sv \<le> 143 * 512"
  shows "\<exists>lh. sfs_io (lhd_io drive) p u fs = Some (Inr (),
      uio_deliver (map (content sect fs sv) [upos u..<upos u + min (uio_resid u) (fsize sv - upos u)]) u,
      fs\<lparr> sfs_device := lh \<rparr>) \<and>
    sect (lh_disk lh) = sect (lh_disk (sfs_device fs)) \<and> lhd_file drive sect nsect (fs\<lparr> sfs_device := lh \<rparr>) p sv"
  by (rule lhd_read [OF assms])

theorem sfs_io_read_refines_witness:
  "\<exists>lh. sfs_io (lhd_io ram_drive) 1 hi_read small_fs = Some (Inr (), hi_read, small_fs\<lparr> sfs_device := lh \<rparr>)"
  using sfs_io_read_refines [OF small_file _ hi_ready(2)] hi_ready uio_deliver_Nil [of hi_read]
  by (auto simp: mk_kuio_ready)

text \<open>
  C6. What was written is read back: after a write that succeeded, a read at the same offset and
  of the same length returns success and delivers the bytes that were written, whatever was in
  the file and whichever blocks the write had to allocate.
\<close>

theorem sfs_write_read_roundtrip:
  assumes "lhd_file drive sect nsect fs p sv" "uio_rw u = UIO_WRITE" "uio_ready (uio_resid u) u"
    "fsize sv \<le> 143 * 512" "upos u + uio_resid u \<le> 143 * 512"
    "sfs_io (lhd_io drive) p u fs = Some (Inr (), u', fs')"
    "uio_rw v = UIO_READ" "uio_ready (uio_resid v) v" "upos v = upos u" "uio_resid v = uio_resid u"
  shows "\<exists>fs''. sfs_io (lhd_io drive) p v fs' = Some (Inr (), uio_deliver (uio_pending u (uio_resid u)) v, fs'')"
proof -
  have "fsize sv < 2 ^ 31" using assms(4) by simp
  from lhd_write [OF assms(1-3) this] assms(6) obtain sv' where
    w: "lhd_file drive sect nsect fs' p sv'" "fsize sv' = max (fsize sv) (upos u + uio_resid u)"
    "content sect fs' sv' = fwrite (upos u) (uio_pending u (uio_resid u)) (content sect fs sv)" by auto
  have "fsize sv' \<le> 143 * 512" using w(2) assms(4,5) by simp
  moreover have "map (content sect fs' sv') [upos u..<upos u + uio_resid u] = uio_pending u (uio_resid u)"
    unfolding w(3) by (intro nth_equalityI) (simp_all add: fwrite_def)
  moreover have "min (uio_resid v) (fsize sv' - upos v) = uio_resid u" using w(2) assms(9,10) by simp
  ultimately show ?thesis using lhd_read [OF w(1) assms(7,8)] assms(9) by auto
qed

theorem sfs_write_read_roundtrip_witness:
  "\<exists>u' fs' fs''. sfs_io (lhd_io ram_drive) 1 hi_write small_fs = Some (Inr (), u', fs') \<and>
    sfs_io (lhd_io ram_drive) 1 hi_read fs' = Some (Inr (), uio_deliver [104, 105] hi_read, fs'')"
proof -
  obtain fs' where w: "sfs_io (lhd_io ram_drive) 1 hi_write small_fs = Some (Inr (), uio_advance 2 hi_write, fs')"
    using lhd_write_all [OF small_file _ hi_ready(1) _ small_free] hi_ready by auto
  then show ?thesis
    using sfs_write_read_roundtrip [OF small_file _ hi_ready(1) _ _ w _ hi_ready(2)] hi_ready
    by (auto simp: mk_kuio_pending)
qed

section \<open>Other files\<close>

lemma grown_other_file:
  assumes "file_grown dev_ok nblk blk p fs sv fs' sv'" "q \<noteq> p" "sfs_node fs q = Some sv2"
    "file_ok blk fs (sv_i sv2)" "own (disk_of blk fs) (sv_i sv) \<inter> own (disk_of blk fs) (sv_i sv2) = {}"
  shows "sfs_node fs' q = Some sv2" "file_ok blk fs' (sv_i sv2)"
    "own (disk_of blk fs') (sv_i sv2) = own (disk_of blk fs) (sv_i sv2)"
    "fbyte (disk_of blk fs') (sv_i sv2) = fbyte (disk_of blk fs) (sv_i sv2)"
    "own (disk_of blk fs') (sv_i sv') \<inter> own (disk_of blk fs') (sv_i sv2) = {}"
proof -
  let ?D = "disk_of blk fs" and ?D' = "disk_of blk fs'" and ?i = "sv_i sv2"
  note g = assms(1) [unfolded file_grown_def fs_frame_def]
  show "sfs_node fs' q = Some sv2" using g assms(2,3) by simp
  have d: "?D' b = ?D b" if "b \<in> own ?D ?i" for b
    using g assms(4,5) that by (auto simp: file_ok_def)
  have m: "imap ?D' ?i = imap ?D ?i" using d indirect_own by (intro imap_cong) blast
  show o: "own ?D' ?i = own ?D ?i" by (rule own_cong [OF m])
  show "file_ok blk fs' ?i" using assms(4) g o inode_ok_cong [OF m] by (auto simp: file_ok_def)
  show "fbyte ?D' ?i = fbyte ?D ?i"
    using m d imap_own [of ?D ?i] by (auto simp: fbyte_def fblock_def fun_eq_iff)
  show "own ?D' (sv_i sv') \<inter> own ?D' ?i = {}"
    using g assms(4,5) unfolding o by (auto simp: file_ok_def)
qed

text \<open>
  C24. Files do not disturb each other. If two files share no block, a write to the one leaves the
  other well-formed, with the same inode, the same blocks and the same bytes, and the two still
  share no block, whatever the outcome of the write.
\<close>

theorem sfs_io_write_isolated:
  assumes "lhd_file drive sect nsect fs p sv" "lhd_file drive sect nsect fs q sv2" "p \<noteq> q"
    "blocks_of sect fs sv \<inter> blocks_of sect fs sv2 = {}"
    "uio_rw u = UIO_WRITE" "uio_ready (uio_resid u) u" "fsize sv < 2 ^ 31"
    "sfs_io (lhd_io drive) p u fs = Some (r, u', fs')"
  shows "\<exists>sv'. sfs_node fs' p = Some sv' \<and> lhd_file drive sect nsect fs' q sv2 \<and>
    content sect fs' sv2 = content sect fs sv2 \<and> blocks_of sect fs' sv2 = blocks_of sect fs sv2 \<and>
    blocks_of sect fs' sv' \<inter> blocks_of sect fs' sv2 = {}"
proof -
  obtain sv' where g: "file_grown (lhd_ready drive sect nsect) d_blocks (\<lambda>lh. sect (lh_disk lh)) p fs sv fs' sv'"
    "lhd_file drive sect nsect fs' p sv'"
    using lhd_write [OF assms(1,5-7)] assms(8) by auto
  note o = grown_other_file [OF g(1) assms(3) [symmetric], of sv2]
  show ?thesis using o g(2) assms(2,4) by (auto simp: lhd_defs)
qed

definition two_files :: "(nat \<Rightarrow> bytes) lhd_softc sfs_fs" where
  "two_files = small_fs\<lparr> sfs_node := [1 \<mapsto> small_vnode, 2 \<mapsto> small_vnode] \<rparr>"

lemma two_files_ok: "q = 1 \<or> q = 2 \<Longrightarrow> lhd_file ram_drive ram_sect 256 two_files q small_vnode"
  using small_file
  by (auto simp: lhd_file_def two_files_def volume_ok_def file_ok_def busy_def nblocks_of_def disk_of_def)

theorem sfs_io_write_isolated_witness:
  "\<exists>r u' fs'. sfs_io (lhd_io ram_drive) 1 hi_write two_files = Some (r, u', fs') \<and>
    lhd_file ram_drive ram_sect 256 fs' 2 small_vnode \<and>
    content ram_sect fs' small_vnode = content ram_sect two_files small_vnode"
proof -
  have d: "blocks_of ram_sect two_files small_vnode \<inter> blocks_of ram_sect two_files small_vnode = {}"
    by (auto simp: blocks_of_def own_def small_imap small_vnode_def) (simp add: small_inode_def)
  obtain r k fs' where w: "sfs_io (lhd_io ram_drive) 1 hi_write two_files = Some (r, uio_advance k hi_write, fs')"
    using lhd_write [OF two_files_ok [of 1] _ hi_ready(1)] hi_ready(5) by auto
  show ?thesis
    using sfs_io_write_isolated [OF two_files_ok two_files_ok _ d _ hi_ready(1) _ w] w hi_ready(5) by auto
qed

section \<open>Errors of the medium\<close>

lemma lhd_media_write:
  assumes "length (lh_buf lh) = 512" "lh_clear lh = 1" "lh_done lh = 0" "uio_rw u = UIO_WRITE" "uio_ready 512 u"
    "drive (lh_disk lh) b True (uio_pending u 512) = (LHD_MEDIA, buf, lh_disk lh)"
  shows "\<exists>lh'. lhd_sector drive b lh u = Some (Inl EIO, uio_advance 512 u, lh') \<and> lh_disk lh' = lh_disk lh \<and>
    d_blocks lh' = d_blocks lh"
proof -
  have "uiomove (lh_buf lh) LHD_SECTSIZE u = Some (Inr (), uio_pending u 512, uio_advance 512 u)"
    using uiomove_write [OF assms(5,4), of "lh_buf lh"] assms(1) by (simp add: LHD_SECTSIZE_def)
  then show ?thesis
    using assms(2-4,6)
    by (simp add: lhd_sector_def lhd_start_def lhd_irq_def lhd_iodone_def lhd_code_to_errno_def Let_def
        LHD_MEDIA_def LHD_STATEMASK_def LHD_OK_def LHD_INVSECT_def)
qed

text \<open>
  C25. A write that the medium refuses is reported as successful. If the drive answers the first
  attempt to write block \<open>b\<close> with a media error and stores nothing, \<^verbatim>\<open>sfs_wblock\<close>
  returns success although the disk has not changed: \<^verbatim>\<open>lhd_io\<close> has advanced the uio before it
  saw the error, so the retry of \<^verbatim>\<open>sfs_rwblock\<close> asks for zero sectors and succeeds.
\<close>

theorem sfs_wblock_loses_media_error:
  assumes "length (lh_buf (sfs_device fs)) = 512" "lh_clear (sfs_device fs) = 1" "lh_done (sfs_device fs) = 0"
    "b < d_blocks (sfs_device fs)" "d_blocks (sfs_device fs) < 2 ^ 22" "length data = 512"
    "drive (lh_disk (sfs_device fs)) b True data = (LHD_MEDIA, buf, lh_disk (sfs_device fs))"
  shows "\<exists>lh. sfs_wblock (lhd_io drive) data b fs = Some (Inr (), fs\<lparr> sfs_device := lh \<rparr>) \<and>
    lh_disk lh = lh_disk (sfs_device fs)"
proof -
  let ?lh = "sfs_device fs" and ?u = "mk_kuio data 512 (512 * int b) UIO_WRITE"
  have b: "int b < 4194304 - 1" using assms(4,5) by simp
  then have r: "uio_ready 512 ?u" by (intro mk_kuio_ready) simp_all
  have pend: "uio_pending ?u 512 = data" using assms(6) by (simp add: mk_kuio_pending)
  obtain lh' where s: "lhd_sector drive b ?lh ?u = Some (Inl EIO, uio_advance 512 ?u, lh')"
    "lh_disk lh' = lh_disk ?lh" "d_blocks lh' = d_blocks ?lh"
    using lhd_media_write [OF assms(1-3) _ r, of drive b buf] assms(7) pend by auto
  have first: "lhd_io drive ?lh ?u = Some (Inl EIO, uio_advance 512 ?u, lh')"
    using lhd_io_block [of ?u b ?lh drive] assms(4,5) s(1) by simp
  have "uio_resid (uio_advance 512 ?u) = 0" "uio_offset (uio_advance 512 ?u) = 512 * int b + 512"
    using uio_advance_counts [OF r] by simp_all
  then have again: "lhd_io drive lh' (uio_advance 512 ?u) = Some (Inr (), uio_advance 512 ?u, lh')"
    using assms(4,5) s(3) by (simp add: lhd_io_def Let_def LHD_SECTSIZE_def u32_quot_def u32_rem_def)
  have "sfs_rwtry (lhd_io drive) 0 ?lh ?u = Some (Inr (), uio_advance 512 ?u, lh')"
    using first again by (simp add: sfs_rwtry.simps)
  moreover have "SFSUIO data b UIO_WRITE = Some ?u"
    using b by (simp add: SFSUIO_def sfs_consts off32_id cint_def mult.commute)
  ultimately show ?thesis using s(2) by (auto simp: sfs_wblock_def sfs_rwblock_def)
qed

theorem sfs_wblock_loses_media_error_witness:
  "\<exists>lh. sfs_wblock (lhd_io (\<lambda>d s w b. (LHD_MEDIA, b, d))) zero_block 5 small_fs = Some (Inr (), small_fs\<lparr> sfs_device := lh \<rparr>) \<and>
    lh_disk lh = lh_disk (sfs_device small_fs)"
  by (rule sfs_wblock_loses_media_error [where buf = zero_block]) (simp_all add: small_fs_def small_softc_def)





end
