(* ===== verification/Sfs_Trunc_Props.thy ===== *)
theory Sfs_Trunc_Props
  imports Sfs_Props
begin

text \<open>
  Truncation: which blocks \<^verbatim>\<open>sfs_truncate\<close> gives back to the free-block map, and what is
  left of the file.
\<close>

section \<open>Giving blocks back\<close>

text \<open>What the loops over block pointers leave of them, and the blocks they free.\<close>

primrec cut :: "(nat \<Rightarrow> bool) \<Rightarrow> nat \<Rightarrow> u32 list \<Rightarrow> u32 list" where
  "cut past i [] = []"
| "cut past i (b # bs) = (if past i then 0 else b) # cut past (i + 1) bs"

primrec gone :: "(nat \<Rightarrow> bool) \<Rightarrow> nat \<Rightarrow> u32 list \<Rightarrow> nat set" where
  "gone past i [] = {}"
| "gone past i (b # bs) = (if past i \<and> b \<noteq> 0 then {unat b} else {}) \<union> gone past (i + 1) bs"

definition nonzero :: "u32 list \<Rightarrow> u32 list" where
  "nonzero bs = filter (\<lambda>b. b \<noteq> 0) bs"

lemma cut_length [simp]: "length (cut past i bs) = length bs"
  by (induction bs arbitrary: i) simp_all

lemma cut_nth: "k < length bs \<Longrightarrow> cut past i bs ! k = (if past (i + k) then 0 else bs ! k)"
  by (induction bs arbitrary: i k) (auto simp: nth_Cons split: nat.split)

lemma gone_iff: "x \<in> gone past i bs \<longleftrightarrow> (\<exists>k<length bs. past (i + k) \<and> bs ! k \<noteq> 0 \<and> x = unat (bs ! k))"
  by (induction bs arbitrary: i) (auto simp: Ex_less_Suc2)

lemma distinct_nonzero:
  assumes "\<And>k l. k < length bs \<Longrightarrow> l < length bs \<Longrightarrow> bs ! k = bs ! l \<Longrightarrow> bs ! k \<noteq> 0 \<Longrightarrow> k = l"
  shows "distinct (nonzero bs)"
  using assms
proof (induction bs)
  case (Cons b bs)
  have "k = l" if "k < length bs" "l < length bs" "bs ! k = bs ! l" "bs ! k \<noteq> 0" for k l
    using Cons.prems [of "Suc k" "Suc l"] that by simp
  then have "distinct (nonzero bs)" by (rule Cons.IH)
  moreover have "b \<notin> set bs" if "b \<noteq> 0"
    using Cons.prems [of 0] that by (force simp: in_set_conv_nth)
  ultimately show ?case by (auto simp: nonzero_def)
qed (simp add: nonzero_def)

context block_device
begin

text \<open>A step that takes the blocks \<open>B\<close> out of the map of blocks in use and changes nothing else.\<close>

definition freed :: "nat set \<Rightarrow> 'd sfs_fs \<Rightarrow> 'd sfs_fs \<Rightarrow> bool" where
  "freed B fs fs' \<longleftrightarrow> vol_ok fs' \<and> busy fs' = busy fs - B \<and> disk fs' = disk fs \<and> fs_core fs fs'"

lemma freed_trans: "freed A a b \<Longrightarrow> freed B b c \<Longrightarrow> freed (A \<union> B) a c"
  using fs_core_trans by (auto simp: freed_def)

lemma freed_none: "vol_ok fs \<Longrightarrow> freed {} fs fs"
  by (simp add: freed_def)

lemma bfree_frees:
  assumes "vol_ok fs" "b \<in> busy fs" "b \<noteq> 0"
  shows "\<exists>fs'. sfs_bfree b fs = Some fs' \<and> freed {b} fs fs'"
proof -
  have b: "bitmap_invar (sfs_freemap fs)" "b \<in> bitmap_used (sfs_freemap fs)" "b < nblocks_of fs"
    using assms by (auto simp: volume_ok_def busy_def)
  obtain bm where bm: "bitmap_unmark (sfs_freemap fs) b = Some bm" "bitmap_invar bm"
    "bm_nbits bm = bm_nbits (sfs_freemap fs)" "bitmap_used bm = bitmap_used (sfs_freemap fs) - {b}"
    using bm.release_used [OF b(1,2)] by blast
  let ?fs = "fs\<lparr> sfs_freemap := bm, sfs_freemapdirty := True \<rparr>"
  have "vol_ok ?fs" using assms(1,3) bm(2-4) b(3) by (auto simp: volume_ok_def nblocks_of_def)
  moreover have "busy ?fs = busy fs - {b}" using bm(4) by (auto simp: busy_def nblocks_of_def)
  ultimately show ?thesis using bm(1) by (auto simp: sfs_bfree_def freed_def disk_of_def fs_core_def)
qed

lemma free_past_frees:
  assumes "vol_ok fs" "distinct (nonzero bs)" "unat ` set (nonzero bs) \<subseteq> busy fs"
  shows "\<exists>fs'. free_past past i bs fs = Some (cut past i bs, fs') \<and> freed (gone past i bs) fs fs'"
  using assms
proof (induction bs arbitrary: i fs)
  case Nil
  then show ?case by (simp add: freed_none)
next
  case (Cons b bs)
  show ?case
  proof (cases "past i \<and> b \<noteq> 0")
    case True
    then have b: "unat b \<in> busy fs" "unat b \<noteq> 0" "unat b \<notin> unat ` set (nonzero bs)"
      using Cons.prems(2,3) by (auto simp: nonzero_def unat_eq_0 dest: unsigned_word_eqI)
    obtain fs1 where f: "sfs_bfree (unat b) fs = Some fs1" "freed {unat b} fs fs1"
      using bfree_frees [OF Cons.prems(1) b(1,2)] by blast
    have "unat ` set (nonzero bs) \<subseteq> busy fs" using Cons.prems(3) by (auto simp: nonzero_def)
    moreover have "busy fs1 = busy fs - {unat b}" using f(2) by (simp add: freed_def)
    ultimately have "unat ` set (nonzero bs) \<subseteq> busy fs1"
      using b(3) by (simp only: subset_Diff_insert Diff_empty simp_thms)
    moreover have "vol_ok fs1" "distinct (nonzero bs)"
      using f(2) Cons.prems(2) by (simp_all add: freed_def nonzero_def split: if_splits)
    ultimately obtain fs2 where g: "free_past past (i + 1) bs fs1 = Some (cut past (i + 1) bs, fs2)"
      "freed (gone past (i + 1) bs) fs1 fs2"
      using Cons.IH [of fs1 "i + 1"] by auto
    from freed_trans [OF f(2) g(2)] show ?thesis using f(1) g(1) True by simp
  next
    case False
    have "distinct (nonzero bs)" "unat ` set (nonzero bs) \<subseteq> busy fs"
      using Cons.prems(2,3) by (auto simp: nonzero_def split: if_splits)
    then obtain fs2 where "free_past past (i + 1) bs fs = Some (cut past (i + 1) bs, fs2)"
      "freed (gone past (i + 1) bs) fs fs2"
      using Cons.IH Cons.prems(1) by blast
    then show ?thesis using False by auto
  qed
qed

end

section \<open>Cutting block pointers\<close>

text \<open>The blocks a truncation to \<open>L\<close> blocks leaves.\<close>

definition kept :: "nat \<Rightarrow> nat \<Rightarrow> bool" where
  "kept L n \<longleftrightarrow> (if n < 15 then n < L else n \<le> L)"

lemma imap_cut:
  assumes "inode_ok D i" "inode_sized i'" "\<And>n. imap D' i' n = (if K n then imap D i n else 0)"
    "sfi_indirect i' = sfi_indirect i \<or> sfi_indirect i' = 0"
  shows "inode_ok D' i'" "own D' i' \<subseteq> own D i"
    "own D i - own D' i' = {imap D i n | n. n < 143 \<and> \<not> K n \<and> imap D i n \<noteq> 0} \<union>
       (if sfi_indirect i' = sfi_indirect i then {} else {unat (sfi_indirect i)})"
proof -
  have inj: "m = n" if "m < 143" "n < 143" "imap D i m = imap D i n" "imap D i m \<noteq> 0" for m n
    using assms(1) that by (auto simp: inode_ok_def)
  have ind: "imap D i n \<noteq> unat (sfi_indirect i)" if "n < 143" "imap D i n \<noteq> 0" for n
    using assms(1) that by (auto simp: inode_ok_def)
  have ind': "imap D i n = 0" if "n < 143" "imap D i n = unat (sfi_indirect i')" for n
    using ind [OF that(1)] assms(4) that(2) by (cases "imap D i n = 0") auto
  show "inode_ok D' i'"
    unfolding inode_ok_def assms(3) using assms(2) inj ind' by (simp split: if_split)
  show "own D' i' \<subseteq> own D i" using assms(4) unfolding own_def assms(3) by auto
  let ?G = "{imap D i n | n. n < 143 \<and> \<not> K n \<and> imap D i n \<noteq> 0}"
    and ?I = "if sfi_indirect i' = sfi_indirect i then {} else {unat (sfi_indirect i)}"
  have "x \<in> ?G \<union> ?I" if x: "x \<in> own D i" "x \<notin> own D' i'" for x
  proof (cases "x = unat (sfi_indirect i)")
    case True
    then show ?thesis using that by (auto simp: own_def)
  next
    case False
    then obtain n where n: "x = imap D i n" "n < 143" "x \<noteq> 0" using x(1) unfolding own_def by blast
    then have "\<not> K n" using x(2) imap_own [of D' i' n] assms(3) [of n] by auto
    then show ?thesis using n by auto
  qed
  moreover have "x \<in> own D i \<and> x \<notin> own D' i'" if "x \<in> ?G" for x
  proof -
    obtain n where n: "x = imap D i n" "n < 143" "\<not> K n" "x \<noteq> 0" using \<open>x \<in> ?G\<close> by auto
    have "x \<noteq> imap D' i' m" if "m < 143" for m using inj [OF n(2) that] n assms(3) [of m] by auto
    moreover have "x \<noteq> unat (sfi_indirect i')" using ind' [OF n(2)] n by auto
    ultimately show ?thesis using n imap_own [of D i n] by (auto simp: own_def)
  qed
  moreover have "x \<in> own D i \<and> x \<notin> own D' i'" if "x \<in> ?I" for x
  proof -
    have x: "x = unat (sfi_indirect i)" "sfi_indirect i' = 0" "sfi_indirect i \<noteq> 0"
      using that assms(4) by (auto split: if_splits)
    then have nz: "x \<noteq> 0" by (simp add: unat_eq_0)
    have "x \<noteq> imap D' i' m" if "m < 143" for m
      using ind [OF that] x nz assms(3) [of m] by (cases "imap D i m = 0") auto
    then show ?thesis using x indirect_own [OF x(3)] by (auto simp: own_def)
  qed
  ultimately show "own D i - own D' i' = ?G \<union> ?I" by blast
qed

context block_device
begin

text \<open>A file that has lost the blocks outside \<open>K\<close>, which have become free, and nothing else.\<close>

definition shrunk :: "nat \<Rightarrow> (nat \<Rightarrow> bool) \<Rightarrow> 'd sfs_fs \<Rightarrow> sfs_vnode \<Rightarrow> 'd sfs_fs \<Rightarrow> sfs_vnode \<Rightarrow> bool" where
  "shrunk p K fs sv fs' sv' \<longleftrightarrow> vol_ok fs' \<and> fs_frame p fs fs' \<and> same_object sv sv' \<and>
     sfs_node fs' p = Some sv' \<and> file_ok blk fs' (sv_i sv') \<and>
     own (disk fs') (sv_i sv') \<subseteq> own (disk fs) (sv_i sv) \<and>
     busy fs' = busy fs - (own (disk fs) (sv_i sv) - own (disk fs') (sv_i sv')) \<and>
     (\<forall>n. imap (disk fs') (sv_i sv') n = (if K n then imap (disk fs) (sv_i sv) n else 0)) \<and>
     (\<forall>b. b \<noteq> unat (sfi_indirect (sv_i sv)) \<longrightarrow> disk fs' b = disk fs b) \<and>
     (sfi_indirect (sv_i sv') = sfi_indirect (sv_i sv) \<or> sfi_indirect (sv_i sv') = 0)"

lemma shrunk_trans:
  assumes "shrunk p K fs sv fs1 sv1" "shrunk p L fs1 sv1 fs2 sv2" "sfi_indirect (sv_i sv1) = sfi_indirect (sv_i sv)"
  shows "shrunk p (\<lambda>n. K n \<and> L n) fs sv fs2 sv2"
proof -
  note a = assms(1) [unfolded shrunk_def] and b = assms(2) [unfolded shrunk_def]
  have f: "fs_frame p fs fs2" using a b fs_frame_trans [of p fs fs1 fs2] by simp
  have s: "same_object sv sv2" using a b same_object_trans [of sv sv1 sv2] by simp
  let ?o = "own (disk fs) (sv_i sv)" and ?o1 = "own (disk fs1) (sv_i sv1)" and ?o2 = "own (disk fs2) (sv_i sv2)"
  have "?o1 \<subseteq> ?o" "?o2 \<subseteq> ?o1" "busy fs1 = busy fs - (?o - ?o1)" "busy fs2 = busy fs1 - (?o1 - ?o2)"
    using a b by simp_all
  then have o: "?o2 \<subseteq> ?o" "busy fs2 = busy fs - (?o - ?o2)" by blast+
  show ?thesis using a b f s o assms(3) by (simp add: shrunk_def)
qed

lemma shrunkI:
  assumes "vol_ok fs" "sfs_node fs p = Some sv" "file_ok blk fs (sv_i sv)"
    "vol_ok fs'" "fs_frame p fs fs'" "same_object sv sv'" "sfs_node fs' p = Some sv'" "inode_sized (sv_i sv')"
    "\<And>n. imap (disk fs') (sv_i sv') n = (if K n then imap (disk fs) (sv_i sv) n else 0)"
    "sfi_indirect (sv_i sv') = sfi_indirect (sv_i sv) \<or> sfi_indirect (sv_i sv') = 0"
    "busy fs' = busy fs - ({imap (disk fs) (sv_i sv) n | n. n < 143 \<and> \<not> K n \<and> imap (disk fs) (sv_i sv) n \<noteq> 0} \<union>
       (if sfi_indirect (sv_i sv') = sfi_indirect (sv_i sv) then {} else {unat (sfi_indirect (sv_i sv))}))"
    "\<And>b. b \<noteq> unat (sfi_indirect (sv_i sv)) \<Longrightarrow> disk fs' b = disk fs b"
  shows "shrunk p K fs sv fs' sv'"
proof -
  have ok: "inode_ok (disk fs) (sv_i sv)" "own (disk fs) (sv_i sv) \<subseteq> busy fs" using assms(3) by (simp_all add: file_ok_def)
  note c = imap_cut [OF ok(1) assms(8,9,10)]
  have "own (disk fs') (sv_i sv') \<subseteq> busy fs'" using c(2,3) ok(2) unfolding assms(11) c(3) [symmetric] by blast
  then show ?thesis using assms(4-7,9-12) c unfolding shrunk_def file_ok_def by simp
qed

lemma entries_free:
  assumes "vol_ok fs" "file_ok blk fs i" "\<And>k. k < length bs \<Longrightarrow> imap (disk fs) i (a + k) = unat (bs ! k)" "a + length bs \<le> 143"
  shows "\<exists>fs'. free_past past 0 bs fs = Some (cut past 0 bs, fs') \<and>
    freed {imap (disk fs) i (a + k) | k. k < length bs \<and> past k \<and> imap (disk fs) i (a + k) \<noteq> 0} fs fs'"
proof -
  have ok: "inode_ok (disk fs) i" "own (disk fs) i \<subseteq> busy fs" using assms(2) by (simp_all add: file_ok_def)
  have "k = l" if "k < length bs" "l < length bs" "bs ! k = bs ! l" "bs ! k \<noteq> 0" for k l
  proof -
    have "imap (disk fs) i (a + k) = imap (disk fs) i (a + l)" "imap (disk fs) i (a + k) \<noteq> 0"
      using that assms(3) by (simp_all add: unat_eq_0)
    moreover have "a + k < 143" "a + l < 143" using that(1,2) assms(4) by simp_all
    ultimately have "a + k = a + l" using ok(1) unfolding inode_ok_def by blast
    then show ?thesis by simp
  qed
  then have d: "distinct (nonzero bs)" by (rule distinct_nonzero)
  have "unat b \<in> busy fs" if b: "b \<in> set (nonzero bs)" for b
  proof -
    obtain k where k: "k < length bs" "b = bs ! k" "b \<noteq> 0" using b by (auto simp: nonzero_def in_set_conv_nth)
    then have "imap (disk fs) i (a + k) = unat b" "unat b \<noteq> 0" using assms(3) by (simp_all add: unat_eq_0)
    then show ?thesis using imap_own [of "disk fs" i "a + k"] ok(2) by auto
  qed
  then have "unat ` set (nonzero bs) \<subseteq> busy fs" by blast
  from free_past_frees [OF assms(1) d this, of past 0]
  obtain fs' where f: "free_past past 0 bs fs = Some (cut past 0 bs, fs')" "freed (gone past 0 bs) fs fs'" by blast
  have "gone past 0 bs = {imap (disk fs) i (a + k) | k. k < length bs \<and> past k \<and> imap (disk fs) i (a + k) \<noteq> 0}"
    unfolding set_eq_iff gone_iff mem_Collect_eq add_0 using assms(3) by (metis unat_eq_0)
  then show ?thesis using f by simp
qed

lemma trunc_direct_shrinks:
  assumes "vol_ok fs" "sfs_node fs p = Some sv" "file_ok blk fs (sv_i sv)"
  shows "\<exists>fs' sv'. trunc_direct p L fs = Some fs' \<and> shrunk p (\<lambda>n. 15 \<le> n \<or> n < L) fs sv fs' sv' \<and>
    sfi_indirect (sv_i sv') = sfi_indirect (sv_i sv)"
proof -
  let ?i = "sv_i sv"
  define bs where "bs = sfi_direct ?i"
  define new where "new = cut (\<lambda>i. i \<ge> L) 0 bs"
  have len: "length bs = 15" "inode_sized ?i"
    using assms(3) by (simp_all add: bs_def file_ok_def inode_ok_def inode_sized_def)
  have m: "imap (disk fs) ?i (0 + k) = unat (bs ! k)" if "k < length bs" for k
    using that len by (simp add: imap_def bs_def)
  obtain fs1 where f: "free_past (\<lambda>i. i \<ge> L) 0 bs fs = Some (new, fs1)"
    "freed {imap (disk fs) ?i (0 + k) | k. k < length bs \<and> k \<ge> L \<and> imap (disk fs) ?i (0 + k) \<noteq> 0} fs fs1"
    using entries_free [OF assms(1,3) m] len unfolding new_def by auto
  note fr = f(2) [unfolded freed_def]
  define fs' where "fs' = (if new = bs then fs1 else upd_inode p (\<lambda>i. i\<lparr> sfi_direct := new \<rparr>) fs1)"
  define sv' where "sv' = (if new = bs then sv else sv\<lparr> sv_i := ?i\<lparr> sfi_direct := new \<rparr>, sv_dirty := True \<rparr>)"
  have i': "sv_i sv' = ?i\<lparr> sfi_direct := new \<rparr>" by (simp add: sv'_def bs_def)
  have n1: "sfs_node fs1 p = Some sv" using fr fs_core_node [of fs fs1] assms(2) by simp
  have d: "disk fs' = disk fs" "busy fs' = busy fs1" "vol_ok fs'" using fr by (simp_all add: fs'_def)
  have frame: "fs_frame p fs fs'"
    using fr fs_core_frame [of fs fs1 p fs'] upd_inode_node(2) [OF n1] by (simp add: fs'_def)
  have "shrunk p (\<lambda>n. 15 \<le> n \<or> n < L) fs sv fs' sv'"
  proof (rule shrunkI [OF assms d(3) frame])
    show "same_object sv sv'" by (simp add: same_object_def sv'_def)
    show "sfs_node fs' p = Some sv'" using n1 upd_inode_node(1) [OF n1] by (simp add: fs'_def sv'_def)
    show "inode_sized (sv_i sv')" using len by (simp add: i' inode_sized_def new_def)
    show "imap (disk fs') (sv_i sv') n = (if 15 \<le> n \<or> n < L then imap (disk fs) ?i n else 0)" for n
      using len by (auto simp: i' imap_def d new_def cut_nth bs_def [symmetric])
    show "busy fs' = busy fs - ({imap (disk fs) ?i n | n. n < 143 \<and> \<not> (15 \<le> n \<or> n < L) \<and> imap (disk fs) ?i n \<noteq> 0} \<union>
       (if sfi_indirect (sv_i sv') = sfi_indirect ?i then {} else {unat (sfi_indirect ?i)}))"
      using fr len d(2) by (auto simp: i' not_less)
  qed (simp_all add: i' d)
  moreover have "trunc_direct p L fs = Some fs'"
    using assms(2) f(1) by (simp add: trunc_direct_def bs_def [symmetric] fs'_def)
  ultimately show ?thesis using i' by auto
qed

lemma shrunk_nothing:
  assumes "vol_ok fs" "sfs_node fs p = Some sv" "file_ok blk fs (sv_i sv)"
    "\<And>n. \<not> K n \<Longrightarrow> imap (disk fs) (sv_i sv) n = 0"
  shows "shrunk p K fs sv fs sv"
  using assms by (auto simp: shrunk_def same_object_def)

text \<open>The indirect block after its entries past the end have been freed.\<close>

lemma trunc_entries_shrinks:
  assumes "vol_ok fs" "sfs_node fs p = Some sv" "file_ok blk fs (sv_i sv)" "sfi_indirect (sv_i sv) = ib" "ib \<noteq> 0"
    "idbuf = de32s 128 (disk fs (unat ib))" "new = cut (\<lambda>j. L < 15 + j) 0 idbuf"
    "freed {imap (disk fs) (sv_i sv) (15 + k) | k. k < 128 \<and> L < 15 + k \<and> imap (disk fs) (sv_i sv) (15 + k) \<noteq> 0} fs fs2"
  shows "\<exists>fs' sv'. (if \<not> list_ex (\<lambda>b. b \<noteq> 0) new
      then do {
        fs \<leftarrow> sfs_bfree (unat ib) fs2;
        Some (Inr (), upd_inode p (\<lambda>i. i\<lparr> sfi_indirect := 0 \<rparr>) fs)
      }
      else if new \<noteq> idbuf then sfs_wblock d_io (be32s new) (unat ib) fs2
      else Some (Inr (), fs2)) = Some (Inr (), fs') \<and> shrunk p (\<lambda>n. n < 15 \<or> n \<le> L) fs sv fs' sv'"
proof -
  let ?i = "sv_i sv" and ?K = "\<lambda>n. n < 15 \<or> n \<le> L"
  let ?G = "{imap (disk fs) ?i n | n. n < 143 \<and> \<not> ?K n \<and> imap (disk fs) ?i n \<noteq> 0}"
  have ok: "inode_ok (disk fs) ?i" "own (disk fs) ?i \<subseteq> busy fs" "inode_sized ?i"
    using assms(3) by (simp_all add: file_ok_def inode_ok_def)
  have len: "length idbuf = 128" "length new = 128" using assms(6,7) by simp_all
  have m: "imap (disk fs) ?i n = unat (idbuf ! (n - 15))" if "15 \<le> n" "n < 143" for n
    using that assms(4-6) by (simp add: imap_def)
  have nn: "new ! (n - 15) = (if n \<le> L then idbuf ! (n - 15) else 0)" if "15 \<le> n" "n < 143" for n
    using that assms(7) len by (auto simp: cut_nth)
  have ib: "unat ib \<in> busy fs" "unat ib \<noteq> 0" "unat ib \<notin> ?G"
    using indirect_own [of ?i "disk fs"] assms(4,5) ok(1,2) by (auto simp: unat_eq_0 inode_ok_def)
  have "{imap (disk fs) ?i (15 + k) | k. k < 128 \<and> L < 15 + k \<and> imap (disk fs) ?i (15 + k) \<noteq> 0} = ?G"
  proof (intro set_eqI iffI)
    fix x assume "x \<in> ?G"
    then obtain n where "x = imap (disk fs) ?i n" "n < 143" "15 \<le> n" "L < n" "x \<noteq> 0" by (auto simp: not_less not_le)
    then show "x \<in> {imap (disk fs) ?i (15 + k) | k. k < 128 \<and> L < 15 + k \<and> imap (disk fs) ?i (15 + k) \<noteq> 0}"
      by (intro CollectI exI [of _ "n - 15"]) auto
  next
    fix x assume "x \<in> {imap (disk fs) ?i (15 + k) | k. k < 128 \<and> L < 15 + k \<and> imap (disk fs) ?i (15 + k) \<noteq> 0}"
    then show "x \<in> ?G" by fastforce
  qed
  then have fr: "vol_ok fs2" "busy fs2 = busy fs - ?G" "disk fs2 = disk fs" "fs_core fs fs2"
    using assms(8) by (simp_all add: freed_def)
  have n2: "sfs_node fs2 p = Some sv" using fr(4) fs_core_node [of fs fs2] assms(2) by simp
  have ib2: "unat ib \<in> busy fs2" using ib fr(2) by simp
  show ?thesis
  proof (cases "list_ex (\<lambda>b. b \<noteq> 0) new")
    case False
    then have zero: "new ! k = 0" if "k < 128" for k using that len by (auto simp: list_ex_length)
    obtain fs3 where b: "sfs_bfree (unat ib) fs2 = Some fs3" "freed {unat ib} fs2 fs3"
      using bfree_frees [OF fr(1) ib2 ib(2)] by blast
    note b' = b(2) [unfolded freed_def]
    have n3: "sfs_node fs3 p = Some sv" using b' fs_core_node [of fs2 fs3] n2 by simp
    let ?fs' = "upd_inode p (\<lambda>i. i\<lparr> sfi_indirect := 0 \<rparr>) fs3"
    let ?sv' = "sv\<lparr> sv_i := ?i\<lparr> sfi_indirect := 0 \<rparr>, sv_dirty := True \<rparr>"
    have "shrunk p ?K fs sv ?fs' ?sv'"
    proof (rule shrunkI [OF assms(1-3)])
      show "vol_ok ?fs'" using b' by simp
      show "fs_frame p fs ?fs'"
        using fs_core_frame [OF fs_core_trans [OF fr(4), of fs3] upd_inode_node(2) [OF n3]] b' by simp
      show "sfs_node ?fs' p = Some ?sv'" using upd_inode_node(1) [OF n3] by simp
      show "imap (disk ?fs') (sv_i ?sv') n = (if ?K n then imap (disk fs) ?i n else 0)" for n
        using m [of n] nn [of n] zero [of "n - 15"] imap_beyond [of n "disk fs" ?i]
        by (cases "n < 15"; cases "n < 143") (auto simp: imap_def)
      show "busy ?fs' = busy fs - (?G \<union> (if sfi_indirect (sv_i ?sv') = sfi_indirect ?i then {} else {unat (sfi_indirect ?i)}))"
        using b' fr(2) assms(4,5) by auto
      show "disk ?fs' b = disk fs b" for b using b' fr(3) by simp
    qed (use ok(3) in \<open>simp_all add: same_object_def inode_sized_def\<close>)
    then show ?thesis using b(1) False by auto
  next
    case True
    obtain fs' where w: "(if new \<noteq> idbuf then sfs_wblock d_io (be32s new) (unat ib) fs2 else Some (Inr (), fs2)) = Some (Inr (), fs')"
      "vol_ok fs'" "busy fs' = busy fs2" "fs_core fs2 fs'" "de32s 128 (disk fs' (unat ib)) = new"
      "\<And>b. b \<noteq> unat ib \<Longrightarrow> disk fs' b = disk fs b"
    proof (cases "new = idbuf")
      case True
      then show ?thesis using that [of fs2] fr assms(6) by simp
    next
      case False
      obtain fs' where s: "sfs_wblock d_io (be32s new) (unat ib) fs2 = Some (Inr (), fs')" "stored (unat ib) (be32s new) fs2 fs'"
        using wblock_stores [OF vol_dev [OF fr(1)] busy_device [OF fr(1) ib2], of "be32s new"] len by auto
      show ?thesis using that [of fs'] s(1) False stored_facts [OF fr(1) s(2)] fr(3) de32s_nil [OF len(2)] by simp
    qed
    have n': "sfs_node fs' p = Some sv" using w(4) fs_core_node [of fs2 fs'] n2 by simp
    have "shrunk p ?K fs sv fs' sv"
    proof (rule shrunkI [OF assms(1-3) w(2) _ _ n' ok(3)])
      show "fs_frame p fs fs'" using fs_core_frame [OF fs_core_trans [OF fr(4) w(4)] fs_frame_refl] .
      show "imap (disk fs') ?i n = (if ?K n then imap (disk fs) ?i n else 0)" for n
        using m [of n] nn [of n] imap_beyond [of n] w(5) assms(4,5)
        by (cases "n < 15"; cases "n < 143") (auto simp: imap_def)
      show "busy fs' = busy fs - (?G \<union> (if sfi_indirect ?i = sfi_indirect ?i then {} else {unat (sfi_indirect ?i)}))"
        using w(3) fr(2) by simp
      show "disk fs' b = disk fs b" if "b \<noteq> unat (sfi_indirect ?i)" for b using w(6) that assms(4) by simp
    qed (simp_all add: same_object_def)
    then show ?thesis using w(1) True by auto
  qed
qed

lemma trunc_indirect_shrinks:
  assumes "vol_ok fs" "sfs_node fs p = Some sv" "file_ok blk fs (sv_i sv)"
  shows "\<exists>fs' sv'. trunc_indirect d_io p L fs = Some (Inr (), fs') \<and> shrunk p (\<lambda>n. n < 15 \<or> n \<le> L) fs sv fs' sv'"
proof -
  let ?i = "sv_i sv"
  define ib where "ib = sfi_indirect ?i"
  show ?thesis
  proof (cases "L < 142 \<and> ib \<noteq> 0")
    case False
    have "imap (disk fs) ?i n = 0" if "\<not> (n < 15 \<or> n \<le> L)" for n
      using False that imap_beyond [of n "disk fs" ?i] by (cases "n < 143") (auto simp: ib_def imap_def)
    then have "shrunk p (\<lambda>n. n < 15 \<or> n \<le> L) fs sv fs sv" by (intro shrunk_nothing [OF assms]) blast
    moreover have "trunc_indirect d_io p L fs = Some (Inr (), fs)"
      using False assms(2) by (auto simp: trunc_indirect_def SFS_NDIRECT_def SFS_DBPERIDB_def ib_def)
    ultimately show ?thesis by blast
  next
    case True
    have "unat ib \<in> busy fs" using indirect_own [of ?i] True assms(3) by (auto simp: ib_def file_ok_def)
    then obtain fs1 where r: "sfs_rblock d_io (unat ib) fs = Some (Inr (disk fs (unat ib)), fs1)" "quiet fs fs1"
      using rblock_reads [OF vol_dev [OF assms(1)] busy_device [OF assms(1)]] by blast
    note q = quiet_facts [OF assms(1) r(2)] and g = quiet_grown [OF assms r(2)]
    define idbuf where "idbuf = de32s 128 (disk fs1 (unat ib))"
    have m: "imap (disk fs1) ?i (15 + k) = unat (idbuf ! k)" if "k < length idbuf" for k
      using that True by (simp add: imap_def idbuf_def ib_def)
    have len: "length idbuf = 128" by (simp add: idbuf_def)
    obtain fs2 where f: "free_past (\<lambda>j. L < 15 + j) 0 idbuf fs1 = Some (cut (\<lambda>j. L < 15 + j) 0 idbuf, fs2)"
      "freed {imap (disk fs1) ?i (15 + k) | k. k < 128 \<and> L < 15 + k \<and> imap (disk fs1) ?i (15 + k) \<noteq> 0} fs1 fs2"
      using entries_free [OF q(1) g(3) m] len by auto
    from trunc_entries_shrinks [OF q(1) g(2,3) ib_def [symmetric] conjunct2 [OF True] idbuf_def refl f(2)]
    obtain fs' sv' where e: "(if \<not> list_ex (\<lambda>b. b \<noteq> 0) (cut (\<lambda>j. L < 15 + j) 0 idbuf)
      then do {
        fs \<leftarrow> sfs_bfree (unat ib) fs2;
        Some (Inr (), upd_inode p (\<lambda>i. i\<lparr> sfi_indirect := 0 \<rparr>) fs)
      }
      else if cut (\<lambda>j. L < 15 + j) 0 idbuf \<noteq> idbuf then sfs_wblock d_io (be32s (cut (\<lambda>j. L < 15 + j) 0 idbuf)) (unat ib) fs2
      else Some (Inr (), fs2)) = Some (Inr (), fs')" "shrunk p (\<lambda>n. n < 15 \<or> n \<le> L) fs1 sv fs' sv'" by blast
    have "shrunk p (\<lambda>n. True \<and> (n < 15 \<or> n \<le> L)) fs sv fs' sv'"
    proof (rule shrunk_trans [OF _ e(2) refl])
      show "shrunk p (\<lambda>n. True) fs sv fs1 sv"
        using g q fs_core_frame [OF q(4) fs_frame_refl, of p] by (simp add: shrunk_def same_object_def)
    qed
    moreover have "de32s 128 (disk fs (unat ib)) = idbuf" using q(2) by (simp add: idbuf_def)
    then have "trunc_indirect d_io p L fs = Some (Inr (), fs')"
      using True assms(2) r(1) f(1) e(1)
      by (simp add: trunc_indirect_def SFS_NDIRECT_def SFS_DBPERIDB_def ib_def [symmetric] Let_def cong: if_cong)
    ultimately show ?thesis by auto
  qed
qed

lemma truncate_shrinks:
  assumes "vol_ok fs" "sfs_node fs p = Some sv" "file_ok blk fs (sv_i sv)" "0 \<le> len" "len + 512 < 2 ^ 31"
  shows "\<exists>fs' sv'. sfs_truncate d_io p len fs = Some (Inr (), fs') \<and>
    shrunk p (kept ((nat len + 511) div 512)) fs sv fs' sv' \<and> unat (sfi_size (sv_i sv')) = nat len"
proof -
  let ?L = "(nat len + 511) div 512"
  have L: "u32_quot (len + 512 - 1) 512 = ?L"
    using assms(4,5) u32_quot_off [of "len + 512 - 1"] by (simp add: nat_add_distrib)
  obtain fs1 sv1 where d: "trunc_direct p ?L fs = Some fs1" "shrunk p (\<lambda>n. 15 \<le> n \<or> n < ?L) fs sv fs1 sv1"
    "sfi_indirect (sv_i sv1) = sfi_indirect (sv_i sv)"
    using trunc_direct_shrinks [OF assms(1-3)] by blast
  then have g1: "vol_ok fs1" "sfs_node fs1 p = Some sv1" "file_ok blk fs1 (sv_i sv1)" by (simp_all add: shrunk_def)
  obtain fs2 sv2 where i: "trunc_indirect d_io p ?L fs1 = Some (Inr (), fs2)"
    "shrunk p (\<lambda>n. n < 15 \<or> n \<le> ?L) fs1 sv1 fs2 sv2"
    using trunc_indirect_shrinks [OF g1] by blast
  then have g2: "vol_ok fs2" "sfs_node fs2 p = Some sv2" "file_ok blk fs2 (sv_i sv2)" by (simp_all add: shrunk_def)
  have k: "(\<lambda>n. (15 \<le> n \<or> n < ?L) \<and> (n < 15 \<or> n \<le> ?L)) = kept ?L" by (auto simp: kept_def fun_eq_iff)
  note s = shrunk_trans [OF d(2) i(2) d(3), unfolded k]
  let ?w = "word_of_int len :: u32"
  let ?fs' = "upd_inode p (\<lambda>i. i\<lparr> sfi_size := ?w \<rparr>) fs2"
  let ?sv' = "sv2\<lparr> sv_i := (sv_i sv2)\<lparr> sfi_size := ?w \<rparr>, sv_dirty := True \<rparr>"
  have r: "grown p fs2 sv2 ?fs' ?sv'" using resize_grown(1) [OF g2] by blast
  have m: "imap (disk fs2) (sv_i ?sv') = imap (disk fs2) (sv_i sv2)" by (simp add: imap_def fun_eq_iff)
  have o: "own (disk fs2) (sv_i ?sv') = own (disk fs2) (sv_i sv2)" unfolding own_def m by simp
  have "fs_frame p fs ?fs'" "same_object sv ?sv'"
    using s r fs_frame_trans [of p fs fs2 ?fs'] same_object_trans [of sv sv2 ?sv'] by (simp_all add: shrunk_def file_grown_def)
  then have "shrunk p (kept ?L) fs sv ?fs' ?sv'" using s r m o by (simp add: shrunk_def file_grown_def)
  moreover have "unat ?w = nat len" using assms(4,5) by (simp add: unsigned_of_int take_bit_int_eq_self)
  moreover have "sfs_truncate d_io p len fs = Some (Inr (), ?fs')"
    using L d(1) i(1) assms(4,5) by (simp add: sfs_truncate_def SFS_BLOCKSIZE_def cint_def)
  ultimately show ?thesis by auto
qed

end

section \<open>Truncating a file\<close>







end
