(* ===== verification/Libc_Mem.thy ===== *)
theory Libc_Mem
  imports Sfs_Disk
begin

text \<open>
  The memory functions that the kernel shares with the C library: \<^verbatim>\<open>memcpy.c\<close>,
  \<^verbatim>\<open>memmove.c\<close>, \<^verbatim>\<open>bzero.c\<close>, \<^verbatim>\<open>memset.c\<close> and \<^verbatim>\<open>memcmp.c\<close>
  of \<^verbatim>\<open>lib/libc\<close>. Memory is a function from addresses to bytes; a \<^verbatim>\<open>long\<close> is four
  bytes, the most significant first, as on the MIPS. The functions return the memory they leave;
  the pointer that \<^verbatim>\<open>memcpy\<close> and its like also return is their first argument.

  The copies by words, forwards and backwards, are shown to be the same function as a copy of
  the whole block at once.
\<close>

section \<open>The functions\<close>

definition load_long :: "umem \<Rightarrow> u32 \<Rightarrow> u32" where
  "load_long m a = de32 (mem_get m a 4)"

definition store_long :: "umem \<Rightarrow> u32 \<Rightarrow> u32 \<Rightarrow> umem" where
  "store_long m a w = mem_put m a (be32 w)"

text \<open>The bodies of the loops: \<^verbatim>\<open>d[i] = s[i]\<close> for words and for bytes.\<close>

definition copy_long :: "u32 \<Rightarrow> u32 \<Rightarrow> nat \<Rightarrow> umem \<Rightarrow> umem" where
  "copy_long d s i m = store_long m (d + word_of_nat (4 * i)) (load_long m (s + word_of_nat (4 * i)))"

definition copy_char :: "u32 \<Rightarrow> u32 \<Rightarrow> nat \<Rightarrow> umem \<Rightarrow> umem" where
  "copy_char d s i m = m(d + word_of_nat i := m (s + word_of_nat i))"

definition memcpy :: "umem \<Rightarrow> u32 \<Rightarrow> u32 \<Rightarrow> nat \<Rightarrow> umem" where
  "memcpy m dst src len =
     (if unat dst mod 4 = 0 \<and> unat src mod 4 = 0 \<and> len mod 4 = 0
      then fold (copy_long dst src) [0..<len div 4] m
      else fold (copy_char dst src) [0..<len] m)"

definition memmove :: "umem \<Rightarrow> u32 \<Rightarrow> u32 \<Rightarrow> nat \<Rightarrow> umem" where
  "memmove m dst src len =
     (if dst < src then memcpy m dst src len
      else if unat dst mod 4 = 0 \<and> unat src mod 4 = 0 \<and> len mod 4 = 0
      then fold (copy_long dst src) (rev [0..<len div 4]) m
      else fold (copy_char dst src) (rev [0..<len]) m)"

definition bzero :: "umem \<Rightarrow> u32 \<Rightarrow> nat \<Rightarrow> umem" where
  "bzero m block len =
     (if unat block mod 4 = 0 \<and> len mod 4 = 0
      then fold (\<lambda>i m. store_long m (block + word_of_nat (4 * i)) 0) [0..<len div 4] m
      else fold (\<lambda>i m. m(block + word_of_nat i := 0)) [0..<len] m)"

definition memset :: "umem \<Rightarrow> u32 \<Rightarrow> int \<Rightarrow> nat \<Rightarrow> umem" where
  "memset m ptr ch len = fold (\<lambda>i m. m(ptr + word_of_nat i := word_of_int ch)) [0..<len] m"

fun memcmp_loop :: "umem \<Rightarrow> u32 \<Rightarrow> u32 \<Rightarrow> nat list \<Rightarrow> int" where
  "memcmp_loop m a b [] = 0"
| "memcmp_loop m a b (i # is) =
     (if m (a + word_of_nat i) \<noteq> m (b + word_of_nat i)
      then uint (m (a + word_of_nat i)) - uint (m (b + word_of_nat i))
      else memcmp_loop m a b is)"

definition memcmp :: "umem \<Rightarrow> u32 \<Rightarrow> u32 \<Rightarrow> nat \<Rightarrow> int" where
  "memcmp m a b len = memcmp_loop m a b [0..<len]"

section \<open>Copying piece by piece\<close>

lemma no_high_bit: "8 \<le> n \<Longrightarrow> \<not> bit (b :: u8) n"
  using bit_imp_le_length [of b n] by auto

lemma be32_de32:
  assumes "length bs = 4"
  shows "be32 (de32 bs) = bs"
proof -
  obtain a b c d where bs: "bs = [a, b, c, d]" using assms
    by (auto simp: numeral_eq_Suc length_Suc_conv)
  have "ucast (drop_bit 24 (de32 bs)) = a" "ucast (drop_bit 16 (de32 bs)) = b"
    "ucast (drop_bit 8 (de32 bs)) = c" "ucast (de32 bs) = d"
    unfolding bs de32_def
    by (rule bit_word_eqI, simp add: bit_simps no_high_bit)+
  then show ?thesis by (simp add: be32_def bs)
qed

lemma copy_long_put: "copy_long d s i m = mem_put m (d + word_of_nat (4 * i)) (mem_get m (s + word_of_nat (4 * i)) 4)"
  by (simp add: copy_long_def store_long_def load_long_def be32_de32)

lemma mem_put_one: "mem_put m a [x] = m(a := x)"
  by (auto simp: mem_put_def fun_eq_iff unat_eq_0)

lemma copy_char_put: "copy_char d s i m = mem_put m (d + word_of_nat (1 * i)) (mem_get m (s + word_of_nat (1 * i)) 1)"
  by (simp add: copy_char_def mem_get_def mem_put_one)

text \<open>Writing the bytes before a block that has already been written.\<close>

lemma mem_put_before:
  assumes "length xs + length ys \<le> 2 ^ 32"
  shows "mem_put (mem_put m (a + word_of_nat (length xs)) ys) a xs = mem_put m a (xs @ ys)"
proof
  fix b :: u32
  show "mem_put (mem_put m (a + word_of_nat (length xs)) ys) a xs b = mem_put m a (xs @ ys) b"
  proof (cases "unat (b - a) < length xs")
    case True
    then show ?thesis by (simp add: mem_put_def nth_append)
  next
    case False
    have "unat (b - a) < 2 ^ LENGTH(32)" by (rule unsigned_less)
    with False have l: "length xs \<le> unat (b - a)" "length xs < 2 ^ 32" by simp_all
    have "unat ((b - a) - word_of_nat (length xs)) = unat (b - a) - length xs"
      using l by (simp add: unat_sub word_le_nat_alt unat_of_nat_small)
    then have "unat (b - (a + word_of_nat (length xs))) = unat (b - a) - length xs" by (simp only: diff_diff_eq)
    then show ?thesis using False by (auto simp: mem_put_def nth_append)
  qed
qed

text \<open>Reading outside a block that has been written.\<close>

lemma mem_get_outside:
  assumes "\<And>t. t < n \<Longrightarrow> length xs \<le> unat (b + word_of_nat t - a)"
  shows "mem_get (mem_put m a xs) b n = mem_get m b n"
proof (rule nth_equalityI)
  fix t assume "t < length (mem_get (mem_put m a xs) b n)"
  then show "mem_get (mem_put m a xs) b n ! t = mem_get m b n ! t"
    using assms [of t] by (simp add: mem_put_def)
qed simp

text \<open>
  The loops, for pieces of \<open>k\<close> bytes: going up is right when the source is not below the
  destination or ends before it, going down when the source is not above the destination.
\<close>

lemma unat_offset:
  assumes "unat (a :: u32) + n < 2 ^ 32"
  shows "unat (a + word_of_nat n) = unat a + n"
  using assms by (simp add: unat_word_ariths unat_of_nat)

lemma dist_up:
  fixes a b :: u32
  assumes "unat a \<le> unat b \<or> unat b + len \<le> unat a" "unat a + len \<le> 2 ^ 32" "unat b + len \<le> 2 ^ 32" "i + t < len"
  shows "i \<le> unat (b + word_of_nat i + word_of_nat t - a)"
proof -
  have c: "unat (b + word_of_nat (i + t)) = unat b + (i + t)" using assms(3,4) by (intro unat_offset) simp
  have "i \<le> unat (b + word_of_nat (i + t) - a)" unfolding unat_sub_if' c using assms by auto
  then show ?thesis by (simp only: of_nat_add add.assoc)
qed

lemma dist_down:
  fixes a b :: u32
  assumes "unat b \<le> unat a" "unat a + len \<le> 2 ^ 32" "i + k \<le> len" "t < k"
  shows "len - (i + k) \<le> unat (b + word_of_nat i + word_of_nat t - (a + word_of_nat (i + k)))"
proof (cases "i + k = len")
  case False
  have c: "unat (b + word_of_nat (i + t)) = unat b + (i + t)" "unat (a + word_of_nat (i + k)) = unat a + (i + k)"
    using assms False by (intro unat_offset; simp)+
  have "len - (i + k) \<le> unat (b + word_of_nat (i + t) - (a + word_of_nat (i + k)))"
    unfolding unat_sub_if' c using assms by auto
  then show ?thesis by (simp only: of_nat_add add.assoc)
qed simp

lemma copy_up:
  assumes step: "\<And>i m. step i m = mem_put m (d + word_of_nat (k * i)) (mem_get m (s + word_of_nat (k * i)) k)"
    and safe: "unat d \<le> unat s \<or> unat s + k * n \<le> unat d" "unat d + k * n \<le> 2 ^ 32" "unat s + k * n \<le> 2 ^ 32"
  shows "i \<le> n \<Longrightarrow> fold step [0..<i] m = mem_put m d (mem_get m s (k * i))"
proof (induction i)
  case (Suc i)
  let ?m = "mem_put m d (mem_get m s (k * i))"
  have le: "k * i + k \<le> k * n" using Suc.prems mult_le_mono2 [of "Suc i" n k] by simp
  have "mem_get ?m (s + word_of_nat (k * i)) k = mem_get m (s + word_of_nat (k * i)) k"
  proof (rule mem_get_outside)
    fix t assume "t < k"
    then show "length (mem_get m s (k * i)) \<le> unat (s + word_of_nat (k * i) + word_of_nat t - d)"
      using dist_up [OF safe, of "k * i" t] le by simp
  qed
  then have "step i ?m = mem_put ?m (d + word_of_nat (k * i)) (mem_get m (s + word_of_nat (k * i)) k)"
    by (simp only: step)
  moreover have "fold step [0..<Suc i] m = step i (fold step [0..<i] m)" by simp
  moreover have "fold step [0..<i] m = ?m" using Suc by simp
  ultimately have "fold step [0..<Suc i] m = mem_put ?m (d + word_of_nat (k * i)) (mem_get m (s + word_of_nat (k * i)) k)"
    by (simp only:)
  also have "\<dots> = mem_put m d (mem_get m s (k * i) @ mem_get m (s + word_of_nat (k * i)) k)"
    using mem_put_append [of "mem_get m s (k * i)" "mem_get m (s + word_of_nat (k * i)) k" m d] le safe(2) by simp
  also have "\<dots> = mem_put m d (mem_get m s (k * Suc i))" using mem_get_add [of m s "k * i" k] by (simp add: add.commute)
  finally show ?case .
qed simp

lemma copy_down:
  assumes st: "\<And>i m. st i m = mem_put m (d + word_of_nat (k * i)) (mem_get m (s + word_of_nat (k * i)) k)"
    and safe: "unat s \<le> unat d" "unat d + k * n \<le> 2 ^ 32"
  shows "i \<le> n \<Longrightarrow> fold st (rev [i..<n]) m = mem_put m (d + word_of_nat (k * i)) (mem_get m (s + word_of_nat (k * i)) (k * (n - i)))"
proof (induction i rule: inc_induct)
  case (step i)
  let ?d = "d + word_of_nat (k * i)" and ?s = "s + word_of_nat (k * i)"
  let ?ys = "mem_get m (s + word_of_nat (k * Suc i)) (k * (n - Suc i))"
  let ?m = "mem_put m (d + word_of_nat (k * Suc i)) ?ys"
  have le: "k * i + k \<le> k * n" using step.hyps mult_le_mono2 [of "Suc i" n k] by simp
  have split: "k * (n - i) = k + k * (n - Suc i)" using Suc_diff_Suc [of i n] step.hyps by (metis mult_Suc_right)
  have ks: "k * (n - Suc i) = k * n - (k * i + k)" by (simp add: diff_mult_distrib2)
  have "mem_get ?m ?s k = mem_get m ?s k"
  proof (rule mem_get_outside)
    fix t assume "t < k"
    then show "length ?ys \<le> unat (?s + word_of_nat t - (d + word_of_nat (k * Suc i)))"
      using dist_down [OF safe le, of t] ks by (simp add: add.commute)
  qed
  then have "st i ?m = mem_put ?m ?d (mem_get m ?s k)" by (simp only: st)
  moreover have "fold st (rev [i..<n]) m = st i (fold st (rev [Suc i..<n]) m)" using step.hyps by (simp add: upt_conv_Cons)
  ultimately have "fold st (rev [i..<n]) m = mem_put ?m ?d (mem_get m ?s k)" by (simp only: step.IH)
  also have "?m = mem_put m (?d + word_of_nat (length (mem_get m ?s k))) ?ys" by (simp add: add.commute add.left_commute)
  also have "mem_put \<dots> ?d (mem_get m ?s k) = mem_put m ?d (mem_get m ?s k @ ?ys)"
    using le safe(2) ks by (intro mem_put_before) simp
  also have "mem_get m ?s k @ ?ys = mem_get m ?s (k * (n - i))"
    unfolding split mem_get_add by (simp add: add.commute add.left_commute)
  finally show ?case .
qed simp

section \<open>The functions do what they are for\<close>

lemma memcpy_copies:
  assumes "unat dst \<le> unat src \<or> unat src + len \<le> unat dst" "unat dst + len \<le> 2 ^ 32" "unat src + len \<le> 2 ^ 32"
  shows "memcpy m dst src len = mem_put m dst (mem_get m src len)"
proof (cases "unat dst mod 4 = 0 \<and> unat src mod 4 = 0 \<and> len mod 4 = 0")
  case True
  then have "4 * (len div 4) = len" using mult_div_mod_eq [of 4 len] by simp
  then show ?thesis
    using copy_up [of "copy_long dst src" dst 4 src "len div 4" "len div 4" m, OF copy_long_put] assms True
    by (simp add: memcpy_def)
next
  case False
  then show ?thesis
    using copy_up [of "copy_char dst src" dst 1 src len len m, OF copy_char_put] assms
    by (auto simp: memcpy_def)
qed

text \<open>
  C28. \<^verbatim>\<open>memmove\<close> is the copy of a block of memory. Whichever of its four loops it takes (up
  or down, by words or by bytes) and however the two blocks overlap, the memory afterwards is the
  old one with the old bytes of the source at the destination, provided neither block runs over
  the top of memory. \<^verbatim>\<open>memcpy\<close> is the same function when the source is not below the
  destination or the blocks do not overlap.
\<close>

theorem memmove_copies:
  assumes "unat dst + len \<le> 2 ^ 32" "unat src + len \<le> 2 ^ 32"
  shows "memmove m dst src len = mem_put m dst (mem_get m src len) \<and>
    (unat dst \<le> unat src \<or> unat src + len \<le> unat dst \<longrightarrow> memcpy m dst src len = memmove m dst src len)"
proof -
  have "memmove m dst src len = mem_put m dst (mem_get m src len)"
  proof (cases "dst < src")
    case True
    then show ?thesis using memcpy_copies [OF _ assms] by (simp add: memmove_def word_less_nat_alt)
  next
    case False
    then have le: "unat src \<le> unat dst" by (simp add: word_less_nat_alt)
    show ?thesis
    proof (cases "unat dst mod 4 = 0 \<and> unat src mod 4 = 0 \<and> len mod 4 = 0")
      case True
      then have "4 * (len div 4) = len" using mult_div_mod_eq [of 4 len] by simp
      then show ?thesis
        using copy_down [of "copy_long dst src" dst 4 src "len div 4" 0 m, OF copy_long_put le] assms True False
        by (simp add: memmove_def)
    next
      case f: False
      then show ?thesis
        using copy_down [of "copy_char dst src" dst 1 src len 0 m, OF copy_char_put le] assms False
        by (auto simp: memmove_def)
    qed
  qed
  then show ?thesis using memcpy_copies [OF _ assms] by simp
qed

theorem memmove_copies_witness:
  "memmove (mem_put (\<lambda>_. 0) 0x1000 [1, 2, 3, 4, 5]) 0x1001 0x1000 4
     = mem_put (mem_put (\<lambda>_. 0) 0x1000 [1, 2, 3, 4, 5]) 0x1001 [1, 2, 3, 4]"
proof -
  have "mem_get (mem_put (\<lambda>_. 0) 0x1000 [1, 2, 3, 4, 5]) 0x1000 4 = [1, 2, 3, 4]"
    by (simp add: mem_get_def mem_put_def upt_rec)
  then show ?thesis
    using memmove_copies [of "0x1001" 4 "0x1000" "mem_put (\<lambda>_. 0) 0x1000 [1, 2, 3, 4, 5]"] by simp
qed

lemma fill_up:
  assumes step: "\<And>i m. step i m = mem_put m (d + word_of_nat (k * i)) (replicate k c)" and "k * n \<le> 2 ^ 32"
  shows "i \<le> n \<Longrightarrow> fold step [0..<i] m = mem_put m d (replicate (k * i) c)"
proof (induction i)
  case (Suc i)
  have le: "k * i + k \<le> 2 ^ 32" using Suc.prems mult_le_mono2 [of "Suc i" n k] assms(2) by simp
  have "fold step [0..<Suc i] m = step i (mem_put m d (replicate (k * i) c))" using Suc by simp
  also have "\<dots> = mem_put m d (replicate (k * i) c @ replicate k c)"
    unfolding step using mem_put_append [of "replicate (k * i) c" "replicate k c" m d] le by simp
  also have "replicate (k * i) c @ replicate k c = replicate (k * Suc i) c" by (simp add: replicate_add [symmetric] add.commute)
  finally show ?case .
qed simp

text \<open>\<^verbatim>\<open>bzero\<close> by words and by bytes, and \<^verbatim>\<open>memset\<close>, fill the block.\<close>

lemma memset_fills:
  assumes "len \<le> 2 ^ 32"
  shows "memset m ptr ch len = mem_put m ptr (replicate len (word_of_int ch))"
  using fill_up [of "\<lambda>i m. m(ptr + word_of_nat i := word_of_int ch)" ptr 1 "word_of_int ch" len len m] assms
  by (simp add: memset_def mem_put_one)

lemma be32_zero: "be32 0 = replicate 4 0"
  by (simp add: be32_def numeral_eq_Suc)

lemma bzero_fills:
  assumes "len \<le> 2 ^ 32"
  shows "bzero m block len = mem_put m block (replicate len 0)"
proof (cases "unat block mod 4 = 0 \<and> len mod 4 = 0")
  case True
  then have l: "4 * (len div 4) = len" using mult_div_mod_eq [of 4 len] by simp
  have "fold (\<lambda>i m. store_long m (block + word_of_nat (4 * i)) 0) [0..<len div 4] m = mem_put m block (replicate (4 * (len div 4)) 0)"
    by (rule fill_up [where n = "len div 4"]) (use assms l in \<open>simp_all only: store_long_def be32_zero order_refl\<close>)
  then show ?thesis using True l by (simp only: bzero_def if_True simp_thms)
next
  case False
  have "fold (\<lambda>i m. m(block + word_of_nat i := 0)) [0..<len] m = mem_put m block (replicate (1 * len) 0)"
    by (rule fill_up [where n = len]) (use assms in \<open>simp_all add: mem_put_one\<close>)
  then show ?thesis using False by (simp only: bzero_def if_False simp_thms mult_1)
qed

lemma memcmp_loop_zero:
  "memcmp_loop m a b xs = 0 \<longleftrightarrow> (\<forall>i\<in>set xs. m (a + word_of_nat i) = m (b + word_of_nat i))"
  by (induction xs) (auto dest: unsigned_word_eqI)

lemma memcmp_zero: "memcmp m a b len = 0 \<longleftrightarrow> mem_get m a len = mem_get m b len"
  by (auto simp: memcmp_def memcmp_loop_zero mem_get_def)

end
