(* ===== verification/Libc_String.thy ===== *)
theory Libc_String
  imports Libc_Mem
begin

text \<open>
  The string functions that the kernel shares with the C library: \<^verbatim>\<open>strlen.c\<close>,
  \<^verbatim>\<open>strcpy.c\<close>, \<^verbatim>\<open>strcat.c\<close>, \<^verbatim>\<open>strcmp.c\<close>, \<^verbatim>\<open>strchr.c\<close>,
  \<^verbatim>\<open>strrchr.c\<close>, \<^verbatim>\<open>strtok_r.c\<close> and \<^verbatim>\<open>atoi.c\<close> of
  \<^verbatim>\<open>lib/libc\<close>. A \<^verbatim>\<open>char\<close> is signed, as it is for the compiler of the MIPS; the
  null pointer is 0. A loop over memory that never meets a terminator does not end: \<open>None\<close>.
\<close>

section \<open>The functions\<close>

partial_function (option) strlen_from :: "umem \<Rightarrow> u32 \<Rightarrow> nat \<Rightarrow> nat option" where
  "strlen_from m s ret =
     (if m (s + word_of_nat ret) \<noteq> 0 then strlen_from m s ((ret + 1) mod 2 ^ 32) else Some ret)"

definition strlen :: "umem \<Rightarrow> u32 \<Rightarrow> nat option" where
  "strlen m s = strlen_from m s 0"

partial_function (option) strcpy_from :: "umem \<Rightarrow> u32 \<Rightarrow> u32 \<Rightarrow> nat \<Rightarrow> umem option" where
  "strcpy_from m dest src i =
     (if m (src + word_of_nat i) \<noteq> 0
      then strcpy_from (m(dest + word_of_nat i := m (src + word_of_nat i))) dest src ((i + 1) mod 2 ^ 32)
      else Some (m(dest + word_of_nat i := 0)))"

definition strcpy :: "umem \<Rightarrow> u32 \<Rightarrow> u32 \<Rightarrow> umem option" where
  "strcpy m dest src = strcpy_from m dest src 0"

definition strcat :: "umem \<Rightarrow> u32 \<Rightarrow> u32 \<Rightarrow> umem option" where
  "strcat m dest src = do {
     offset \<leftarrow> strlen m dest;
     strcpy m (dest + word_of_nat offset) src
   }"



partial_function (option) strchr :: "umem \<Rightarrow> u32 \<Rightarrow> int \<Rightarrow> u32 option" where
  "strchr m s ch =
     (if m s \<noteq> 0
      then if sint (m s) = ch then Some s else strchr m (s + 1) ch
      else Some (if sint (m s) = ch then s else 0))"

fun strrchr_down :: "umem \<Rightarrow> u32 \<Rightarrow> int \<Rightarrow> nat \<Rightarrow> u32" where
  "strrchr_down m s ch 0 = 0"
| "strrchr_down m s ch (Suc i) =
     (if sint (m (s + word_of_nat i)) = ch then s + word_of_nat i else strrchr_down m s ch i)"

definition strrchr :: "umem \<Rightarrow> u32 \<Rightarrow> int \<Rightarrow> u32 option" where
  "strrchr m s ch = do {
     n \<leftarrow> strlen m s;
     Some (strrchr_down m s ch ((n + 1) mod 2 ^ 32))
   }"



partial_function (option) atoi_blanks :: "umem \<Rightarrow> u32 \<Rightarrow> u32 option" where
  "atoi_blanks m s = (if m s = 32 \<or> m s = 9 then atoi_blanks m (s + 1) else Some s)"

definition digits :: bytes where
  "digits = [48, 49, 50, 51, 52, 53, 54, 55, 56, 57]"

partial_function (option) atoi_digits :: "umem \<Rightarrow> u32 \<Rightarrow> u32 \<Rightarrow> u32 option" where
  "atoi_digits m s val =
     (if m s \<noteq> 0 \<and> m s \<in> set digits
      then atoi_digits m (s + 1) (val * 10 + word_of_nat (length (takeWhile (\<lambda>d. d \<noteq> m s) digits)))
      else Some val)"

definition atoi :: "umem \<Rightarrow> u32 \<Rightarrow> int option" where
  "atoi m s = do {
     s \<leftarrow> atoi_blanks m s;
     let neg = (m s = 45);
     let s = (if m s = 45 then s + 1 else if m s = 43 then s + 1 else s);
     val \<leftarrow> atoi_digits m s 0;
     Some (if neg then sint (- val) else sint val)
   }"

section \<open>Strings in memory\<close>

definition cstring :: "umem \<Rightarrow> u32 \<Rightarrow> bytes \<Rightarrow> bool" where
  "cstring m a s \<longleftrightarrow> unat a + length s < 2 ^ 32 \<and> mem_get m a (length s + 1) = s @ [0] \<and> 0 \<notin> set s"

lemma cstring_nth:
  assumes "cstring m a s"
  shows "i < length s \<Longrightarrow> m (a + word_of_nat i) = s ! i" "i < length s \<Longrightarrow> s ! i \<noteq> 0"
    "m (a + word_of_nat (length s)) = 0"
proof -
  have g: "mem_get m a (length s + 1) = s @ [0]" "0 \<notin> set s" using assms by (simp_all add: cstring_def)
  show "m (a + word_of_nat i) = s ! i" if "i < length s"
    using arg_cong [OF g(1), of "\<lambda>l. l ! i"] that by (simp add: nth_append)
  show "s ! i \<noteq> 0" if "i < length s" using g(2) that nth_mem by metis
  show "m (a + word_of_nat (length s)) = 0"
    using arg_cong [OF g(1), of "\<lambda>l. l ! length s"] by simp
qed

lemma cstring_Cons:
  "cstring m a (c # s) \<longleftrightarrow> m a = c \<and> c \<noteq> 0 \<and> unat a + 1 < 2 ^ 32 \<and> cstring m (a + 1) s"
proof -
  have "unat a + 1 < 2 ^ 32 \<Longrightarrow> unat (a + 1) = unat a + 1" using unat_offset [of a 1] by simp
  then show ?thesis by (auto simp: cstring_def mem_get_Suc)
qed

lemma cstring_Nil: "cstring m a [] \<longleftrightarrow> m a = 0"
proof -
  have "unat a < 2 ^ LENGTH(32)" by (rule unsigned_less)
  then show ?thesis by (simp add: cstring_def mem_get_def)
qed

lemma cstring_short: "cstring m a s \<Longrightarrow> length s < 2 ^ 32"
  by (simp add: cstring_def)

text \<open>Counting up from \<open>i\<close> within a string.\<close>

lemma strlen_from_cstring:
  assumes "cstring m a s"
  shows "i \<le> length s \<Longrightarrow> strlen_from m a i = Some (length s)"
proof (induction rule: inc_induct)
  case base
  then show ?case using cstring_nth(3) [OF assms] by (simp add: strlen_from.simps)
next
  case (step i)
  then have "(i + 1) mod 2 ^ 32 = i + 1" using cstring_short [OF assms] by simp
  then show ?case using step cstring_nth(1,2) [OF assms] by (subst strlen_from.simps) simp
qed

lemma strlen_cstring: "cstring m a s \<Longrightarrow> strlen m a = Some (length s)"
  using strlen_from_cstring [of m a s 0] by (simp add: strlen_def)

lemma strcpy_from_cstring:
  assumes "cstring m0 src s" "unat dest + length s < 2 ^ 32" "unat dest \<le> unat src \<or> unat src + length s < unat dest"
  shows "i \<le> length s \<Longrightarrow> strcpy_from (mem_put m0 dest (take i s)) dest src i = Some (mem_put m0 dest (s @ [0]))"
proof (induction rule: inc_induct)
  case base
  let ?m = "mem_put m0 dest s"
  have z: "?m (src + word_of_nat (length s)) = 0"
    using dist_up [of dest src "length s + 1" "length s" 0] assms cstring_nth(3) [OF assms(1)]
    by (auto simp: cstring_def mem_put_def)
  have "?m(dest + word_of_nat (length s) := 0) = mem_put m0 dest (s @ [0])"
    using mem_put_append [of s "[0]" m0 dest] assms(2) by (simp add: mem_put_one)
  then show ?case using z by (subst strcpy_from.simps) simp
next
  case (step i)
  let ?m = "mem_put m0 dest (take i s)"
  have c: "?m (src + word_of_nat i) = s ! i" "s ! i \<noteq> 0"
    using dist_up [of dest src "length s + 1" i 0] assms step.hyps cstring_nth(1,2) [OF assms(1)]
    by (auto simp: cstring_def mem_put_def)
  have "?m(dest + word_of_nat i := s ! i) = mem_put m0 dest (take (i + 1) s)"
    using mem_put_append [of "take i s" "[s ! i]" m0 dest] assms(2) step.hyps
    by (simp add: mem_put_one take_Suc_conv_app_nth)
  moreover have "(i + 1) mod 2 ^ 32 = i + 1" using step.hyps assms(2) by simp
  ultimately show ?case using c step.IH by (subst strcpy_from.simps) simp
qed

lemma strcpy_cstring:
  assumes "cstring m src s" "unat dest + length s < 2 ^ 32" "unat dest \<le> unat src \<or> unat src + length s < unat dest"
  shows "strcpy m dest src = Some (mem_put m dest (s @ [0]))"
  using strcpy_from_cstring [OF assms, of 0] by (simp add: strcpy_def)

section \<open>Copying and appending\<close>

text \<open>
  C29. \<^verbatim>\<open>strcat\<close> appends: if there are strings \<open>d\<close> at \<open>dest\<close> and \<open>s\<close> at \<open>src\<close>, the
  room behind \<open>d\<close> does not run over the top of memory and \<open>s\<close> does not begin below the end of
  \<open>d\<close> and reach it, \<^verbatim>\<open>strcat\<close> returns, the string at \<open>dest\<close> is \<open>d @ s\<close>, and no byte
  outside the \<open>length s + 1\<close> bytes from the old terminator on has changed.
\<close>

theorem strcat_appends:
  assumes "cstring m dest d" "cstring m src s" "unat dest + length d + length s < 2 ^ 32"
    "unat dest + length d \<le> unat src \<or> unat src + length s < unat dest + length d"
  shows "\<exists>m'. strcat m dest src = Some m' \<and> cstring m' dest (d @ s) \<and>
    m' = mem_put m (dest + word_of_nat (length d)) (s @ [0])"
proof -
  let ?e = "dest + word_of_nat (length d)"
  let ?m = "mem_put m ?e (s @ [0])"
  have e: "unat ?e = unat dest + length d" using assms(3) by (intro unat_offset) simp
  have run: "strcat m dest src = Some ?m"
    using strlen_cstring [OF assms(1)] strcpy_cstring [OF assms(2), of ?e] assms(3,4) e by (simp add: strcat_def)
  have "mem_get m dest (length d) = d"
    using cstring_nth(1) [OF assms(1)] by (intro nth_equalityI) simp_all
  moreover have "mem_get ?m dest (length d) = mem_get m dest (length d)"
  proof (rule mem_get_outside)
    fix t assume "t < length d"
    then have "unat (dest + word_of_nat t) = unat dest + t" using assms(3) by (intro unat_offset) simp
    then show "length (s @ [0 :: u8]) \<le> unat (dest + word_of_nat t - ?e)"
      unfolding unat_sub_if' e using assms(3) \<open>t < length d\<close> by auto
  qed
  moreover have "mem_get ?m ?e (length s + 1) = s @ [0]"
    using mem_get_put [of "s @ [0]" m ?e] assms(3) by simp
  ultimately have "mem_get ?m dest (length d + (length s + 1)) = (d @ s) @ [0]"
    unfolding mem_get_add by simp
  moreover have "0 \<notin> set (d @ s)" using assms(1,2) by (simp add: cstring_def)
  ultimately have "cstring ?m dest (d @ s)" using assms(3) by (simp add: cstring_def add.assoc)
  then show ?thesis using run by blast
qed

definition two_strings :: umem where
  "two_strings = mem_put (mem_put (\<lambda>_. 0) 0x1000 [104, 105]) 0x2000 [33]"

lemma two_strings_ok: "cstring two_strings 0x1000 [104, 105]" "cstring two_strings 0x2000 [33]"
  by (simp_all add: cstring_def mem_get_def two_strings_def mem_put_def upt_rec)

theorem strcat_appends_witness:
  "\<exists>m'. strcat two_strings 0x1000 0x2000 = Some m' \<and> cstring m' 0x1000 [104, 105, 33]"
  using strcat_appends [OF two_strings_ok] by auto

section \<open>Comparing\<close>








section \<open>Parsing numbers\<close>

definition decimal :: "bytes \<Rightarrow> nat" where
  "decimal ds = foldl (\<lambda>v d. v * 10 + (unat d - 48)) 0 ds"

lemma digit_index: "d \<in> set digits \<Longrightarrow> length (takeWhile (\<lambda>e. e \<noteq> d) digits) = unat d - 48"
  by (auto simp: digits_def)

lemma atoi_digits_cstring:
  assumes "cstring m p (ds @ rest)" "set ds \<subseteq> set digits" "rest = [] \<or> hd rest \<notin> set digits"
  shows "atoi_digits m p (word_of_nat v) = Some (word_of_nat (foldl (\<lambda>v d. v * 10 + (unat d - 48)) v ds))"
  using assms
proof (induction ds arbitrary: p v)
  case Nil
  then show ?case by (cases rest) (subst atoi_digits.simps; simp add: cstring_Nil cstring_Cons)+
next
  case (Cons d ds)
  then have c: "m p = d" "d \<noteq> 0" "cstring m (p + 1) (ds @ rest)" "d \<in> set digits" by (simp_all add: cstring_Cons)
  have "word_of_nat v * 10 + word_of_nat (unat d - 48) = (word_of_nat (v * 10 + (unat d - 48)) :: u32)" by simp
  then show ?case using Cons.IH [OF c(3), of "v * 10 + (unat d - 48)"] Cons.prems c digit_index [OF c(4)]
    by (subst atoi_digits.simps) (simp del: of_nat_add of_nat_mult)
qed

lemma atoi_blanks_cstring:
  assumes "cstring m p (bl @ rest)" "set bl \<subseteq> {32, 9}" "rest = [] \<or> hd rest \<notin> {32, 9}"
  shows "atoi_blanks m p = Some (p + word_of_nat (length bl)) \<and> cstring m (p + word_of_nat (length bl)) rest"
  using assms
proof (induction bl arbitrary: p)
  case Nil
  then show ?case by (cases rest) (subst atoi_blanks.simps; auto simp: cstring_Nil cstring_Cons)+
next
  case (Cons b bl)
  then have c: "m p = b" "cstring m (p + 1) (bl @ rest)" "b = 32 \<or> b = 9" by (simp_all add: cstring_Cons)
  then show ?case using Cons.IH [OF c(2)] Cons.prems by (subst atoi_blanks.simps) (auto simp: add.assoc)
qed

text \<open>
  C32. \<^verbatim>\<open>atoi\<close> parses a decimal number: of a string made of blanks and tabs, an optional sign,
  digits and something that does not go on with a digit, it returns the value of the digits with
  that sign, reduced to a 32-bit signed integer. It does not notice an overflow.
\<close>

theorem atoi_parses:
  assumes "cstring m p (bl @ sg @ ds @ rest)" "set bl \<subseteq> {32, 9}" "sg \<in> {[], [45], [43]}" "set ds \<subseteq> set digits"
    "ds \<noteq> []" "rest = [] \<or> hd rest \<notin> set digits"
  shows "atoi m p = Some (sint (word_of_int (if sg = [45] then - int (decimal ds) else int (decimal ds)) :: u32))"
proof -
  let ?q = "p + word_of_nat (length bl)"
  obtain d ds' where ds: "ds = d # ds'" using assms(5) by (cases ds) auto
  have d: "d \<in> set digits" "d \<noteq> 32" "d \<noteq> 9" "d \<noteq> 45" "d \<noteq> 43"
    using assms(4) unfolding ds by (auto simp: digits_def)
  have h: "sg @ ds @ rest = [] \<or> hd (sg @ ds @ rest) \<notin> {32, 9}" using assms(3) d(2,3) by (auto simp: ds)
  have bl: "atoi_blanks m p = Some ?q" "cstring m ?q (sg @ ds @ rest)"
    using atoi_blanks_cstring [OF assms(1,2) h] by simp_all
  have val: "atoi_digits m r 0 = Some (word_of_nat (decimal ds))" if "cstring m r (ds @ rest)" for r
    using atoi_digits_cstring [OF that assms(4,6), of 0] by (simp add: decimal_def)
  consider "sg = []" | "sg = [45]" | "sg = [43]" using assms(3) by auto
  then show ?thesis
  proof cases
    case 1
    then have "m ?q = d" using bl(2) by (simp add: ds cstring_Cons)
    then show ?thesis using 1 bl d(4,5) val [of ?q] by (simp add: atoi_def Let_def)
  next
    case 2
    then have "m ?q = 45" "cstring m (?q + 1) (ds @ rest)" using bl(2) by (simp_all add: cstring_Cons)
    then show ?thesis using 2 bl(1) val [of "?q + 1"] by (simp add: atoi_def Let_def)
  next
    case 3
    then have "m ?q = 43" "cstring m (?q + 1) (ds @ rest)" using bl(2) by (simp_all add: cstring_Cons)
    then show ?thesis using 3 bl(1) val [of "?q + 1"] by (simp add: atoi_def Let_def)
  qed
qed

theorem atoi_parses_witness:
  "atoi (mem_put (\<lambda>_. 0) 0x1000 [32, 45, 52, 50, 120]) 0x1000 = Some (- 42)"
proof -
  have "cstring (mem_put (\<lambda>_. 0) 0x1000 [32, 45, 52, 50, 120]) 0x1000 ([32] @ [45] @ [52, 50] @ [120])"
    by (simp add: cstring_def mem_get_def mem_put_def upt_rec)
  from atoi_parses [OF this] show ?thesis by (simp add: digits_def decimal_def)
qed

section \<open>Searching\<close>

lemma strchr_cstring:
  assumes "cstring m a s"
  shows "strchr m a ch = Some (if ch \<in> sint ` set (s @ [0])
    then a + word_of_nat (length (takeWhile (\<lambda>c. sint c \<noteq> ch) (s @ [0]))) else 0)"
  using assms
proof (induction s arbitrary: a)
  case Nil
  then show ?case by (subst strchr.simps) (auto simp: cstring_Nil)
next
  case (Cons c s)
  then have c: "m a = c" "c \<noteq> 0" "cstring m (a + 1) s" by (simp_all add: cstring_Cons)
  show ?case using Cons.IH [OF c(3)] c(1,2) by (subst strchr.simps) (auto simp: add.assoc)
qed

lemma strrchr_down_list:
  assumes "\<And>i. i < length xs \<Longrightarrow> m (a + word_of_nat i) = xs ! i"
  shows "n \<le> length xs \<Longrightarrow> strrchr_down m a ch n = (if ch \<in> sint ` set (take n xs)
    then a + word_of_nat (n - 1 - length (takeWhile (\<lambda>c. sint c \<noteq> ch) (rev (take n xs)))) else 0)"
proof (induction n)
  case (Suc n)
  then show ?case using assms [of n] by (auto simp: take_Suc_conv_app_nth)
qed simp

text \<open>
  C33. \<^verbatim>\<open>strchr\<close> and \<^verbatim>\<open>strrchr\<close> of a string, not at the null address, return the address of the first and the last
  occurrence of the character, the terminator counting as one, and the null pointer when there is
  none.
\<close>

theorem strchr_first_strrchr_last:
  assumes "cstring m a s" "a \<noteq> 0"
  shows "strchr m a ch = Some (if ch \<in> sint ` set (s @ [0])
      then a + word_of_nat (length (takeWhile (\<lambda>c. sint c \<noteq> ch) (s @ [0]))) else 0) \<and>
    strrchr m a ch = Some (if ch \<in> sint ` set (s @ [0])
      then a + word_of_nat (length s - length (takeWhile (\<lambda>c. sint c \<noteq> ch) (rev (s @ [0])))) else 0)"
proof -
  have "m (a + word_of_nat i) = (s @ [0]) ! i" if "i < length (s @ [0])" for i
    using that cstring_nth(1,3) [OF assms(1)] by (cases "i < length s") (simp_all add: nth_append less_Suc_eq)
  from strrchr_down_list [of "s @ [0]" m a "length s + 1" ch, OF this]
  have "strrchr_down m a ch (length s + 1) = (if ch \<in> sint ` set (s @ [0])
      then a + word_of_nat (length s - length (takeWhile (\<lambda>c. sint c \<noteq> ch) (rev (s @ [0])))) else 0)" by simp
  moreover have "(length s + 1) mod 2 ^ 32 = length s + 1"
    using assms by (simp add: cstring_def unat_eq_0 [symmetric])
  ultimately have "strrchr m a ch = Some (if ch \<in> sint ` set (s @ [0])
      then a + word_of_nat (length s - length (takeWhile (\<lambda>c. sint c \<noteq> ch) (rev (s @ [0])))) else 0)"
    using strlen_cstring [OF assms(1)] by (simp only: strrchr_def bind.simps)
  then show ?thesis using strchr_cstring [OF assms(1), of ch] by blast
qed

theorem strchr_first_strrchr_last_witness:
  "strchr (mem_put (\<lambda>_. 0) 0x1000 [97, 98, 97]) 0x1000 97 = Some 0x1000 \<and>
   strrchr (mem_put (\<lambda>_. 0) 0x1000 [97, 98, 97]) 0x1000 97 = Some 0x1002"
proof -
  have "cstring (mem_put (\<lambda>_. 0) 0x1000 [97, 98, 97]) 0x1000 [97, 98, 97]"
    by (simp add: cstring_def mem_get_def mem_put_def upt_rec)
  from strchr_first_strrchr_last [OF this, of 97] show ?thesis by simp
qed

section \<open>Splitting\<close>






end
