(* ===== verification/Spec2Isabelle.thy ===== *)
theory Spec2Isabelle
  imports Kern_VM_Copy Thread_Props Sfs_Vnode Sfs_Trunc_Props Libc_String
begin

text \<open>
  A verification development of the OS/161 kernel of this repository: the machine-independent
  kernel library, threads and synchronization, physical memory and the kernel heap, address
  spaces and page faults, copies between kernel and user memory, the disk driver, the SFS file
  system, and the C library functions the kernel shares with user programs. Paths below are
  relative to \<^verbatim>\<open>src/\<close>.

  \<^bold>\<open>Conventions.\<close> C integers keep their width (\<^verbatim>\<open>u8\<close>, \<^verbatim>\<open>u16\<close>, \<^verbatim>\<open>u32\<close> are words; \<^verbatim>\<open>size_t\<close> and \<^verbatim>\<open>off_t\<close>
  are numbers with the reduction written out; \<^verbatim>\<open>cint\<close> is a signed operation that is undefined
  outside 32 bits). A result of type \<^verbatim>\<open>option\<close> is \<^verbatim>\<open>None\<close> where the source panics, fails an
  assertion, has no defined behaviour, or waits for something that never comes; an error number
  handed to the caller is the left summand of \<^verbatim>\<open>errno + 'a\<close>. Whether an allocation succeeds is a
  parameter (\<^verbatim>\<open>kmalloc_ok\<close>, \<^verbatim>\<open>mem\<close>) except above the model of the heap itself. Hardware (the disk
  drive, the faults of user memory) is a parameter too. \<^verbatim>\<open>OS_Prelude\<close> holds the types, the error
  numbers of \<^verbatim>\<open>kern/include/kern/errno.h\<close>, the assertion and array-slot operators and their rules.

  \<^bold>\<open>Kernel library\<close> (\<^verbatim>\<open>kern/lib\<close>). \<^verbatim>\<open>Kern_Array\<close> models \<^verbatim>\<open>array.c\<close> and interprets the interface
  \<^verbatim>\<open>vector\<close> (a list with indexed access); \<^verbatim>\<open>Kern_Queue\<close> models \<^verbatim>\<open>queue.c\<close> and interprets \<^verbatim>\<open>fifo\<close>;
  \<^verbatim>\<open>Kern_Bitmap\<close> models \<^verbatim>\<open>bitmap.c\<close> and interprets \<^verbatim>\<open>unit_pool\<close> (allocation of the least free
  number). The recursion between \<^verbatim>\<open>q_addtail\<close> and \<^verbatim>\<open>q_grow\<close> is bounded by a depth of two, which a
  well-formed queue never exhausts.

  \<^bold>\<open>Threads and synchronization\<close> (\<^verbatim>\<open>kern/thread\<close>, \<^verbatim>\<open>kern/arch/mips/mips\<close>). \<^verbatim>\<open>Kern_Thread\<close> models
  \<^verbatim>\<open>spl.c\<close>, \<^verbatim>\<open>scheduler.c\<close>, \<^verbatim>\<open>thread.c\<close> and the switch of \<^verbatim>\<open>pcb.c\<close> on one record of the globals;
  \<^verbatim>\<open>Kern_Synch\<close> models \<^verbatim>\<open>synch.c\<close>, \<^verbatim>\<open>hardclock.c\<close> and the interrupt path, and the step relation of
  the machine: a kernel call, a timer interrupt, or a switch. A blocked thread is the list of the
  frames it still has to execute. \<^verbatim>\<open>Kern_Thread_Inv\<close>, \<^verbatim>\<open>Kern_Thread_Life\<close>, \<^verbatim>\<open>Kern_Synch_Inv\<close> and
  \<^verbatim>\<open>Kern_Machine\<close> show that every step keeps the invariant; \<^verbatim>\<open>Thread_Props\<close> states the properties:
  threads are never lost or duplicated, wakeups are never lost, a lock has one owner and changes
  hands only through it.

  \<^bold>\<open>Memory\<close> (\<^verbatim>\<open>kern/vm\<close>, \<^verbatim>\<open>kern/arch/mips/mips/ram.c\<close>, \<^verbatim>\<open>kern/lib/kheap.c\<close>). \<^verbatim>\<open>Kern_Coremap\<close> models
  the page allocator and interprets \<^verbatim>\<open>page_pool\<close>; \<^verbatim>\<open>Kern_Heap\<close> models \<^verbatim>\<open>kmalloc\<close> and \<^verbatim>\<open>kfree\<close> on the
  words of memory, \<^verbatim>\<open>Kern_Heap_Inv\<close>, \<^verbatim>\<open>Kern_Heap_Props\<close> and \<^verbatim>\<open>Kern_Heap_Client\<close> show that they
  implement \<^verbatim>\<open>block_heap\<close> (disjoint live blocks, kept apart from the allocator's own data).
  \<^verbatim>\<open>Kern_VM\<close> models the rest of \<^verbatim>\<open>vm.c\<close>, with address spaces and page tables as words in heap
  blocks; \<^verbatim>\<open>Kern_VM_Inv\<close>, \<^verbatim>\<open>Kern_VM_Props\<close> and \<^verbatim>\<open>Kern_VM_Copy\<close> show what page faults map, what they
  refuse, and that \<^verbatim>\<open>as_copy\<close> and \<^verbatim>\<open>as_destroy\<close> copy and free exactly the pages of an address space.

  \<^bold>\<open>User copies\<close> (\<^verbatim>\<open>kern/lib/copyinout.c\<close>, \<^verbatim>\<open>kern/userprog/uio.c\<close>). \<^verbatim>\<open>Kern_Uio\<close> models them with
  faults in the middle of a copy and shows that nothing at or above \<^verbatim>\<open>USERTOP\<close> is touched and that
  \<^verbatim>\<open>uiomove\<close> accounts for every byte.

  \<^bold>\<open>Disk and file system\<close> (\<^verbatim>\<open>kern/dev/lamebus/lhd.c\<close>, \<^verbatim>\<open>kern/fs/sfs\<close>, \<^verbatim>\<open>kern/fs/vfs/vnode.c\<close>).
  \<^verbatim>\<open>Dev_Lhd\<close> models the driver over an arbitrary drive, states the contract \<^verbatim>\<open>block_device\<close> and
  interprets it on the driver for every drive without media errors. \<^verbatim>\<open>Sfs_Disk\<close> models formats,
  block I/O with retries and block allocation; \<^verbatim>\<open>Sfs_File\<close> block mapping, reading, writing and
  truncation; \<^verbatim>\<open>Sfs_Vnode\<close> directories, vnodes, mounting. \<^verbatim>\<open>Sfs_File_Props\<close> abstracts an inode to
  the function from positions to bytes and shows, inside \<^verbatim>\<open>block_device\<close>, what \<^verbatim>\<open>sfs_bmap\<close> does;
  \<^verbatim>\<open>Sfs_Io_Props\<close> shows once, in the locale \<^verbatim>\<open>block_steps\<close>, how \<^verbatim>\<open>sfs_io\<close> composes the transfers of
  single blocks, and uses it for writing and for reading. \<^verbatim>\<open>Sfs_Props\<close> and \<^verbatim>\<open>Sfs_Trunc_Props\<close> state
  the results for the driver: writes refine overwriting a stretch of bytes, reads deliver one,
  the two form a round trip, files do not disturb each other, truncation frees exactly what the
  file gives up, the retry loop ends, and a write the medium refuses is reported as done.

  \<^bold>\<open>C library\<close> (\<^verbatim>\<open>lib/libc\<close>). \<^verbatim>\<open>Libc_Mem\<close> shows the word-sized and byte-sized, upward and downward
  loops of \<^verbatim>\<open>memcpy\<close>, \<^verbatim>\<open>memmove\<close>, \<^verbatim>\<open>bzero\<close> and \<^verbatim>\<open>memset\<close> equal to one step on the whole block;
  \<^verbatim>\<open>Libc_String\<close> models \<^verbatim>\<open>strlen\<close>, \<^verbatim>\<open>strcpy\<close>, \<^verbatim>\<open>strcat\<close>, \<^verbatim>\<open>strcmp\<close>, \<^verbatim>\<open>strchr\<close>, \<^verbatim>\<open>strrchr\<close>, \<^verbatim>\<open>strtok_r\<close> and
  \<^verbatim>\<open>atoi\<close> as partial functions, since a scan without a terminator does not end, and shows that on
  strings they return and what they return.

  \<^bold>\<open>Bounds.\<close> Besides the depth of the queue, loops are structural or have a measure (\<^verbatim>\<open>sfs_rwtry\<close>
  counts at most ten retries; \<^verbatim>\<open>uiomove\<close> and the searches of the coremap a bounded remainder), or
  are partial functions whose return is proved. The file system results assume a disk of fewer
  than \<^verbatim>\<open>2 ^ 22\<close> sectors, so that byte offsets stay below \<^verbatim>\<open>2 ^ 31\<close>.

  \<^bold>\<open>Not modelled.\<close> The system calls of \<^verbatim>\<open>syscall.c\<close> and program loading (\<^verbatim>\<open>loadelf.c\<close>,
  \<^verbatim>\<open>runprogram.c\<close>), which combine trap frames, user memory and the file system of several threads;
  the device list and path lookup of \<^verbatim>\<open>kern/fs/vfs\<close>, which dispatch through tables of function
  pointers; the other device drivers, which are register access; console, printing, the menu, the
  tests and the exercises of \<^verbatim>\<open>kern/asst1\<close>; user programs and the host tools; \<^verbatim>\<open>asst2-end\<close>, an
  earlier copy of the same kernel. Directory and vnode operations are modelled, but no
  property about them is stated. Concurrent callers inside SFS are not interleaved: the
  operations of \<^verbatim>\<open>kern/fs/sfs\<close> take no lock but that of a reference count, and are modelled as
  running one at a time.
\<close>

end
